(* ===== verification/Prelude.thy ===== *)
theory Prelude
  imports Main "HOL-Library.Word"
begin

text \<open>
  What every component shares: the machine integers of the i386 build, the outcome of a piece of
  C code that runs on a coroutine's stack, and the rules by which the proofs compose such pieces.

  A coroutine runs until it calls \<open>taskswitch\<close>; then other coroutines run, and later it goes on
  where it stopped. So the code of a function is a function of the global state, with one of
  three outcomes: it returns, it gives up the CPU (with the state at that moment and the rest of
  its code, a function of the state in which it is resumed), or it ends the process.
\<close>

named_theorems sem_simps \<open>unfolding of the state operations\<close>
named_theorems runs_rules \<open>introduction rules for \<open>runs\<close>\<close>

section \<open>Machine integers\<close>

text \<open>
  The Makefile builds with \<open>-m32\<close>: \<open>int\<close>, \<open>unsigned\<close>, \<open>long\<close> and pointers have 32 bits. A C
  \<open>int\<close> is read with \<open>sint\<close> where the code compares it.
\<close>

type_synonym cint = "32 word"
type_synonym uint = "32 word"
type_synonym uvlong = "64 word"
type_synonym uchar = "8 word"

lemma uint_of_int64: "uint (word_of_int k :: uvlong) = k mod 2 ^ 64"
  using uint_word_of_int [of k, where 'a = 64] by simp

lemma sint_range64: "- (2 ^ 63) \<le> sint (w :: uvlong) \<and> sint w < 2 ^ 63"
  using sint_ge [of w] sint_lt [of w] by simp

lemma uint_neg_sint: "sint (w :: uvlong) < 0 \<Longrightarrow> uint (- w) = - sint w"
  using uint_of_int64 [of "- sint w"] sint_range64 [of w] by (simp add: mod_pos_pos_trivial)

lemma sint_nonneg: "0 \<le> sint (w :: uvlong) \<Longrightarrow> uint w = sint w"
  using uint_of_int64 [of "sint w"] sint_range64 [of w] by simp

lemma sint_of_int32: "- (2 ^ 31) \<le> k \<Longrightarrow> k < 2 ^ 31 \<Longrightarrow> sint (word_of_int k :: cint) = k"
  using sint_sbintrunc' [of k, where 'a = 32] by (simp add: signed_take_bit_int_eq_self)

lemma sint_neg32:
  assumes "sint (w :: cint) < 0" and "sint w \<noteq> - (2 ^ 31)"
  shows "sint (- w) = - sint w"
proof -
  have r: "- (2 ^ 31) \<le> sint w" using sint_ge [of w] by simp
  then have "sint (word_of_int (- sint w) :: cint) = - sint w"
    using assms by (intro sint_of_int32) auto
  then show ?thesis by simp
qed

lemma sint_uint32: "sint (w :: cint) = (if uint w < 2 ^ 31 then uint w else uint w - 2 ^ 32)"
proof (cases "uint w < 2 ^ 31")
  case True
  then have "sint (word_of_int (uint w) :: cint) = uint w" by (intro sint_of_int32) (simp_all add: order_trans [OF _ uint_ge_0])
  then show ?thesis using True by simp
next
  case False
  have u: "uint w < 2 ^ 32" using uint_lt2p [of w] by simp
  then have "sint (word_of_int (uint w - 2 ^ 32) :: cint) = uint w - 2 ^ 32"
    using False by (intro sint_of_int32) simp_all
  moreover have "uint (word_of_int (uint w - 2 ^ 32) :: cint) = uint w"
  proof -
    have "(uint w - 2 ^ 32) mod 2 ^ 32 = uint w mod 2 ^ 32" by (metis minus_mod_self2)
    also have "\<dots> = uint w" using u by (intro mod_pos_pos_trivial) simp_all
    finally show ?thesis using uint_word_of_int [of "uint w - 2 ^ 32", where 'a = 32] by simp
  qed
  then have "(word_of_int (uint w - 2 ^ 32) :: cint) = w" by (rule word_uint_eqI)
  ultimately show ?thesis using False by (simp only: if_False)
qed

lemma sint_unat32: "0 \<le> sint (w :: cint) \<longleftrightarrow> unat w < 2 ^ 31" "0 \<le> sint w \<Longrightarrow> sint w = int (unat w)"
proof -
  have u: "uint w < 2 ^ 32" "int (unat w) = uint w" using uint_lt2p [of w] by simp_all
  then have half: "uint w < 2147483648 \<longleftrightarrow> unat w < 2147483648" by linarith
  show "0 \<le> sint w \<longleftrightarrow> unat w < 2 ^ 31"
    unfolding sint_uint32 using half u by (simp split: if_splits)
  show "0 \<le> sint w \<Longrightarrow> sint w = int (unat w)"
    unfolding sint_uint32 using u by (simp split: if_splits)
qed

text \<open>A position in a buffer of a C \<open>int\<close> length, and what is left of it.\<close>

lemma step_words:
  fixes tot n :: cint
  assumes "0 \<le> sint tot" and "sint tot < sint n"
  shows "unat tot + unat (n - tot) = unat n" and "unat (n - tot) < 2 ^ 31" and "unat n < 2 ^ 31"
proof -
  have n: "0 \<le> sint n" using assms by linarith
  have "uint tot < uint n" using assms sint_unat32(2) [OF n] sint_unat32(2) [OF assms(1)] by simp
  then have l: "tot < n" by (simp add: word_less_def)
  then have s: "unat (n - tot) = unat n - unat tot" by (intro unat_sub) simp
  have "unat tot < unat n" using l by (simp add: word_less_nat_alt)
  moreover show "unat n < 2 ^ 31" using n by (simp only: sint_unat32(1))
  ultimately show "unat tot + unat (n - tot) = unat n" "unat (n - tot) < 2 ^ 31"
    using s by simp_all
qed

lemma word_add_le:
  fixes tot n m :: cint
  assumes "0 \<le> sint tot" and "sint tot < sint n" and "0 \<le> sint m" and "unat m \<le> unat (n - tot)"
  shows "unat (tot + m) = unat tot + unat m" and "0 \<le> sint (tot + m)" and "sint (tot + m) \<le> sint n"
proof -
  note s = step_words [OF assms(1,2)]
  have "unat tot + unat m < 2 ^ 32" using s assms(4) by simp
  then have "unat tot + unat m < 2 ^ LENGTH(32)" by simp
  then show a: "unat (tot + m) = unat tot + unat m" by (simp only: unat_add_lem [symmetric])
  then have "unat (tot + m) < 2 ^ 31" using s assms(4) by simp
  then show p: "0 \<le> sint (tot + m)" by (simp only: sint_unat32(1))
  have "0 \<le> sint n" using assms by linarith
  from sint_unat32(2) [OF p] sint_unat32(2) [OF this]
  show "sint (tot + m) \<le> sint n" using a s assms(4) by linarith
qed

section \<open>Outcomes\<close>

text \<open>
  Why a process stops: \<open>abort()\<close>, a failed \<open>assert\<close>, an access outside every live object
  (nil or dangling pointer, index out of range: undefined in C), the use of the nil pointer that an
  unchecked allocation returned, \<open>exit(n)\<close>, a division that traps, or, in the model only, the fuel
  of a loop that crosses context switches ran out.
\<close>

datatype stop = Abort | AssertFail | BadMem | NoMemory | Exit cint | Trap | NoFuel

datatype (dead 's, 'a) res =
    Ret 'a 's
  | Switch 's "'s \<Rightarrow> ('s, 'a) res"
  | Halt stop 's

type_synonym ('s, 'a) prog = "'s \<Rightarrow> ('s, 'a) res"

primrec bindr :: "('s, 'a) res \<Rightarrow> ('a \<Rightarrow> ('s, 'b) prog) \<Rightarrow> ('s, 'b) res" where
  "bindr (Ret a s) f = f a s"
| "bindr (Switch s k) f = Switch s (\<lambda>s'. bindr (k s') f)"
| "bindr (Halt e s) f = Halt e s"

definition bnd :: "('s, 'a) prog \<Rightarrow> ('a \<Rightarrow> ('s, 'b) prog) \<Rightarrow> ('s, 'b) prog" where
  "bnd m f s = bindr (m s) f"

definition ret :: "'a \<Rightarrow> ('s, 'a) prog" where
  "ret a s = Ret a s"

definition halt :: "stop \<Rightarrow> ('s, 'a) prog" where
  "halt e s = Halt e s"

definition get :: "('s \<Rightarrow> 'a) \<Rightarrow> ('s, 'a) prog" where
  "get f s = Ret (f s) s"

definition upd :: "('s \<Rightarrow> 's) \<Rightarrow> ('s, unit) prog" where
  "upd f s = Ret () (f s)"

definition whenp :: "bool \<Rightarrow> ('s, unit) prog \<Rightarrow> ('s, unit) prog" where
  "whenp b m = (if b then m else ret ())"

text \<open>The scheduler's side of a context switch: the rest of the code is what follows.\<close>

definition switch :: "('s, unit) prog" where
  "switch s = Switch s (ret ())"

lemmas prog_defs = bnd_def ret_def halt_def get_def upd_def whenp_def switch_def

declare ret_def [sem_simps] halt_def [sem_simps] get_def [sem_simps] upd_def [sem_simps]
  switch_def [sem_simps]

text \<open>The monad laws: a block of code does not depend on how its statements are grouped.\<close>

lemma bindr_ret [simp]: "bindr r ret = r"
  by (induction r) (auto simp: ret_def)

lemma bindr_assoc: "bindr (bindr r f) g = bindr r (\<lambda>a. bnd (f a) g)"
  by (induction r) (auto simp: bnd_def)

lemma bnd_ret_left [simp]: "bnd (ret a) f = f a"
  by (simp add: bnd_def ret_def fun_eq_iff)

lemma bnd_ret_right [simp]: "bnd m ret = m"
  by (simp add: bnd_def fun_eq_iff)

lemma bnd_assoc: "bnd (bnd m f) g = bnd m (\<lambda>a. bnd (f a) g)"
  by (simp add: bnd_def bindr_assoc fun_eq_iff)

lemma bnd_Ret [simp]: "m s = Ret a s' \<Longrightarrow> bnd m f s = f a s'"
  by (simp add: bnd_def)

lemma bnd_Halt [simp]: "m s = Halt e s' \<Longrightarrow> bnd m f s = Halt e s'"
  by (simp add: bnd_def)

lemma bnd_Switch [simp]: "m s = Switch s' k \<Longrightarrow> bnd m f s = Switch s' (\<lambda>u. bindr (k u) f)"
  by (simp add: bnd_def)

section \<open>Total correctness of code that does not give up the CPU\<close>

text \<open>
  \<open>runs m s P\<close>: from \<open>s\<close> the code \<open>m\<close> returns, without a context switch and without ending the
  process, and its result and final state satisfy \<open>P\<close>.
\<close>

definition runs :: "('s, 'a) prog \<Rightarrow> 's \<Rightarrow> ('a \<Rightarrow> 's \<Rightarrow> bool) \<Rightarrow> bool" where
  "runs m s P \<longleftrightarrow> (\<exists>a s'. m s = Ret a s' \<and> P a s')"

text \<open>
  \<open>blocks m s P\<close>: from \<open>s\<close> the code gives up the CPU, and the state at that moment and the rest
  of the code satisfy \<open>P\<close>.
\<close>

definition blocks :: "('s, 'a) prog \<Rightarrow> 's \<Rightarrow> ('s \<Rightarrow> ('s, 'a) prog \<Rightarrow> bool) \<Rightarrow> bool" where
  "blocks m s P \<longleftrightarrow> (\<exists>s' k. m s = Switch s' k \<and> P s' k)"

definition halts :: "('s, 'a) prog \<Rightarrow> 's \<Rightarrow> stop \<Rightarrow> bool" where
  "halts m s e \<longleftrightarrow> (\<exists>s'. m s = Halt e s')"

lemma runs_bnd: "runs (bnd m f) s P \<longleftrightarrow> runs m s (\<lambda>a s'. runs (f a) s' P)"
  by (cases "m s") (auto simp: runs_def bnd_def)

lemma runs_ret [simp]: "runs (ret a) s P \<longleftrightarrow> P a s"
  by (simp add: runs_def ret_def)

lemma runs_get [simp]: "runs (get f) s P \<longleftrightarrow> P (f s) s"
  by (simp add: runs_def get_def)

lemma runs_upd [simp]: "runs (upd f) s P \<longleftrightarrow> P () (f s)"
  by (simp add: runs_def upd_def)

lemma runs_halt [simp]: "\<not> runs (halt e) s P"
  by (simp add: runs_def halt_def)

lemma runs_switch [simp]: "\<not> runs switch s P"
  by (simp add: runs_def switch_def)

lemma runs_whenp [simp]: "runs (whenp b m) s P \<longleftrightarrow> (if b then runs m s P else P () s)"
  by (simp add: whenp_def)

lemma runs_mono: "runs m s P \<Longrightarrow> (\<And>a s'. P a s' \<Longrightarrow> Q a s') \<Longrightarrow> runs m s Q"
  by (auto simp: runs_def)

lemma runs_bndI [runs_rules]: "runs m s (\<lambda>a s'. runs (f a) s' P) \<Longrightarrow> runs (bnd m f) s P"
  by (simp add: runs_bnd)

lemma runsE:
  assumes "runs m s P"
  obtains a s' where "m s = Ret a s'" and "P a s'"
  using assms by (auto simp: runs_def)

lemma runs_Ret: "runs m s P \<Longrightarrow> m s = Ret a s' \<Longrightarrow> P a s'"
  by (simp add: runs_def)

lemma blocks_switch [simp]: "blocks switch s P \<longleftrightarrow> P s (ret ())"
  by (simp add: blocks_def switch_def)

lemma blocks_bnd_first:
  "blocks m s (\<lambda>s' k. P s' (bnd k f)) \<Longrightarrow> blocks (bnd m f) s P"
  by (auto simp: blocks_def bnd_def [abs_def])

lemma blocks_bnd_next:
  "runs m s (\<lambda>a s'. blocks (f a) s' P) \<Longrightarrow> blocks (bnd m f) s P"
  by (auto simp: blocks_def runs_def bnd_def)

lemma blocks_mono: "blocks m s P \<Longrightarrow> (\<And>s' k. P s' k \<Longrightarrow> Q s' k) \<Longrightarrow> blocks m s Q"
  by (auto simp: blocks_def)

lemma halts_halt [simp]: "halts (halt e) s e' \<longleftrightarrow> e = e'"
  by (auto simp: halts_def halt_def)

lemma halts_bnd_first: "halts m s e \<Longrightarrow> halts (bnd m f) s e"
  by (auto simp: halts_def bnd_def)

lemma halts_bnd_next: "runs m s (\<lambda>a s'. halts (f a) s' e) \<Longrightarrow> halts (bnd m f) s e"
  by (auto simp: halts_def runs_def bnd_def)

text \<open>The same, but the code may also end the process for the reason \<open>e\<close>.\<close>

definition runs_or :: "stop \<Rightarrow> ('s, 'a) prog \<Rightarrow> 's \<Rightarrow> ('a \<Rightarrow> 's \<Rightarrow> bool) \<Rightarrow> bool" where
  "runs_or e m s P \<longleftrightarrow> runs m s P \<or> halts m s e"

lemma runs_or_runs: "runs m s P \<Longrightarrow> runs_or e m s P"
  by (simp add: runs_or_def)

lemma runs_or_halt [simp]: "runs_or e (halt e) s P"
  by (simp add: runs_or_def)

lemma runs_or_bndI: "runs_or e m s (\<lambda>a s'. runs_or e (f a) s' P) \<Longrightarrow> runs_or e (bnd m f) s P"
  unfolding runs_or_def runs_def halts_def bnd_def by force

lemma runs_or_mono: "runs_or e m s P \<Longrightarrow> (\<And>a s'. P a s' \<Longrightarrow> Q a s') \<Longrightarrow> runs_or e m s Q"
  by (auto simp: runs_or_def elim: runs_mono)

text \<open>A \<open>for\<close> loop over a list of known indices, and its invariant.\<close>

primrec seqp :: "('a \<Rightarrow> ('s, unit) prog) \<Rightarrow> 'a list \<Rightarrow> ('s, unit) prog" where
  "seqp f [] = ret ()"
| "seqp f (x # xs) = bnd (f x) (\<lambda>_. seqp f xs)"

lemma runs_or_seqp_from:
  assumes "\<And>ys x zs s. pre @ xs = ys @ x # zs \<Longrightarrow> I ys s \<Longrightarrow> runs_or e (f x) s (\<lambda>_. I (ys @ [x]))"
    and "I pre s"
  shows "runs_or e (seqp f xs) s (\<lambda>_. I (pre @ xs))"
  using assms
proof (induction xs arbitrary: pre s)
  case (Cons x xs)
  have rest: "runs_or e (seqp f xs) t (\<lambda>_. I (pre @ x # xs))" if "I (pre @ [x]) t" for t
    using Cons.IH [of "pre @ [x]" t] Cons.prems(1) that by simp
  have "runs_or e (f x) s (\<lambda>_. I (pre @ [x]))" by (rule Cons.prems(1) [OF refl Cons.prems(2)])
  then have "runs_or e (bnd (f x) (\<lambda>_. seqp f xs)) s (\<lambda>_. I (pre @ x # xs))"
    by (intro runs_or_bndI) (rule runs_or_mono, assumption, rule rest)
  then show ?case by simp
qed (simp add: runs_or_def)

lemmas runs_or_seqp = runs_or_seqp_from [where pre = "[]", unfolded append_Nil]

lemma runs_seqp:
  assumes "\<And>ys x zs s. xs = ys @ x # zs \<Longrightarrow> I ys s \<Longrightarrow> runs (f x) s (\<lambda>_. I (ys @ [x]))" and "I [] s"
  shows "runs (seqp f xs) s (\<lambda>_. I xs)"
proof -
  have "runs_or e (seqp f xs) s (\<lambda>_. I xs)" for e
    by (rule runs_or_seqp [OF runs_or_runs]) (use assms in auto)
  from this [of Abort] this [of NoFuel] show ?thesis
    by (auto simp: runs_or_def halts_def runs_def)
qed

section \<open>Safety across context switches\<close>

text \<open>
  \<open>safe R G E Q r s0\<close>: the rest \<open>r\<close> of a coroutine's code, whose current turn on the CPU began in
  state \<open>s0\<close>, keeps to its contract. Where it gives up the CPU it guarantees \<open>G\<close> between the start
  and the end of the turn; it may rely on \<open>R\<close> between that end and the state in which it is
  resumed; it ends the process only for reasons in \<open>E\<close>; where it returns, \<open>Q\<close> holds between the
  start of the turn, the result and the final state.
\<close>

primrec safe :: "('s \<Rightarrow> 's \<Rightarrow> bool) \<Rightarrow> ('s \<Rightarrow> 's \<Rightarrow> bool) \<Rightarrow> (stop \<Rightarrow> bool) \<Rightarrow> ('s \<Rightarrow> 'a \<Rightarrow> 's \<Rightarrow> bool)
    \<Rightarrow> ('s, 'a) res \<Rightarrow> 's \<Rightarrow> bool" where
  "safe R G E Q (Ret a s) = (\<lambda>s0. Q s0 a s)"
| "safe R G E Q (Switch s k) = (\<lambda>s0. G s0 s \<and> (\<forall>s'. R s s' \<longrightarrow> safe R G E Q (k s') s'))"
| "safe R G E Q (Halt e s) = (\<lambda>s0. E e)"

lemma safe_bindr:
  "safe R G E (\<lambda>s0 a s. safe R G E Q (f a s) s0) r s0 \<Longrightarrow> safe R G E Q (bindr r f) s0"
  by (induction r arbitrary: s0) auto

lemma safe_mono:
  "safe R G E Q r s0 \<Longrightarrow> (\<And>s0 a s. Q s0 a s \<Longrightarrow> Q' s0 a s) \<Longrightarrow> safe R G E Q' r s0"
  by (induction r arbitrary: s0) auto

text \<open>The turn may have begun earlier, if the guarantee and the postcondition cover the addition.\<close>

lemma safe_earlier:
  assumes "safe R G E Q r s1" and "\<And>s. G s1 s \<Longrightarrow> G s0 s" and "\<And>a s. Q s1 a s \<Longrightarrow> Q s0 a s"
  shows "safe R G E Q r s0"
  using assms by (cases r) auto

section \<open>Lists as the queues of the program see them\<close>

definition hd_opt :: "'a list \<Rightarrow> 'a option" where
  "hd_opt xs = (case xs of [] \<Rightarrow> None | x # _ \<Rightarrow> Some x)"

definition last_opt :: "'a list \<Rightarrow> 'a option" where
  "last_opt xs = (if xs = [] then None else Some (last xs))"

lemma hd_opt_simps [simp]: "hd_opt [] = None" "hd_opt (x # xs) = Some x"
  by (simp_all add: hd_opt_def)

lemma last_opt_simps [simp]: "last_opt [] = None" "last_opt (xs @ [x]) = Some x"
  by (simp_all add: last_opt_def)

lemma hd_opt_None [simp]: "hd_opt xs = None \<longleftrightarrow> xs = []"
  by (cases xs) auto

lemma hd_opt_Some: "hd_opt xs = Some x \<longleftrightarrow> (\<exists>ys. xs = x # ys)"
  by (cases xs) auto

lemma hd_opt_append [simp]: "hd_opt (xs @ ys) = (if xs = [] then hd_opt ys else hd_opt xs)"
  by (cases xs) auto

lemma last_opt_None [simp]: "last_opt xs = None \<longleftrightarrow> xs = []"
  by (simp add: last_opt_def)

lemma last_opt_Some: "last_opt xs = Some x \<longleftrightarrow> (\<exists>ys. xs = ys @ [x])"
  by (auto simp: last_opt_def intro: exI [of _ "butlast xs"])

lemma last_opt_append [simp]: "last_opt (xs @ ys) = (if ys = [] then last_opt xs else last_opt ys)"
  by (simp add: last_opt_def)

lemma last_opt_Cons [simp]: "last_opt (x # xs) = (if xs = [] then Some x else last_opt xs)"
  by (simp add: last_opt_def)

end
