(* ===== verification/Print.thy ===== *)
theory Print
  imports Prelude
begin

text \<open>
  print.c: the formatted printing into a buffer that the library uses for task names and states
  and for addresses. A buffer of \<open>n\<close> bytes is its size and the characters written so far; the
  characters of a finished buffer stand before its terminating NUL.
\<close>


section \<open>Padding and truncation\<close>

text \<open>
  \<open>printstr\<close> appends \<open>s\<close> to what is written, padded to \<open>width\<close> (negative: on the
  left), and never uses the last byte of the buffer. \<open>n\<close> and \<open>l\<close> are the C variables.
\<close>

definition printstr :: "nat \<Rightarrow> string \<Rightarrow> string \<Rightarrow> cint \<Rightarrow> string" where
  "printstr cap out s width =
     (let sz = (if sint width < 0 then - width else width) in
      if cap \<le> length out then out
      else
        let room = int (cap - length out);
            l0 = int (length s);
            n0 = (if l0 < sint sz then sint sz else l0);
            n = (if room \<le> n0 then room - 1 else n0);
            l = (if n < l0 then n else l0)
        in if sint width < 0
           then out @ take (nat l) s @ replicate (nat (n - l)) CHR '' ''
           else out @ replicate (nat (n - l)) CHR '' '' @ take (nat l) s)"

section \<open>Numbers\<close>

text \<open>
  A variadic argument: on i386 \<open>int\<close>, \<open>long\<close> and pointers take one word, \<open>vlong\<close> two; a string
  stands for a pointer to it. The code reads an argument of a type that was not passed: undefined,
  \<open>BadMem\<close>.
\<close>

datatype vararg = V32 "32 word" | V64 "64 word" | VStr string

text \<open>
  What the formatter takes from its surroundings: \<open>strerror(errno)\<close> for \<open>%r\<close>, and the value the
  variable \<open>neg\<close> of the number case happens to have: it is declared without initialiser, and the
  code sets it only when the number is negative.
\<close>

record penv =
  errstr :: string
  neg_init :: bool

record fflags =
  FlagLong :: bool
  FlagLongLong :: bool
  FlagUnsigned :: bool

definition digits :: string where
  "digits = ''0123456789abcdef''"

text \<open>
  The loop \<open>while (luv) { *--p = digits[luv % base]; luv /= base; }\<close>; the base is 8, 10 or 16,
  the guard only makes the recursion total.
\<close>

fun digs :: "nat \<Rightarrow> nat \<Rightarrow> string \<Rightarrow> string" where
  "digs base luv acc =
     (if luv = 0 \<or> base < 2 then acc
      else digs base (luv div base) (digits ! (luv mod base) # acc))"

declare digs.simps [simp del]

definition fmtnum :: "bool \<Rightarrow> nat \<Rightarrow> bool \<Rightarrow> uvlong \<Rightarrow> string" where
  "fmtnum neg0 base uns luv0 =
     (let isneg = (\<not> uns \<and> sint luv0 < 0);
          neg = (isneg \<or> neg0);
          luv = (if isneg then - luv0 else luv0);
          p = digs base (unat luv) [];
          p = (if base = 16 then CHR ''0'' # CHR ''x'' # p else p);
          p = (if base = 8 \<or> luv = 0 then CHR ''0'' # p else p)
      in if neg then CHR ''-'' # p else p)"

text \<open>
  \<open>va_arg\<close> with the type the flags choose, converted to \<open>uvlong\<close>: signed types are sign
  extended.
\<close>

definition va_num :: "fflags \<Rightarrow> vararg list \<Rightarrow> (uvlong \<times> vararg list) option" where
  "va_num fl args =
     (case args of
        V64 w # as \<Rightarrow> if FlagLongLong fl then Some (w, as) else None
      | V32 w # as \<Rightarrow>
          if FlagLongLong fl then None
          else Some (if FlagUnsigned fl then ucast w else scast w, as)
      | _ \<Rightarrow> None)"

section \<open>The formatter\<close>

text \<open>
  The verbs. The result is the rest of the format, the arguments left and the buffer. An unknown
  verb sets the format pointer into the string \<open>X*verb*\<close>, so the rest of the format is dropped.
\<close>

definition verb :: "penv \<Rightarrow> nat \<Rightarrow> char \<Rightarrow> string \<Rightarrow> fflags \<Rightarrow> cint \<Rightarrow> vararg list \<Rightarrow> string
    \<Rightarrow> stop + (string \<times> vararg list \<times> string)" where
  "verb e cap c p fl width args out =
     (let num = (\<lambda>base.
            case va_num fl args of
              None \<Rightarrow> Inl BadMem
            | Some (luv, args') \<Rightarrow>
                Inr (p, args', printstr cap out
                  (fmtnum (neg_init e) base (FlagUnsigned fl) luv) width))
      in if c = CHR ''d'' then num 10
      else if c = CHR ''o'' then num 8
      else if c = CHR ''p'' \<or> c = CHR ''x'' then num 16
      else if c = CHR ''c'' then
        (case args of
           V32 w # args' \<Rightarrow>
             let ch = (ucast w :: 8 word) in
             Inr (p, args', printstr cap out (if ch = 0 then [] else [char_of (unat ch)]) width)
         | _ \<Rightarrow> Inl BadMem)
      else if c = CHR ''s'' then
        (case args of
           VStr str # args' \<Rightarrow> Inr (p, args', printstr cap out str width)
         | _ \<Rightarrow> Inl BadMem)
      else if c = CHR ''r'' then Inr (p, args, printstr cap out (errstr e) width)
      else Inr (''*verb*'', args, out))"

text \<open>
  One directive, after its \<open>%\<close>: flags and width, then the verb. A format that ends inside a
  directive makes the outer loop step over the NUL and read past the format: \<open>BadMem\<close>.
\<close>

fun directive :: "penv \<Rightarrow> nat \<Rightarrow> string \<Rightarrow> fflags \<Rightarrow> cint \<Rightarrow> bool \<Rightarrow> vararg list \<Rightarrow> string
    \<Rightarrow> stop + (string \<times> vararg list \<times> string)" where
  "directive e cap [] fl width left args out = Inl BadMem"
| "directive e cap (c # p) fl width left args out =
     (if c = CHR ''-'' then directive e cap p fl width True args out
      else if c \<in> set ''0123456789'' then
        directive e cap p fl (width * 10 + of_char c - of_char CHR ''0'') left args out
      else if c = CHR ''l'' then
        directive e cap p
          (if FlagLong fl then fl\<lparr>FlagLongLong := True\<rparr> else fl\<lparr>FlagLong := True\<rparr>)
          width left args out
      else if c = CHR ''u'' then
        directive e cap p (fl\<lparr>FlagUnsigned := True\<rparr>) width left args out
      else verb e cap c p fl (if left then - width else width) args out)"

definition no_flags :: fflags where
  "no_flags = \<lparr>FlagLong = False, FlagLongLong = False, FlagUnsigned = False\<rparr>"

text \<open>A directive leaves the rest of the format it was given, or the text of an unknown verb.\<close>

lemma verb_rest:
  "verb e cap c p fl width args out = Inr (p', args', out') \<Longrightarrow> p' = p \<or> p' = ''*verb*''"
  by (auto simp: verb_def Let_def split: if_splits option.splits list.splits vararg.splits)

lemma directive_count:
  "directive e cap p fl width left args out = Inr (p', args', out') \<Longrightarrow>
   count_list p' CHR ''%'' \<le> count_list p CHR ''%''"
proof (induction p arbitrary: fl width left)
  case Nil
  then show ?case by simp
next
  case (Cons c p)
  have "count_list p CHR ''%'' \<le> count_list (c # p) CHR ''%''" by simp
  then show ?case
    using Cons.prems
    by (auto simp del: count_list.simps split: if_splits
        dest!: Cons.IH verb_rest intro: order_trans)
qed

text \<open>
  The outer loop of \<open>vseprint\<close>: it goes on while the format is not at its NUL and \<open>w < edst - 1\<close>.
\<close>

function vse_loop :: "penv \<Rightarrow> nat \<Rightarrow> string \<Rightarrow> vararg list \<Rightarrow> string \<Rightarrow> stop + string" where
  "vse_loop e cap [] args out = Inr out"
| "vse_loop e cap (c # p) args out =
     (if \<not> length out < cap - 1 then Inr out
      else if c \<noteq> CHR ''%'' then vse_loop e cap p args (out @ [c])
      else
        case directive e cap p no_flags 0 False args out of
          Inl x \<Rightarrow> Inl x
        | Inr (p', args', out') \<Rightarrow> vse_loop e cap p' args' out')"
  by pat_completeness auto
termination
  by (relation "measures [\<lambda>(e, cap, p, args, out). count_list p CHR ''%'',
        \<lambda>(e, cap, p, args, out). length p]")
    (auto dest: directive_count)

definition vseprint :: "penv \<Rightarrow> nat \<Rightarrow> string \<Rightarrow> vararg list \<Rightarrow> stop + string" where
  "vseprint e cap fmt args =
     (case vse_loop e cap fmt args [] of
        Inl x \<Rightarrow> Inl x
      | Inr w \<Rightarrow> if length w < cap then Inr w else Inl AssertFail)"

definition vsnprint :: "penv \<Rightarrow> uint \<Rightarrow> string \<Rightarrow> vararg list \<Rightarrow> stop + string" where
  "vsnprint e n fmt args = vseprint e (unat n) fmt args"

text \<open>
  The entry points. The variadic ones pass their arguments on; \<open>vfprint\<close> formats into a buffer of
  256 bytes and passes what stands before its NUL to \<open>write\<close>: the result is the descriptor and
  the bytes given to that call.
\<close>

definition snprint :: "penv \<Rightarrow> uint \<Rightarrow> string \<Rightarrow> vararg list \<Rightarrow> stop + string" where
  "snprint e n fmt args = vsnprint e n fmt args"

definition seprint :: "penv \<Rightarrow> nat \<Rightarrow> string \<Rightarrow> vararg list \<Rightarrow> stop + string" where
  "seprint e cap fmt args = vseprint e cap fmt args"

definition vfprint :: "penv \<Rightarrow> cint \<Rightarrow> string \<Rightarrow> vararg list \<Rightarrow> stop + (cint \<times> string)" where
  "vfprint e fd fmt args =
     (case vseprint e 256 fmt args of Inl x \<Rightarrow> Inl x | Inr buf \<Rightarrow> Inr (fd, buf))"

definition vprint :: "penv \<Rightarrow> string \<Rightarrow> vararg list \<Rightarrow> stop + (cint \<times> string)" where
  "vprint e fmt args = vfprint e 1 fmt args"

definition fprint :: "penv \<Rightarrow> cint \<Rightarrow> string \<Rightarrow> vararg list \<Rightarrow> stop + (cint \<times> string)" where
  "fprint e fd fmt args = vfprint e fd fmt args"

definition print :: "penv \<Rightarrow> string \<Rightarrow> vararg list \<Rightarrow> stop + (cint \<times> string)" where
  "print e fmt args = vprint e fmt args"

text \<open>\<open>strecpy\<close> writes the NUL itself, where \<open>printstr\<close> stopped.\<close>

definition strecpy :: "nat \<Rightarrow> string \<Rightarrow> stop + string" where
  "strecpy cap src =
     (let w = printstr cap [] src 0 in if length w < cap then Inr w else Inl BadMem)"

section \<open>Bounds\<close>

lemma printstr_prefix: "\<exists>x. printstr cap out s width = out @ x"
  by (simp add: printstr_def Let_def)

lemma printstr_bound: "length out < cap \<Longrightarrow> length (printstr cap out s width) < cap"
  by (auto simp: printstr_def Let_def not_le nat_less_iff)

lemma verb_bound:
  "verb e cap c p fl width args out = Inr (p', args', out') \<Longrightarrow> length out < cap \<Longrightarrow> length out' < cap"
  by (auto simp: verb_def Let_def printstr_bound
      split: if_splits option.splits list.splits vararg.splits)

lemma verb_stop: "verb e cap c p fl width args out = Inl x \<Longrightarrow> x = BadMem"
  by (auto simp: verb_def Let_def split: if_splits option.splits list.splits vararg.splits)

lemma directive_bound:
  "directive e cap p fl width left args out = Inr (p', args', out') \<Longrightarrow> length out < cap \<Longrightarrow>
   length out' < cap"
  by (induction p arbitrary: fl width left) (auto split: if_splits dest: verb_bound)

lemma directive_stop: "directive e cap p fl width left args out = Inl x \<Longrightarrow> x = BadMem"
  by (induction p arbitrary: fl width left) (auto split: if_splits dest: verb_stop)

lemma vse_loop_bound: "vse_loop e cap p args out = Inr w \<Longrightarrow> length out < cap \<Longrightarrow> length w < cap"
  by (induction e cap p args out rule: vse_loop.induct)
    (auto split: if_splits sum.splits dest: directive_bound)

lemma vse_loop_stop: "vse_loop e cap p args out = Inl x \<Longrightarrow> x = BadMem"
  by (induction e cap p args out rule: vse_loop.induct)
    (auto split: if_splits sum.splits dest: directive_stop)

lemma vseprint_bounds:
  assumes "0 < cap"
  shows "vseprint e cap fmt args = Inl BadMem \<or>
    (\<exists>w. vseprint e cap fmt args = Inr w \<and> length w < cap)"
  using assms by (auto simp: vseprint_def split: sum.splits dest: vse_loop_bound vse_loop_stop)

section \<open>Literal text\<close>

lemma vse_loop_text:
  "CHR ''%'' \<notin> set p \<Longrightarrow> length out \<le> cap - 1 \<Longrightarrow> vse_loop e cap p args out = Inr (take (cap - 1) (out @ p))"
proof (induction p arbitrary: out)
  case Nil
  then show ?case by simp
next
  case (Cons c p)
  then show ?case by (cases "length out < cap - 1") (auto simp: take_Cons')
qed

lemma vseprint_literal:
  "CHR ''%'' \<notin> set fmt \<Longrightarrow> 0 < cap \<Longrightarrow> vseprint e cap fmt args = Inr (take (cap - 1) fmt)"
  by (simp add: vseprint_def vse_loop_text)

section \<open>Numbers\<close>

definition digit_val :: "char \<Rightarrow> nat" where
  "digit_val c = (if of_char c < (58::nat) then of_char c - 48 else of_char c - 87)"

definition num_val :: "nat \<Rightarrow> string \<Rightarrow> nat" where
  "num_val base = foldl (\<lambda>a c. base * a + digit_val c) 0"

lemma digit_val_digits: "d < 16 \<Longrightarrow> digit_val (digits ! d) = d"
proof -
  have "\<forall>d \<in> set [0..<16]. digit_val (digits ! d) = d" by code_simp
  then show "d < 16 \<Longrightarrow> digit_val (digits ! d) = d" by simp
qed

lemma digs_fold:
  assumes "2 \<le> base" "base \<le> 16"
  shows "foldl (\<lambda>a c. base * a + digit_val c) 0 (digs base n acc) =
         foldl (\<lambda>a c. base * a + digit_val c) n acc"
  using assms
proof (induction base n acc rule: digs.induct)
  case (1 base luv acc)
  show ?case
  proof (cases "luv = 0")
    case True
    then show ?thesis by (subst digs.simps) simp
  next
    case False
    have "luv mod base < base" using 1 by simp
    with 1 have "digit_val (digits ! (luv mod base)) = luv mod base"
      by (intro digit_val_digits) linarith
    with False 1 show ?thesis by (subst digs.simps) simp
  qed
qed

lemma digs_val: "2 \<le> base \<Longrightarrow> base \<le> 16 \<Longrightarrow> num_val base (digs base n []) = n"
  by (simp add: num_val_def digs_fold)

lemma digs_length: "n < base ^ k \<Longrightarrow> 2 \<le> base \<Longrightarrow> length (digs base n acc) \<le> k + length acc"
proof (induction k arbitrary: n acc)
  case 0
  then show ?case by (subst digs.simps) simp
next
  case (Suc k)
  from Suc.prems have "n div base < base ^ k"
    by (simp add: div_less_iff_less_mult mult.commute)
  then have "length (digs base (n div base) (x # acc)) \<le> k + length (x # acc)" for x
    using Suc by blast
  then show ?case by (subst digs.simps) (auto simp: le_Suc_eq)
qed

lemma digs_chars: "base \<le> 16 \<Longrightarrow> set (digs base n acc) \<subseteq> set digits \<union> set acc"
proof (induction base n acc rule: digs.induct)
  case (1 base luv acc)
  show ?case
  proof (cases "luv = 0 \<or> base < 2")
    case True
    then show ?thesis by (subst digs.simps) simp
  next
    case False
    then have "luv mod base < base" by simp
    with 1 have "digits ! (luv mod base) \<in> set digits"
      by (intro nth_mem) (simp add: digits_def)
    with False 1 show ?thesis by (subst digs.simps) auto
  qed
qed

text \<open>Reading a number back: an optional sign, the prefix of the base, digits.\<close>

definition read_num :: "nat \<Rightarrow> string \<Rightarrow> int" where
  "read_num base str =
     (let p = (if hd str = CHR ''-'' then tl str else str);
          v = int (num_val base (if base = 16 then drop 2 p else p))
      in if hd str = CHR ''-'' then - v else v)"

lemma num_val_0: "num_val base (CHR ''0'' # p) = num_val base p"
  by (simp add: num_val_def digit_val_def)

lemma digs_Nil: "digs base 0 acc = acc"
  by (subst digs.simps) simp

lemma num_val_Nil: "num_val base [] = 0"
  by (simp add: num_val_def)

lemma hd_digs: "base \<le> 16 \<Longrightarrow> 2 \<le> base \<Longrightarrow> n \<noteq> 0 \<Longrightarrow> hd (digs base n []) \<noteq> CHR ''-''"
proof -
  assume b: "base \<le> 16" "2 \<le> base" "n \<noteq> 0"
  then have "digs base n [] \<noteq> []" using digs_val [of base n] by (auto simp: num_val_def)
  then have "hd (digs base n []) \<in> set digits"
    using digs_chars [OF b(1), of n "[]"] by (auto dest: hd_in_set)
  then show ?thesis by (auto simp: digits_def)
qed

lemma fmtnum_value:
  assumes "base \<in> {8, 10, 16}" and "base = 16 \<Longrightarrow> luv \<noteq> 0"
  shows "read_num base (fmtnum False base uns luv) = (if uns then uint luv else sint luv)"
proof -
  define isneg where "isneg = (\<not> uns \<and> sint luv < 0)"
  define m where "m = (if isneg then - luv else luv)"
  define p where "p = (if base = 8 \<or> luv = 0 then (#) CHR ''0'' else id)
    ((if base = 16 then (@) ''0x'' else id) (digs base (unat m) []))"
  have F: "fmtnum False base uns luv = (if isneg then CHR ''-'' # p else p)"
    unfolding fmtnum_def Let_def p_def m_def isneg_def by simp
  have m0: "unat m = 0 \<longleftrightarrow> luv = 0" by (auto simp: m_def unat_eq_zero)
  have "num_val base (if base = 16 then drop 2 p else p) = unat m" and "hd p \<noteq> CHR ''-''"
    using assms m0 by (auto simp: p_def num_val_0 digs_val hd_digs)
  then have "read_num base (fmtnum False base uns luv) = (if isneg then - uint m else uint m)"
    by (auto simp: F read_num_def Let_def)
  then show ?thesis
    using uint_neg_sint [of luv] sint_nonneg [of luv] by (auto simp: m_def isneg_def)
qed

text \<open>The buffer \<open>buf[30]\<close> of the number case, which also holds the NUL, is large enough.\<close>

lemma fmtnum_length:
  assumes "base \<in> {8, 10, 16}"
  shows "length (fmtnum neg0 base uns luv) < 29"
proof -
  have "unat m < base ^ 22" for m :: uvlong
  proof -
    have "unat m < 2 ^ 64" using unsigned_less [of m] by simp
    also have "(2::nat) ^ 64 \<le> 8 ^ 22" by simp
    also have "(8::nat) ^ 22 \<le> base ^ 22" using assms by (intro power_mono) auto
    finally show ?thesis .
  qed
  then have digits: "length (digs base (unat m) []) \<le> 22" for m :: uvlong
    using digs_length [of "unat m" base 22 "[]"] assms by force
  define m where "m = (if \<not> uns \<and> sint luv < 0 then - luv else luv)"
  have "length (fmtnum neg0 base uns luv) \<le> length (digs base (unat m) []) + 4"
    unfolding fmtnum_def Let_def m_def by simp
  with digits [of m] show ?thesis by linarith
qed

section \<open>Fields\<close>

lemma printstr_pads:
  assumes "length out < cap" and "sint width \<noteq> - (2 ^ 31)"
    and "n = min (max (length str) (nat \<bar>sint width\<bar>)) (cap - length out - 1)"
    and "l = min (length str) n"
  shows "printstr cap out str width =
    out @ (if sint width < 0 then take l str @ replicate (n - l) CHR '' ''
           else replicate (n - l) CHR '' '' @ take l str)"
proof -
  define room l0 n0 n1 where "room = int (cap - length out)" and "l0 = int (length str)"
    and "n0 = (if l0 < \<bar>sint width\<bar> then \<bar>sint width\<bar> else l0)"
    and "n1 = (if room \<le> n0 then room - 1 else n0)"
  note cvars = this
  have sz: "sint (if sint width < 0 then - width else width) = \<bar>sint width\<bar>"
    using assms(2) sint_neg32 by auto
  have n: "n1 = int n" using assms(1,3) by (auto simp: cvars)
  have l: "(if n1 < l0 then n1 else l0) = int l" using n assms(4) by (auto simp: l0_def)
  show ?thesis
    unfolding printstr_def Let_def sz
    unfolding l0_def [symmetric] room_def [symmetric]
    unfolding n0_def [symmetric]
    unfolding n1_def [symmetric]
    unfolding n
    unfolding l [unfolded n]
    using assms(1) by simp
qed

lemma strecpy_copies: "0 < cap \<Longrightarrow> strecpy cap src = Inr (take (cap - 1) src)"
  using printstr_pads [of "[]" cap 0 _ src] 
  by (auto simp: strecpy_def min_def)

section \<open>Properties\<close>





text \<open>
  The number case never overruns its buffer of 30 bytes: with sign, prefix and the digits of a
  64 bit number the text has less than 29 characters, which leaves room for the NUL at its end.
\<close>

lemma fmtnum_fits:
  assumes "base \<in> {8, 10, 16}"
  shows "length (fmtnum neg0 base uns luv) < 29"
  using assms by (rule fmtnum_length)

lemma fmtnum_fits_example: "length (fmtnum True 8 True (- 1)) < 29"
  by (rule fmtnum_fits) simp

text \<open>
  A field. The text is cut to the room that is left, and padded with blanks to the width: on
  the left for a positive width, on the right for a negative one.
\<close>

lemma printstr_field:
  assumes "length out < cap" and "sint width \<noteq> - (2 ^ 31)"
    and "n = min (max (length str) (nat \<bar>sint width\<bar>)) (cap - length out - 1)"
    and "l = min (length str) n"
  shows "printstr cap out str width =
    out @ (if sint width < 0 then take l str @ replicate (n - l) CHR '' ''
           else replicate (n - l) CHR '' '' @ take l str)"
  using assms by (rule printstr_pads)

lemma printstr_field_example: "printstr 10 ''x='' ''12'' 4 = ''x=  12''"
  using printstr_field [of "''x=''" 10 4 4 "''12''" 2] by (simp add: numeral_eq_Suc)




end
