(* ===== verification/Tasklists.thy ===== *)
theory Tasklists
  imports Print
begin

text \<open>
  The data of task.h and taskimpl.h, and the intrusive doubly linked lists of tasks (\<open>Tasklist\<close>,
  \<open>addtask\<close>, \<open>deltask\<close> of task.c), which carry the run queue, the waiting lists of the locks and
  of the rendezvous points, and the list of sleeping tasks. All lists share the fields \<open>next\<close> and
  \<open>prev\<close> of \<open>Task\<close>, so a task can be in one list at most: \<open>queues_ok\<close> says so, and relates the
  pointer structure to the abstract queues.
\<close>

section \<open>Data\<close>

text \<open>
  Pointers to \<open>Task\<close> are numbers handed out by the allocator, nil is \<^term>\<open>None\<close>. The fields
  \<open>allnext\<close> and \<open>allprev\<close> of \<open>Task\<close> are used nowhere and are left out; the saved registers
  (\<open>context\<close>) are the resumptions of the scheduler's model. \<open>alltaskslot\<close> is an array index.
\<close>

type_synonym tptr = nat

record task =
  tname :: string
  tstate :: string
  tnext :: "tptr option"
  tprev :: "tptr option"
  alarmtime :: uvlong
  tid :: uint
  stk :: uint
  stksize :: uint
  exiting :: bool
  alltaskslot :: nat
  tsystem :: bool
  tready :: bool
  startfn :: nat
  startarg :: uint
  udata :: uint

text \<open>
  Where the \<open>Tasklist\<close> objects of the program are: a pointer to one is the run queue of task.c,
  the sleeping list of fd.c, or the list field of a lock or rendezvous point, whose address is a
  number.
\<close>

datatype lptr =
    RunQueue
  | Sleeping
  | QWaiting nat
  | RWaiting nat
  | WWaiting nat
  | ZWaiting nat

record tasklist =
  head :: "tptr option"
  tail :: "tptr option"

text \<open>
  The state of task.c. \<open>tasks\<close> holds the live \<open>Task\<close> objects, \<open>brk\<close> is the next pointer the
  allocator hands out, \<open>alloc_ok i\<close> says whether the \<open>i\<close>-th allocation of the run succeeds,
  \<open>task_at p\<close> is the machine address of a task, and \<open>frame_at p\<close> that of a local variable of the
  library function the task \<open>p\<close> calls (how deep its stack is). \<open>alltask\<close> is the whole allocated
  array; \<^term>\<open>None\<close> is a slot that was never written. \<open>prt\<close> is what the formatter takes from its
  surroundings.
\<close>

record sched =
  tasks :: "tptr \<Rightarrow> task option"
  lists :: "lptr \<Rightarrow> tasklist"
  brk :: tptr
  alloc_ok :: "nat \<Rightarrow> bool"
  allocs :: nat
  task_at :: "tptr \<Rightarrow> uint"
  frame_at :: "tptr \<Rightarrow> uint"
  taskidgen :: uint
  taskcount :: int
  tasknswitch :: cint
  taskexitval :: cint
  taskrunning :: "tptr option"
  alltask :: "tptr option list"
  nalltask :: nat
  prt :: penv

section \<open>Access to task objects and lists\<close>

definition load_task :: "tptr \<Rightarrow> ('z sched_scheme, task) prog" where
  "load_task p s = (case tasks s p of None \<Rightarrow> Halt BadMem s | Some t \<Rightarrow> Ret t s)"

definition mod_task :: "tptr \<Rightarrow> (task \<Rightarrow> task) \<Rightarrow> ('z sched_scheme, unit) prog" where
  "mod_task p f s =
     (case tasks s p of
        None \<Rightarrow> Halt BadMem s
      | Some t \<Rightarrow> Ret () (s\<lparr>tasks := (tasks s)(p \<mapsto> f t)\<rparr>))"

definition mod_list :: "lptr \<Rightarrow> (tasklist \<Rightarrow> tasklist) \<Rightarrow> ('z sched_scheme, unit) prog" where
  "mod_list q f s = Ret () (s\<lparr>lists := (lists s)(q := f (lists s q))\<rparr>)"

text \<open>Dereferencing a pointer that may be nil.\<close>

definition deref :: "'a option \<Rightarrow> ('s, 'a) prog" where
  "deref p = (case p of None \<Rightarrow> halt BadMem | Some x \<Rightarrow> ret x)"

lemma runs_deref [simp]: "runs (deref p) s P \<longleftrightarrow> (\<exists>x. p = Some x \<and> P x s)"
  by (cases p) (auto simp: deref_def)

lemma runs_load_task [simp]: "runs (load_task p) s P \<longleftrightarrow> (\<exists>t. tasks s p = Some t \<and> P t s)"
  by (auto simp: runs_def load_task_def split: option.splits)

lemma runs_mod_task [simp]:
  "runs (mod_task p f) s P \<longleftrightarrow>
     (\<exists>t. tasks s p = Some t \<and> P () (s\<lparr>tasks := (tasks s)(p \<mapsto> f t)\<rparr>))"
  by (auto simp: runs_def mod_task_def split: option.splits)

lemma runs_mod_list [simp]:
  "runs (mod_list q f) s P \<longleftrightarrow> P () (s\<lparr>lists := (lists s)(q := f (lists s q))\<rparr>)"
  by (auto simp: runs_def mod_list_def)

section \<open>Appending and removing\<close>

definition addtask :: "lptr \<Rightarrow> tptr \<Rightarrow> ('z sched_scheme, unit) prog" where
  "addtask l t =
     bnd (get (\<lambda>s. tail (lists s l))) (\<lambda>tl.
     bnd (case tl of
            Some u \<Rightarrow>
              bnd (mod_task u (\<lambda>x. x\<lparr>tnext := Some t\<rparr>)) (\<lambda>_.
              mod_task t (\<lambda>x. x\<lparr>tprev := tl\<rparr>))
          | None \<Rightarrow>
              bnd (mod_list l (\<lambda>x. x\<lparr>head := Some t\<rparr>)) (\<lambda>_.
              mod_task t (\<lambda>x. x\<lparr>tprev := None\<rparr>))) (\<lambda>_.
     bnd (mod_list l (\<lambda>x. x\<lparr>tail := Some t\<rparr>)) (\<lambda>_.
     mod_task t (\<lambda>x. x\<lparr>tnext := None\<rparr>))))"

definition deltask :: "lptr \<Rightarrow> tptr \<Rightarrow> ('z sched_scheme, unit) prog" where
  "deltask l t =
     bnd (load_task t) (\<lambda>x.
     bnd (case tprev x of
            Some p \<Rightarrow> mod_task p (\<lambda>y. y\<lparr>tnext := tnext x\<rparr>)
          | None \<Rightarrow> mod_list l (\<lambda>y. y\<lparr>head := tnext x\<rparr>)) (\<lambda>_.
     bnd (load_task t) (\<lambda>x.
     case tnext x of
       Some n \<Rightarrow> mod_task n (\<lambda>y. y\<lparr>tprev := tprev x\<rparr>)
     | None \<Rightarrow> mod_list l (\<lambda>y. y\<lparr>tail := tprev x\<rparr>))))"


section \<open>What the pointers represent\<close>

text \<open>
  \<open>dseg h p xs n\<close>: the tasks \<open>xs\<close> are linked in this order, the first one's \<open>prev\<close> is \<open>p\<close> and
  the last one's \<open>next\<close> is \<open>n\<close>.
\<close>

fun dseg :: "(tptr \<Rightarrow> task option) \<Rightarrow> tptr option \<Rightarrow> tptr list \<Rightarrow> tptr option \<Rightarrow> bool" where
  "dseg h p [] n = True"
| "dseg h p (x # xs) n =
     ((\<exists>t. h x = Some t \<and> tprev t = p \<and> tnext t = (if xs = [] then n else hd_opt xs)) \<and>
      dseg h (Some x) xs n)"

definition tlist :: "(tptr \<Rightarrow> task option) \<Rightarrow> tasklist \<Rightarrow> tptr list \<Rightarrow> bool" where
  "tlist h l xs \<longleftrightarrow>
     head l = hd_opt xs \<and> tail l = last_opt xs \<and> distinct xs \<and> dseg h None xs None"

text \<open>
  The abstract state of all lists: every \<open>Tasklist\<close> represents its queue, and no task is in two
  queues.
\<close>

type_synonym queues = "lptr \<Rightarrow> tptr list"

definition queues_ok :: "'z sched_scheme \<Rightarrow> queues \<Rightarrow> bool" where
  "queues_ok s L \<longleftrightarrow>
     (\<forall>q. tlist (tasks s) (lists s q) (L q)) \<and>
     (\<forall>q q' t. t \<in> set (L q) \<and> t \<in> set (L q') \<longrightarrow> q = q')"

definition queued :: "queues \<Rightarrow> tptr \<Rightarrow> bool" where
  "queued L t \<longleftrightarrow> (\<exists>q. t \<in> set (L q))"

text \<open>
  What the list operations leave alone: they write the links and the list heads, and nothing
  else of the state.
\<close>

definition unlink :: "task \<Rightarrow> task" where
  "unlink t = t\<lparr>tnext := None, tprev := None\<rparr>"

definition relinked :: "'z sched_scheme \<Rightarrow> 'z sched_scheme \<Rightarrow> bool" where
  "relinked s s' \<longleftrightarrow>
     s' = s\<lparr>tasks := tasks s', lists := lists s'\<rparr> \<and>
     (\<forall>p. map_option unlink (tasks s' p) = map_option unlink (tasks s p))"

lemma relinked_refl [simp]: "relinked s s"
  by (simp add: relinked_def)

lemma relinked_trans: "relinked s s' \<Longrightarrow> relinked s' s'' \<Longrightarrow> relinked s s''"
  by (cases s, cases s', cases s'') (simp add: relinked_def)

lemma relinkedE:
  assumes "relinked s s'"
  obtains h ls where "s' = s\<lparr>tasks := h, lists := ls\<rparr>"
    and "\<And>p. map_option unlink (h p) = map_option unlink (tasks s p)"
  using assms unfolding relinked_def by metis

lemma unlink_eqD:
  assumes "unlink t = unlink u"
  shows "tname t = tname u" "tstate t = tstate u" "alarmtime t = alarmtime u" "tid t = tid u"
    "stk t = stk u" "stksize t = stksize u" "exiting t = exiting u"
    "alltaskslot t = alltaskslot u" "tsystem t = tsystem u" "tready t = tready u"
    "startfn t = startfn u" "startarg t = startarg u" "udata t = udata u"
  using assms by (cases t; cases u; simp add: unlink_def)+

lemma relinked_dom: "relinked s s' \<Longrightarrow> dom (tasks s') = dom (tasks s)"
  by (auto simp: relinked_def dom_def) (metis map_option_is_None option.exhaust)+

lemma relinked_task:
  assumes "relinked s s'" and "tasks s p = Some t"
  obtains t' where "tasks s' p = Some t'" and "unlink t' = unlink t"
proof -
  from assms have "map_option unlink (tasks s' p) = Some (unlink t)"
    by (simp add: relinked_def)
  then show ?thesis by (auto intro: that)
qed

subsection \<open>Segments\<close>

lemma dseg_append:
  "dseg h p (xs @ ys) n \<longleftrightarrow>
     dseg h p xs (if ys = [] then n else hd_opt ys) \<and>
     dseg h (if xs = [] then p else last_opt xs) ys n"
  by (induction xs arbitrary: p) (auto simp: last_opt_def split: if_splits)

text \<open>A segment looks at the links of its own tasks only.\<close>

lemma dseg_cong:
  assumes "dseg h p xs n"
    and "\<And>x t. x \<in> set xs \<Longrightarrow> h x = Some t \<Longrightarrow>
           \<exists>u. h' x = Some u \<and> tnext u = tnext t \<and> tprev u = tprev t"
  shows "dseg h' p xs n"
  using assms
proof (induction xs arbitrary: p)
  case Nil
  then show ?case by simp
next
  case (Cons x xs)
  then show ?case by (fastforce split: if_splits)
qed

lemma dseg_live: "dseg h p xs n \<Longrightarrow> x \<in> set xs \<Longrightarrow> x \<in> dom h"
  by (induction xs arbitrary: p) auto

lemma dseg_upd [simp]: "x \<notin> set xs \<Longrightarrow> dseg (h(x := v)) p xs n \<longleftrightarrow> dseg h p xs n"
  by (induction xs arbitrary: p) auto

lemma tlist_cong:
  assumes "tlist h l xs"
    and "\<And>x t. x \<in> set xs \<Longrightarrow> h x = Some t \<Longrightarrow>
           \<exists>u. h' x = Some u \<and> tnext u = tnext t \<and> tprev u = tprev t"
  shows "tlist h' l xs"
  using assms by (auto simp: tlist_def intro: dseg_cong)

lemma tlist_upd: "x \<notin> set xs \<Longrightarrow> tlist (h(x := v)) l xs \<longleftrightarrow> tlist h l xs"
  by (simp add: tlist_def)

text \<open>A list without pointers: the empty one is the zeroed object of the README.\<close>

lemma tlist_Nil: "tlist h l [] \<longleftrightarrow> head l = None \<and> tail l = None"
  by (simp add: tlist_def)

lemma tlist_unique: "tlist h l xs \<Longrightarrow> tlist h l ys \<Longrightarrow> xs = ys"
proof -
  have seg: "dseg h p xs None \<Longrightarrow> dseg h p ys None \<Longrightarrow> hd_opt xs = hd_opt ys \<Longrightarrow> xs = ys" for p
  proof (induction xs arbitrary: ys p)
    case Nil
    then show ?case by (metis hd_opt_None hd_opt_simps(1))
  next
    case (Cons x xs)
    from Cons.prems(3) obtain ys' where ys: "ys = x # ys'" by (cases ys) auto
    with Cons.prems(1,2) have "hd_opt xs = hd_opt ys'" by (auto split: if_splits)
    with Cons ys show ?case by auto
  qed
  show "tlist h l xs \<Longrightarrow> tlist h l ys \<Longrightarrow> xs = ys"
    using seg by (auto simp: tlist_def)
qed

subsection \<open>The operations on the abstract queues\<close>

lemma queues_tlist: "queues_ok s L \<Longrightarrow> tlist (tasks s) (lists s q) (L q)"
  by (simp add: queues_ok_def)

lemma queues_once: "queues_ok s L \<Longrightarrow> x \<in> set (L q) \<Longrightarrow> x \<in> set (L q') \<Longrightarrow> q = q'"
  unfolding queues_ok_def by blast

lemma tlist_snoc:
  assumes "tlist h l (ys @ [u])" and "t \<notin> set (ys @ [u])" and "h u = Some a" and "h t = Some x"
  shows "tlist (h(u \<mapsto> a\<lparr>tnext := Some t\<rparr>, t \<mapsto> x\<lparr>tprev := Some u, tnext := None\<rparr>))
           (l\<lparr>tail := Some t\<rparr>) (ys @ [u, t])"
  using assms by (auto simp: tlist_def dseg_append)

text \<open>One list changes; the others keep their tasks apart from it.\<close>

lemma queues_okI:
  assumes ok: "queues_ok s L"
    and q: "tlist (tasks s') (lists s' q) xs"
    and others: "\<And>q'. q' \<noteq> q \<Longrightarrow> lists s' q' = lists s q'"
    and same: "\<And>x. x \<notin> set xs \<Longrightarrow> x \<notin> set (L q) \<Longrightarrow> tasks s' x = tasks s x"
    and new: "\<And>x q'. x \<in> set xs \<Longrightarrow> x \<in> set (L q') \<Longrightarrow> q' = q"
  shows "queues_ok s' (L(q := xs))"
proof -
  have keep: "tlist (tasks s') (lists s' q') (L q')" if "q' \<noteq> q" for q'
  proof -
    have "tlist (tasks s) (lists s' q') (L q')"
      using queues_tlist [OF ok] others [OF that] by simp
    then show ?thesis
    proof (rule tlist_cong)
      fix x t
      assume x: "x \<in> set (L q')" and t: "tasks s x = Some t"
      from x have "x \<notin> set xs" "x \<notin> set (L q)"
        using new that queues_once [OF ok] by blast+
      then show "\<exists>u. tasks s' x = Some u \<and> tnext u = tnext t \<and> tprev u = tprev t"
        using same t by simp
    qed
  qed
  have once: "q1 = q2" if "x \<in> set ((L(q := xs)) q1)" "x \<in> set ((L(q := xs)) q2)" for x q1 q2
    using that new queues_once [OF ok] by (auto split: if_splits)
  have "tlist (tasks s') (lists s' q') ((L(q := xs)) q')" for q'
    using keep q by (cases "q' = q") simp_all
  with once show ?thesis unfolding queues_ok_def by blast
qed

lemma addtask_spec:
  assumes ok: "queues_ok s L" and live: "t \<in> dom (tasks s)" and free: "\<not> queued L t"
  shows "runs (addtask q t) s (\<lambda>_ s'. queues_ok s' (L(q := L q @ [t])) \<and> relinked s s')"
proof (cases "L q" rule: rev_cases)
  case Nil
  with queues_tlist [OF ok, of q] have l: "head (lists s q) = None" "tail (lists s q) = None"
    by (auto simp: tlist_def)
  obtain x where x: "tasks s t = Some x" using live by auto
  show ?thesis
    using Nil l x free
    by (auto simp: addtask_def runs_bnd tlist_def queued_def relinked_def unlink_def
        intro!: queues_okI [OF ok])
next
  case (snoc ys u)
  with queues_tlist [OF ok, of q] have tl: "tlist (tasks s) (lists s q) (ys @ [u])"
    by simp
  then have l: "tail (lists s q) = Some u" and "u \<in> dom (tasks s)"
    by (auto simp: tlist_def dseg_append)
  then obtain a x where a: "tasks s u = Some a" and x: "tasks s t = Some x" using live by auto
  have t: "t \<notin> set (ys @ [u])" using free snoc by (metis queued_def)
  have mem: "z \<in> set (L q') \<Longrightarrow> z \<in> set (ys @ [u, t]) \<Longrightarrow> q' = q" for z q'
    using free snoc queues_once [OF ok, of z q' q] by (auto simp: queued_def)
  show ?thesis
    using l x a t tlist_snoc [OF tl t a x] snoc mem
    by (auto simp: addtask_def runs_bnd relinked_def unlink_def intro!: queues_okI [OF ok])
qed

lemma deltask_tlist:
  assumes tl: "tlist (tasks s) (lists s q) (ys @ t # zs)"
  shows "runs (deltask q t) s (\<lambda>_ s'.
    tlist (tasks s') (lists s' q) (ys @ zs) \<and> relinked s s' \<and>
    (\<forall>q'. q' \<noteq> q \<longrightarrow> lists s' q' = lists s q') \<and>
    (\<forall>x. x \<notin> set (ys @ zs) \<longrightarrow> tasks s' x = tasks s x))"
  using tl
  by (cases ys rule: rev_cases; cases zs)
    (auto simp: deltask_def runs_bnd tlist_def dseg_append relinked_def unlink_def)

lemma deltask_spec:
  assumes ok: "queues_ok s L" and t: "t \<in> set (L q)"
  shows "runs (deltask q t) s (\<lambda>_ s'.
    queues_ok s' (L(q := remove1 t (L q))) \<and> relinked s s' \<and> tasks s' t = tasks s t)"
proof -
  obtain ys zs where q: "L q = ys @ t # zs" and ys: "t \<notin> set ys"
    using t by (meson split_list_first)
  have tl: "tlist (tasks s) (lists s q) (ys @ t # zs)"
    using queues_tlist [OF ok, of q] q by simp
  have rm: "remove1 t (L q) = ys @ zs" and zs: "t \<notin> set zs"
    using q ys tl by (auto simp: remove1_append tlist_def)
  have mem: "z \<in> set (L q') \<Longrightarrow> z \<in> set (ys @ zs) \<Longrightarrow> q' = q" for z q'
    using q queues_once [OF ok, of z q' q] by auto
  show ?thesis
    unfolding rm
  proof (rule runs_mono [OF deltask_tlist [OF tl]], elim conjE, intro conjI)
    fix s'
    assume "tlist (tasks s') (lists s' q) (ys @ zs)" "\<forall>q'. q' \<noteq> q \<longrightarrow> lists s' q' = lists s q'"
      "\<forall>x. x \<notin> set (ys @ zs) \<longrightarrow> tasks s' x = tasks s x"
    then show "queues_ok s' (L(q := ys @ zs))" "tasks s' t = tasks s t"
      using ys zs by (auto intro: queues_okI [OF ok _ _ _ mem])
  qed
qed

end
