(* ===== verification/Sched.thy ===== *)
theory Sched
  imports Tasklists
begin

text \<open>
  task.c: creating, naming, readying, yielding and exiting tasks, and the scheduler.
\<close>

section \<open>Memory\<close>

text \<open>The next call of \<open>malloc\<close> or \<open>realloc\<close>: whether it succeeds.\<close>

definition try_alloc :: "('z sched_scheme, bool) prog" where
  "try_alloc s = Ret (alloc_ok s (allocs s)) (s\<lparr>allocs := Suc (allocs s)\<rparr>)"

text \<open>\<open>sizeof(Task)\<close> of the i386 build.\<close>

definition sizeof_Task :: uint where
  "sizeof_Task = 1012"

definition running :: "('z sched_scheme, tptr) prog" where
  "running = bnd (get taskrunning) deref"

section \<open>Operations of the running task\<close>

definition needstack :: "cint \<Rightarrow> ('z sched_scheme, unit) prog" where
  "needstack n =
     bnd running (\<lambda>p.
     bnd (load_task p) (\<lambda>t.
     bnd (get (\<lambda>s. frame_at s p)) (\<lambda>at.
     if at \<le> stk t \<or> sint (at - stk t) < sint (256 + n) then halt Abort else ret ())))"

definition taskswitch :: "('z sched_scheme, unit) prog" where
  "taskswitch = bnd (needstack 0) (\<lambda>_. switch)"

definition taskready :: "tptr \<Rightarrow> ('z sched_scheme, unit) prog" where
  "taskready t =
     bnd (mod_task t (\<lambda>x. x\<lparr>tready := True\<rparr>)) (\<lambda>_.
     addtask RunQueue t)"

definition tasksystem :: "('z sched_scheme, unit) prog" where
  "tasksystem =
     bnd running (\<lambda>p.
     bnd (load_task p) (\<lambda>t.
     whenp (\<not> tsystem t)
       (bnd (mod_task p (\<lambda>x. x\<lparr>tsystem := True\<rparr>)) (\<lambda>_.
        upd (\<lambda>s. s\<lparr>taskcount := taskcount s - 1\<rparr>)))))"

text \<open>
  \<open>taskname\<close> and \<open>taskstate\<close> format into the buffers of 256 bytes of the running task.
\<close>

definition vsnprintp :: "uint \<Rightarrow> string \<Rightarrow> vararg list \<Rightarrow> ('z sched_scheme, string) prog" where
  "vsnprintp n fmt args =
     bnd (get (\<lambda>s. vsnprint (prt s) n fmt args)) (\<lambda>r.
     case r of Inl e \<Rightarrow> halt e | Inr str \<Rightarrow> ret str)"

definition taskname :: "string \<Rightarrow> vararg list \<Rightarrow> ('z sched_scheme, unit) prog" where
  "taskname fmt args =
     bnd running (\<lambda>p.
     bnd (vsnprintp 256 fmt args) (\<lambda>str.
     mod_task p (\<lambda>t. t\<lparr>tname := str\<rparr>)))"

definition taskstate :: "string \<Rightarrow> vararg list \<Rightarrow> ('z sched_scheme, unit) prog" where
  "taskstate fmt args =
     bnd running (\<lambda>p.
     bnd (vsnprintp 256 fmt args) (\<lambda>str.
     mod_task p (\<lambda>t. t\<lparr>tstate := str\<rparr>)))"

definition taskgetname :: "('z sched_scheme, string) prog" where
  "taskgetname = bnd running (\<lambda>p. bnd (load_task p) (\<lambda>t. ret (tname t)))"

definition taskgetstate :: "('z sched_scheme, string) prog" where
  "taskgetstate = bnd running (\<lambda>p. bnd (load_task p) (\<lambda>t. ret (tstate t)))"

definition taskid :: "('z sched_scheme, uint) prog" where
  "taskid = bnd running (\<lambda>p. bnd (load_task p) (\<lambda>t. ret (tid t)))"

text \<open>The pointer to the \<open>udata\<close> of the running task: the task whose field it is.\<close>

definition taskdata :: "('z sched_scheme, tptr) prog" where
  "taskdata = bnd running (\<lambda>p. bnd (load_task p) (\<lambda>_. ret p))"

definition taskyield :: "('z sched_scheme, cint) prog" where
  "taskyield =
     bnd (get tasknswitch) (\<lambda>n.
     bnd running (\<lambda>p.
     bnd (taskready p) (\<lambda>_.
     bnd (taskstate ''yield'' []) (\<lambda>_.
     bnd taskswitch (\<lambda>_.
     get (\<lambda>s. tasknswitch s - n - 1))))))"

definition anyready :: "('z sched_scheme, bool) prog" where
  "anyready = get (\<lambda>s. head (lists s RunQueue) \<noteq> None)"

definition taskexitall :: "cint \<Rightarrow> ('z sched_scheme, 'a) prog" where
  "taskexitall val = halt (Exit val)"

definition taskexit :: "cint \<Rightarrow> ('z sched_scheme, unit) prog" where
  "taskexit val =
     bnd (upd (\<lambda>s. s\<lparr>taskexitval := val\<rparr>)) (\<lambda>_.
     bnd running (\<lambda>p.
     bnd (mod_task p (\<lambda>t. t\<lparr>exiting := True\<rparr>)) (\<lambda>_.
     taskswitch)))"

section \<open>Creating tasks\<close>

definition taskalloc :: "nat \<Rightarrow> uint \<Rightarrow> uint \<Rightarrow> ('z sched_scheme, tptr) prog" where
  "taskalloc fn arg stack =
     bnd try_alloc (\<lambda>ok.
     if \<not> ok then halt Abort
     else
       bnd (get brk) (\<lambda>p.
       bnd (upd (\<lambda>s. s\<lparr>brk := Suc p, taskidgen := taskidgen s + 1,
         tasks := (tasks s)(p \<mapsto>
           \<lparr>tname = [], tstate = [], tnext = None, tprev = None, alarmtime = 0,
            tid = taskidgen s + 1, stk = task_at s p + sizeof_Task, stksize = stack,
            exiting = False, alltaskslot = 0, tsystem = False, tready = False,
            startfn = fn, startarg = arg, udata = 0\<rparr>)\<rparr>)) (\<lambda>_.
       ret p)))"

definition grow_alltask :: "nat \<Rightarrow> 'z sched_scheme \<Rightarrow> 'z sched_scheme" where
  "grow_alltask m s =
     s\<lparr>alltask := take m (alltask s) @ replicate (m - length (alltask s)) None\<rparr>"

definition set_alltask :: "nat \<Rightarrow> tptr option \<Rightarrow> ('z sched_scheme, unit) prog" where
  "set_alltask i p s =
     (if i < length (alltask s) then Ret () (s\<lparr>alltask := (alltask s)[i := p]\<rparr>)
      else Halt BadMem s)"

definition get_alltask :: "nat \<Rightarrow> ('z sched_scheme, tptr option) prog" where
  "get_alltask i s =
     (if i < length (alltask s) then Ret (alltask s ! i) s else Halt BadMem s)"

definition taskcreate :: "nat \<Rightarrow> uint \<Rightarrow> uint \<Rightarrow> ('z sched_scheme, cint) prog" where
  "taskcreate fn arg stack =
     bnd (taskalloc fn arg stack) (\<lambda>t.
     bnd (upd (\<lambda>s. s\<lparr>taskcount := taskcount s + 1\<rparr>)) (\<lambda>_.
     bnd (load_task t) (\<lambda>x.
     bnd (get nalltask) (\<lambda>n.
     bnd (whenp (n mod 64 = 0)
           (bnd try_alloc (\<lambda>ok.
            if ok then upd (grow_alltask (n + 64)) else halt Abort))) (\<lambda>_.
     bnd (mod_task t (\<lambda>x. x\<lparr>alltaskslot := n\<rparr>)) (\<lambda>_.
     bnd (set_alltask n (Some t)) (\<lambda>_.
     bnd (upd (\<lambda>s. s\<lparr>nalltask := n + 1\<rparr>)) (\<lambda>_.
     bnd (taskready t) (\<lambda>_.
     ret (tid x))))))))))"

section \<open>The scheduler\<close>

text \<open>
  The code of the program: what a function pointer and its argument run. The saved context of a
  task is the rest of its code, or nothing for a task that has not run yet, whose context
  \<open>makecontext\<close> made to enter \<open>taskstart\<close>.
\<close>

type_synonym 's code = "nat \<Rightarrow> uint \<Rightarrow> ('s, unit) prog"
type_synonym 's contexts = "tptr \<Rightarrow> ('s, unit) prog option"

definition taskstart :: "'z sched_scheme code \<Rightarrow> tptr \<Rightarrow> ('z sched_scheme, unit) prog" where
  "taskstart code t =
     bnd (load_task t) (\<lambda>x.
     bnd (code (startfn x) (startarg x)) (\<lambda>_.
     taskexit 0))"

text \<open>
  Switching to a task runs it until it gives up the CPU; its saved context is then the rest of
  its code. A task whose \<open>taskstart\<close> returned would return to address 0.
\<close>

definition contextswitch ::
    "'z sched_scheme code \<Rightarrow> 'z sched_scheme contexts \<Rightarrow> tptr
     \<Rightarrow> ('z sched_scheme, ('z sched_scheme, unit) prog) prog" where
  "contextswitch code K t s =
     (case (case K t of None \<Rightarrow> taskstart code t | Some k \<Rightarrow> k) s of
        Ret _ s' \<Rightarrow> Halt BadMem s'
      | Switch s' k \<Rightarrow> Ret k s'
      | Halt e s' \<Rightarrow> Halt e s')"

text \<open>The end of an exited task: the last entry of \<open>alltask\<close> moves into its slot.\<close>

definition reap :: "tptr \<Rightarrow> ('z sched_scheme, unit) prog" where
  "reap t =
     bnd (load_task t) (\<lambda>x.
     bnd (whenp (\<not> tsystem x) (upd (\<lambda>s. s\<lparr>taskcount := taskcount s - 1\<rparr>))) (\<lambda>_.
     let i = alltaskslot x in
     bnd (get nalltask) (\<lambda>n.
     if n = 0 then halt BadMem
     else
       bnd (upd (\<lambda>s. s\<lparr>nalltask := n - 1\<rparr>)) (\<lambda>_.
       bnd (get_alltask (n - 1)) (\<lambda>e.
       bnd (set_alltask i e) (\<lambda>_.
       bnd (deref e) (\<lambda>p.
       bnd (mod_task p (\<lambda>y. y\<lparr>alltaskslot := i\<rparr>)) (\<lambda>_.
       upd (\<lambda>s. s\<lparr>tasks := (tasks s)(t := None)\<rparr>)))))))))"

text \<open>One round of the loop of \<open>taskscheduler\<close>.\<close>

definition sched_round ::
    "'z sched_scheme code \<Rightarrow> 'z sched_scheme contexts
     \<Rightarrow> ('z sched_scheme, 'z sched_scheme contexts) prog" where
  "sched_round code K =
     bnd (get taskcount) (\<lambda>n.
     if n = 0 then bnd (get taskexitval) (\<lambda>v. halt (Exit v))
     else
       bnd (get (\<lambda>s. head (lists s RunQueue))) (\<lambda>h.
       case h of
         None \<Rightarrow> halt (Exit 1)
       | Some t \<Rightarrow>
           bnd (deltask RunQueue t) (\<lambda>_.
           bnd (mod_task t (\<lambda>x. x\<lparr>tready := False\<rparr>)) (\<lambda>_.
           bnd (upd (\<lambda>s. s\<lparr>taskrunning := Some t, tasknswitch := tasknswitch s + 1\<rparr>)) (\<lambda>_.
           bnd (contextswitch code K t) (\<lambda>k.
           bnd (upd (\<lambda>s. s\<lparr>taskrunning := None\<rparr>)) (\<lambda>_.
           bnd (load_task t) (\<lambda>x.
           if exiting x then bnd (reap t) (\<lambda>_. ret (K(t := None)))
           else ret (K(t \<mapsto> k))))))))))"

text \<open>The loop never ends of itself; this is its state after \<open>n\<close> rounds.\<close>

fun taskscheduler ::
    "'z sched_scheme code \<Rightarrow> nat \<Rightarrow> 'z sched_scheme contexts
     \<Rightarrow> ('z sched_scheme, 'z sched_scheme contexts) prog" where
  "taskscheduler code 0 K = ret K"
| "taskscheduler code (Suc n) K = bnd (sched_round code K) (taskscheduler code n)"

section \<open>Startup\<close>

text \<open>
  \<open>main\<close> creates the task of \<open>taskmain\<close> (the function pointer 0 of the model) and enters the
  scheduler.
\<close>

definition taskmainstart :: "('z sched_scheme, unit) prog \<Rightarrow> ('z sched_scheme, unit) prog" where
  "taskmainstart taskmain = bnd (taskname ''taskmain'' []) (\<lambda>_. taskmain)"

definition main ::
    "('z sched_scheme, unit) prog \<Rightarrow> 'z sched_scheme code \<Rightarrow> uint \<Rightarrow> nat
     \<Rightarrow> ('z sched_scheme, 'z sched_scheme contexts) prog" where
  "main taskmain code mainstacksize n =
     bnd (taskcreate 0 0 (if mainstacksize = 0 then 256 * 1024 else mainstacksize)) (\<lambda>_.
     taskscheduler (code(0 := \<lambda>_. taskmainstart taskmain)) n (\<lambda>_. None))"

section \<open>The task listing of the signal handler\<close>

definition taskinfo_fmt :: string where
  "taskinfo_fmt =
     ''%-6s'' @ CHR 0x09 # ''%-15s'' @ CHR 0x09 # ''%-25s'' @ CHR 0x09 # ''%-15s'' @ [CHR 0x0A]"

definition taskinfo_extra :: "'z sched_scheme \<Rightarrow> tptr \<Rightarrow> task \<Rightarrow> string" where
  "taskinfo_extra s p t =
     (if taskrunning s = Some p then ''(running)'' else if tready t then ''(ready)'' else ''-'')"

definition taskinfo_row :: "'z sched_scheme \<Rightarrow> nat \<Rightarrow> stop + string" where
  "taskinfo_row s i =
     (if \<not> i < length (alltask s) then Inl BadMem
      else case alltask s ! i of
        None \<Rightarrow> Inl BadMem
      | Some p \<Rightarrow>
          (case tasks s p of
             None \<Rightarrow> Inl BadMem
           | Some t \<Rightarrow>
               map_sum id snd (fprint (prt s) 2 taskinfo_fmt
                 [VStr (fmtnum False 10 False (scast (tid t)) @ (if tsystem t then ''s'' else '' '')),
                  VStr (tname t), VStr (tstate t), VStr (taskinfo_extra s p t)])))"

definition taskinfo_rows :: "'z sched_scheme \<Rightarrow> (stop + string) list" where
  "taskinfo_rows s = map (taskinfo_row s) [0..<nalltask s]"

section \<open>Facts shared by the proofs\<close>

lemma runs_try_alloc [simp]:
  "runs try_alloc s P \<longleftrightarrow> P (alloc_ok s (allocs s)) (s\<lparr>allocs := Suc (allocs s)\<rparr>)"
  by (simp add: runs_def try_alloc_def)

lemma runs_running [simp]: "runs running s P \<longleftrightarrow> (\<exists>p. taskrunning s = Some p \<and> P p s)"
  by (simp add: running_def runs_bnd)

lemma runs_set_alltask [simp]:
  "runs (set_alltask i p) s P \<longleftrightarrow>
     i < length (alltask s) \<and> P () (s\<lparr>alltask := (alltask s)[i := p]\<rparr>)"
  by (auto simp: runs_def set_alltask_def)

lemma runs_get_alltask [simp]:
  "runs (get_alltask i) s P \<longleftrightarrow> i < length (alltask s) \<and> P (alltask s ! i) s"
  by (auto simp: runs_def get_alltask_def)

definition has_room :: "'z sched_scheme \<Rightarrow> tptr \<Rightarrow> cint \<Rightarrow> bool" where
  "has_room s p n \<longleftrightarrow>
     (case tasks s p of
        None \<Rightarrow> False
      | Some t \<Rightarrow> stk t < frame_at s p \<and> sint (256 + n) \<le> sint (frame_at s p - stk t))"

lemma needstack_room:
  "taskrunning s = Some p \<Longrightarrow> has_room s p n \<Longrightarrow> needstack n s = Ret () s"
  by (auto simp: needstack_def has_room_def running_def bnd_def deref_def load_task_def sem_simps
      split: option.splits)

lemma taskswitch_room:
  "taskrunning s = Some p \<Longrightarrow> has_room s p 0 \<Longrightarrow> taskswitch s = Switch s (ret ())"
  by (simp add: taskswitch_def needstack_room switch_def)

text \<open>Writing fields other than the links does not disturb the queues.\<close>

lemma queues_ok_cong:
  assumes "queues_ok s L" and "lists s' = lists s"
    and "\<And>x t. tasks s x = Some t \<Longrightarrow>
           \<exists>u. tasks s' x = Some u \<and> tnext u = tnext t \<and> tprev u = tprev t"
  shows "queues_ok s' L"
  using assms unfolding queues_ok_def by (auto intro: tlist_cong)

lemma queues_ok_mod [simp]:
  assumes "tasks s p = Some t" and "tnext u = tnext t" and "tprev u = tprev t"
  shows "queues_ok (s\<lparr>tasks := (tasks s)(p \<mapsto> u)\<rparr>) L = queues_ok s L"
proof
  assume "queues_ok (s\<lparr>tasks := (tasks s)(p \<mapsto> u)\<rparr>) L"
  then show "queues_ok s L" by (rule queues_ok_cong) (use assms in \<open>auto split: if_splits\<close>)
next
  assume "queues_ok s L"
  then show "queues_ok (s\<lparr>tasks := (tasks s)(p \<mapsto> u)\<rparr>) L"
    by (rule queues_ok_cong) (use assms in auto)
qed

lemma queued_live: "queues_ok s L \<Longrightarrow> queued L t \<Longrightarrow> t \<in> dom (tasks s)"
  by (auto simp: queued_def queues_ok_def tlist_def dest!: spec dest: dseg_live)

lemma queues_ok_fresh:
  assumes "queues_ok s L" and "p \<notin> dom (tasks s)"
  shows "queues_ok (s\<lparr>tasks := (tasks s)(p := v)\<rparr>) L"
  using assms by (intro queues_ok_cong [OF assms(1)]) auto

text \<open>
  \<open>mark_ready t s\<close>: \<open>s\<close> with the \<open>ready\<close> flag of \<open>t\<close> set. Apart from links and list heads that
  is all \<open>taskready\<close> changes.
\<close>

definition mark_ready :: "tptr \<Rightarrow> 'z sched_scheme \<Rightarrow> 'z sched_scheme" where
  "mark_ready t s = s\<lparr>tasks := (tasks s)(t := map_option (\<lambda>x. x\<lparr>tready := True\<rparr>) (tasks s t))\<rparr>"

lemma taskready_spec:
  assumes "queues_ok s L" and "t \<in> dom (tasks s)" and "\<not> queued L t"
  shows "runs (taskready t) s (\<lambda>_ s'.
    queues_ok s' (L(RunQueue := L RunQueue @ [t])) \<and> relinked (mark_ready t s) s')"
proof -
  obtain x where x: "tasks s t = Some x" using assms(2) by auto
  have "queues_ok (mark_ready t s) L" "t \<in> dom (tasks (mark_ready t s))"
    using assms x by (simp_all add: mark_ready_def)
  from addtask_spec [OF this assms(3), of RunQueue] show ?thesis
    using x by (simp add: taskready_def runs_bnd mark_ready_def)
qed

section \<open>The table of all tasks\<close>

definition slot :: "'z sched_scheme \<Rightarrow> tptr \<Rightarrow> nat option" where
  "slot s p = map_option alltaskslot (tasks s p)"

text \<open>
  The table holds exactly the live tasks, each at the slot it records; the allocated array has
  room for the next multiple of 64 entries; fresh pointers are fresh.
\<close>

definition alltask_ok :: "'z sched_scheme \<Rightarrow> bool" where
  "alltask_ok s \<longleftrightarrow>
     64 * ((nalltask s + 63) div 64) \<le> length (alltask s) \<and>
     (\<forall>i < nalltask s. \<exists>p. alltask s ! i = Some p \<and> slot s p = Some i) \<and>
     (\<forall>p i. slot s p = Some i \<longrightarrow> i < nalltask s \<and> alltask s ! i = Some p)"

definition fresh_ok :: "'z sched_scheme \<Rightarrow> bool" where
  "fresh_ok s \<longleftrightarrow> dom (tasks s) \<subseteq> {..<brk s}"

definition user_tasks :: "'z sched_scheme \<Rightarrow> tptr set" where
  "user_tasks s = {p. \<exists>t. tasks s p = Some t \<and> \<not> tsystem t}"

lemma alltask_ok_cong:
  "alltask_ok s \<Longrightarrow> slot s' = slot s \<Longrightarrow> alltask s' = alltask s \<Longrightarrow> nalltask s' = nalltask s \<Longrightarrow>
   alltask_ok s'"
  by (simp add: alltask_ok_def)

lemma unlink_fields [simp]:
  "tname (unlink t) = tname t" "tstate (unlink t) = tstate t" "alarmtime (unlink t) = alarmtime t"
  "tid (unlink t) = tid t" "stk (unlink t) = stk t" "stksize (unlink t) = stksize t"
  "exiting (unlink t) = exiting t" "alltaskslot (unlink t) = alltaskslot t"
  "tsystem (unlink t) = tsystem t" "tready (unlink t) = tready t"
  "startfn (unlink t) = startfn t" "startarg (unlink t) = startarg t" "udata (unlink t) = udata t"
  by (simp_all add: unlink_def)

lemma relinked_field:
  assumes "relinked s s'" and "\<And>t. f (unlink t) = f t"
  shows "map_option f (tasks s' p) = map_option f (tasks s p)"
proof -
  have "map_option f v = map_option f (map_option unlink v)" for v
    using assms(2) by (cases v) simp_all
  then show ?thesis using assms(1) by (metis relinked_def)
qed

lemma relinked_slot: "relinked s s' \<Longrightarrow> slot s' = slot s"
  by (rule ext) (simp add: slot_def relinked_field)

lemma user_tasks_alt: "user_tasks s = {p. map_option tsystem (tasks s p) = Some False}"
  by (auto simp: user_tasks_def)

lemma relinked_user_tasks: "relinked s s' \<Longrightarrow> user_tasks s' = user_tasks s"
  by (simp add: user_tasks_alt relinked_field)

lemma relinked_same:
  assumes "relinked s s'"
  shows "brk s' = brk s" "alltask s' = alltask s" "nalltask s' = nalltask s"
    "taskcount s' = taskcount s" "taskrunning s' = taskrunning s" "taskidgen s' = taskidgen s"
    "tasknswitch s' = tasknswitch s" "taskexitval s' = taskexitval s" "prt s' = prt s"
    "alloc_ok s' = alloc_ok s" "allocs s' = allocs s" "frame_at s' = frame_at s"
    "task_at s' = task_at s"
  using assms by (auto elim!: relinkedE)

lemma mark_ready_same [simp]:
  "slot (mark_ready t s) = slot s" "user_tasks (mark_ready t s) = user_tasks s"
  "dom (tasks (mark_ready t s)) = dom (tasks s)" "lists (mark_ready t s) = lists s"
  "brk (mark_ready t s) = brk s" "alltask (mark_ready t s) = alltask s"
  "nalltask (mark_ready t s) = nalltask s" "taskcount (mark_ready t s) = taskcount s"
  "taskrunning (mark_ready t s) = taskrunning s" "taskidgen (mark_ready t s) = taskidgen s"
  "tasknswitch (mark_ready t s) = tasknswitch s" "taskexitval (mark_ready t s) = taskexitval s"
  by (auto simp: mark_ready_def slot_def user_tasks_def option.map_comp o_def fun_eq_iff
      split: if_splits)

lemma alltask_ok_grow:
  assumes "alltask_ok s" and "nalltask s mod 64 = 0"
  shows "alltask_ok (grow_alltask (nalltask s + 64) s)"
    and "nalltask s < length (alltask (grow_alltask (nalltask s + 64) s))"
proof -
  have len: "nalltask s \<le> length (alltask s)" using assms(1) by (auto simp: alltask_ok_def)
  show "nalltask s < length (alltask (grow_alltask (nalltask s + 64) s))"
    by (simp add: grow_alltask_def)
  have "64 * ((nalltask s + 63) div 64) = nalltask s" using assms(2) by presburger
  with assms(1) len show "alltask_ok (grow_alltask (nalltask s + 64) s)"
    by (fastforce simp: alltask_ok_def grow_alltask_def slot_def nth_append)
qed

text \<open>A new task in the next slot of the table.\<close>

lemma alltask_ok_add:
  assumes "alltask_ok s" and "slot s' = (slot s)(p \<mapsto> nalltask s)" and "slot s p = None"
    and "nalltask s' = nalltask s + 1" and "alltask s' = (alltask s)[nalltask s := Some p]"
    and "64 * ((nalltask s + 1 + 63) div 64) \<le> length (alltask s)"
  shows "alltask_ok s'"
proof -
  have len: "nalltask s < length (alltask s)" using assms(6) by linarith
  have old: "\<exists>q. alltask s ! i = Some q \<and> slot s q = Some i \<and> q \<noteq> p" if "i < nalltask s" for i
    using assms(1,3) that unfolding alltask_ok_def by (metis option.distinct(1))
  have bwd: "i < nalltask s \<and> alltask s ! i = Some q" if "slot s q = Some i" for q i
    using assms(1) that by (simp add: alltask_ok_def)
  have "\<exists>q. alltask s' ! i = Some q \<and> slot s' q = Some i" if "i < nalltask s'" for i
    using old [of i] that len assms by (cases "i = nalltask s") auto
  moreover have "i < nalltask s' \<and> alltask s' ! i = Some q" if "slot s' q = Some i" for q i
    using bwd [of q i] that len assms by (cases "q = p") (auto split: if_splits)
  ultimately show ?thesis using assms(4,5,6) by (simp add: alltask_ok_def)
qed

lemma next_slot_room: "(n :: nat) mod 64 \<noteq> 0 \<Longrightarrow> (n + 1 + 63) div 64 = (n + 63) div 64"
proof -
  assume "n mod 64 \<noteq> 0"
  then obtain q r where n: "n = 64 * q + r" "0 < r" "r < 64"
    by (metis mod_less_divisor mult.commute mult_div_mod_eq neq0_conv zero_less_numeral)
  have "(n + 63) div 64 = q + 1" by (rule div_nat_eqI) (use n in simp_all)
  moreover have "(n + 1 + 63) div 64 = q + 1" by (rule div_nat_eqI) (use n in simp_all)
  ultimately show ?thesis by simp
qed

lemma room_next:
  "alltask_ok s \<Longrightarrow> nalltask s mod 64 \<noteq> 0 \<Longrightarrow>
   64 * ((nalltask s + 1 + 63) div 64) \<le> length (alltask s)"
  using next_slot_room [of "nalltask s"] by (simp add: alltask_ok_def)

text \<open>
  \<open>taskcreate\<close> with enough memory: the new task is fresh, not a system task, last in the run
  queue, in the table, counted, and its id is the next one.
\<close>

definition create_post ::
    "nat \<Rightarrow> uint \<Rightarrow> uint \<Rightarrow> queues \<Rightarrow> 'z sched_scheme \<Rightarrow> cint \<Rightarrow> 'z sched_scheme \<Rightarrow> bool" where
  "create_post fn arg stack L s i s' \<longleftrightarrow>
     i = taskidgen s + 1 \<and> taskidgen s' = taskidgen s + 1 \<and> brk s' = Suc (brk s) \<and>
     queues_ok s' (L(RunQueue := L RunQueue @ [brk s])) \<and> alltask_ok s' \<and> fresh_ok s' \<and>
     nalltask s' = nalltask s + 1 \<and> taskcount s' = taskcount s + 1 \<and>
     user_tasks s' = insert (brk s) (user_tasks s) \<and> taskrunning s' = taskrunning s \<and>
     (\<exists>x. tasks s' (brk s) = Some x \<and> tid x = i \<and> startfn x = fn \<and> startarg x = arg \<and>
        stksize x = stack \<and> \<not> tsystem x \<and> \<not> exiting x \<and> tready x) \<and>
     (\<forall>p. p \<noteq> brk s \<longrightarrow> map_option unlink (tasks s' p) = map_option unlink (tasks s p)) \<and>
     sched.more s' = sched.more s"

lemma taskcreate_spec:
  assumes q: "queues_ok s L" and a: "alltask_ok s" and f: "fresh_ok s"
    and m: "alloc_ok s (allocs s)" "nalltask s mod 64 = 0 \<Longrightarrow> alloc_ok s (Suc (allocs s))"
  shows "runs (taskcreate fn arg stack) s (create_post fn arg stack L s)"
proof -
  let ?p = "brk s"
  let ?table = "alltask (if nalltask s mod 64 = 0 then grow_alltask (nalltask s + 64) s else s)"
  have new: "tasks s ?p = None" using f by (auto simp: fresh_ok_def)
  define x where "x = \<lparr>tname = [], tstate = [], tnext = None, tprev = None, alarmtime = 0,
     tid = taskidgen s + 1, stk = task_at s ?p + sizeof_Task, stksize = stack,
     exiting = False, alltaskslot = nalltask s, tsystem = False, tready = False,
     startfn = fn, startarg = arg, udata = 0\<rparr>"
  define made where "made s1 \<longleftrightarrow>
     brk s1 = Suc ?p \<and> taskidgen s1 = taskidgen s + 1 \<and> taskcount s1 = taskcount s + 1 \<and>
     tasks s1 = (tasks s)(?p \<mapsto> x) \<and> alltask s1 = ?table[nalltask s := Some ?p] \<and>
     nalltask s1 = nalltask s + 1 \<and> lists s1 = lists s \<and> taskrunning s1 = taskrunning s \<and>
     sched.more s1 = sched.more s" for s1 :: "'a sched_scheme"
  have len: "nalltask s mod 64 \<noteq> 0 \<Longrightarrow> nalltask s < length (alltask s)"
    using room_next [OF a] by linarith
  have step: "runs (taskcreate fn arg stack) s P"
    if "\<And>s1. made s1 \<Longrightarrow> runs (taskready ?p) s1 (\<lambda>_. P (taskidgen s + 1))" for P
    using m len
    by (auto simp: taskcreate_def taskalloc_def runs_bnd made_def x_def grow_alltask_def intro!: that)
  show ?thesis
  proof (rule step)
    fix s1 :: "'a sched_scheme"
    assume s1: "made s1"
    have q1: "queues_ok s1 L"
      by (rule queues_ok_cong [OF q]) (use new s1 in \<open>auto simp: made_def\<close>)
    have slot1: "slot s1 = (slot s)(?p \<mapsto> nalltask s)"
      using s1 by (auto simp: slot_def made_def x_def)
    have a1: "alltask_ok s1"
    proof (cases "nalltask s mod 64 = 0")
      case True
      show ?thesis
        by (rule alltask_ok_add [OF alltask_ok_grow(1) [OF a True], of s1 ?p])
          (use True new slot1 s1 in \<open>auto simp: made_def slot_def grow_alltask_def\<close>)
    next
      case False
      show ?thesis
        by (rule alltask_ok_add [OF a slot1])
          (use False new room_next [OF a] s1 in \<open>auto simp: made_def slot_def\<close>)
    qed
    have "runs (taskready ?p) s1 (\<lambda>_ s'.
        queues_ok s' (L(RunQueue := L RunQueue @ [?p])) \<and> relinked (mark_ready ?p s1) s')"
      using queued_live [OF q] new s1 by (intro taskready_spec [OF q1]) (auto simp: made_def)
    then show "runs (taskready ?p) s1 (\<lambda>_. create_post fn arg stack L s (taskidgen s + 1))"
    proof (rule runs_mono, elim conjE)
      fix s'
      assume q': "queues_ok s' (L(RunQueue := L RunQueue @ [?p]))" and r: "relinked (mark_ready ?p s1) s'"
      have task': "map_option unlink (tasks s' p) = map_option unlink (tasks (mark_ready ?p s1) p)" for p
        using r by (simp add: relinked_def)
      have "alltask_ok s'"
        by (rule alltask_ok_cong [OF a1]) (use relinked_slot [OF r] relinked_same [OF r] in auto)
      moreover have "user_tasks s' = insert ?p (user_tasks s)"
      proof -
        have "user_tasks s1 = insert ?p (user_tasks s)"
          using s1 new by (auto simp: user_tasks_def made_def x_def)
        then show ?thesis using relinked_user_tasks [OF r] by simp
      qed
      moreover have "fresh_ok s'"
        using relinked_dom [OF r] relinked_same [OF r] s1 f by (auto simp: fresh_ok_def made_def)
      moreover obtain x' where "tasks s' ?p = Some x'"
        and "unlink x' = unlink (x\<lparr>tready := True\<rparr>)"
        using task' [of ?p] s1 by (auto simp: made_def mark_ready_def)
      moreover note unlink_eqD [OF this(2)]
      moreover have "map_option unlink (tasks s' p) = map_option unlink (tasks s p)" if "p \<noteq> ?p" for p
        using task' [of p] s1 that by (simp add: made_def mark_ready_def)
      moreover have "sched.more s' = sched.more (mark_ready ?p s1)"
        using r by (auto elim!: relinkedE)
      then have "sched.more s' = sched.more s" using s1 by (simp add: made_def mark_ready_def)
      ultimately show "create_post fn arg stack L s (taskidgen s + 1) s'"
        using q' s1 relinked_same [OF r]
        by (auto simp: create_post_def made_def x_def)
    qed
  qed
qed


text \<open>The end of a task: the table stays exact, with the last entry in the slot that became free.\<close>

definition reap_post :: "tptr \<Rightarrow> task \<Rightarrow> 'z sched_scheme \<Rightarrow> 'z sched_scheme \<Rightarrow> bool" where
  "reap_post t x s s' \<longleftrightarrow>
     alltask_ok s' \<and> nalltask s' = nalltask s - 1 \<and> tasks s' t = None \<and>
     dom (tasks s') = dom (tasks s) - {t} \<and>
     taskcount s' = taskcount s - (if tsystem x then 0 else 1) \<and>
     user_tasks s' = user_tasks s - {t} \<and>
     (\<forall>p y. p \<noteq> t \<longrightarrow> tasks s p = Some y \<longrightarrow>
        (\<exists>i. tasks s' p = Some (y\<lparr>alltaskslot := i\<rparr>))) \<and>
     s' = s\<lparr>tasks := tasks s', alltask := alltask s', nalltask := nalltask s', taskcount := taskcount s'\<rparr>"

lemma reap_spec:
  assumes a: "alltask_ok s" and x: "tasks s t = Some x"
  shows "runs (reap t) s (\<lambda>_. reap_post t x s)"
proof -
  let ?i = "alltaskslot x" and ?m = "nalltask s - 1"
  have i: "?i < nalltask s" "alltask s ! ?i = Some t"
    using a x by (auto simp: alltask_ok_def slot_def)
  then have len: "nalltask s \<le> length (alltask s)" "?m < nalltask s"
    using a by (auto simp: alltask_ok_def)
  then obtain p where p: "alltask s ! ?m = Some p" "slot s p = Some ?m"
    using a by (auto simp: alltask_ok_def)
  then obtain y where y: "tasks s p = Some y" "alltaskslot y = ?m" by (auto simp: slot_def)
  have pt: "p = t \<longleftrightarrow> ?i = ?m" using p i y x by auto
  define h where "h = (tasks s)(p \<mapsto> y\<lparr>alltaskslot := ?i\<rparr>, t := None)"
  have run: "runs (reap t) s P" if "\<And>s'. tasks s' = h \<Longrightarrow> alltask s' = (alltask s)[?i := Some p] \<Longrightarrow>
      nalltask s' = ?m \<Longrightarrow> taskcount s' = taskcount s - (if tsystem x then 0 else 1) \<Longrightarrow>
      s' = s\<lparr>tasks := tasks s', alltask := alltask s', nalltask := nalltask s', taskcount := taskcount s'\<rparr> \<Longrightarrow>
      P () s'" for P
    using x y p i len
    by (auto simp: reap_def runs_bnd h_def Let_def intro!: that)
  show ?thesis
  proof (rule run)
    fix s'
    assume t: "tasks s' = h" and al: "alltask s' = (alltask s)[?i := Some p]" and n: "nalltask s' = ?m"
      and c: "taskcount s' = taskcount s - (if tsystem x then 0 else 1)"
      and s': "s' = s\<lparr>tasks := tasks s', alltask := alltask s', nalltask := nalltask s', taskcount := taskcount s'\<rparr>"
    have sl: "slot s' = (slot s)(p \<mapsto> ?i, t := None)" by (auto simp: slot_def t h_def)
    have old: "\<exists>q. alltask s ! j = Some q \<and> slot s q = Some j" if "j < nalltask s" for j
      using a that by (simp add: alltask_ok_def)
    have bwd: "j < nalltask s \<and> alltask s ! j = Some q" if "slot s q = Some j" for q j
      using a that by (simp add: alltask_ok_def)
    have st: "slot s t = Some ?i" using x by (simp add: slot_def)
    have "\<exists>q. alltask s' ! j = Some q \<and> slot s' q = Some j" if j: "j < ?m" for j
    proof -
      obtain q where q: "alltask s ! j = Some q" "slot s q = Some j" using old [OF less_trans [OF j len(2)]] by auto
      show ?thesis
        using q j i len pt p st by (cases "j = ?i") (auto simp: al sl)
    qed
    moreover have "j < ?m \<and> alltask s' ! j = Some q" if q: "slot s' q = Some j" for q j
    proof (cases "q = p")
      case True
      then show ?thesis using q i len pt by (auto simp: al sl split: if_splits)
    next
      case False
      then have "q \<noteq> t" "slot s q = Some j" using q by (auto simp: sl split: if_splits)
      moreover from this have "j \<noteq> ?i" "j \<noteq> ?m" using bwd [of q j] i p False by auto
      ultimately show ?thesis using bwd [of q j] by (auto simp: al)
    qed
    moreover have "64 * ((?m + 63) div 64) \<le> length (alltask s')"
    proof -
      have "(?m + 63) div 64 \<le> (nalltask s + 63) div 64" by (simp add: div_le_mono)
      then show ?thesis using a by (simp add: alltask_ok_def al)
    qed
    ultimately have "alltask_ok s'" by (simp add: alltask_ok_def n)
    moreover have "dom (tasks s') = dom (tasks s) - {t}" using y by (auto simp: t h_def)
    moreover have "user_tasks s' = user_tasks s - {t}"
      using y by (auto simp: user_tasks_def t h_def split: if_splits)
    moreover have "\<exists>j. tasks s' q = Some (z\<lparr>alltaskslot := j\<rparr>)" if "q \<noteq> t" "tasks s q = Some z" for q z
      using that y by (cases "q = p") (auto simp: t h_def intro: exI [of _ "alltaskslot z"])
    ultimately show "reap_post t x s s'"
      using s' n c t by (simp add: reap_post_def h_def)
  qed
qed

end
