(* ===== verification/Safety.thy ===== *)
theory Safety
  imports Sched
begin

text \<open>
  The contract between the scheduler and the code of the tasks, and the proof that a scheduler
  whose tasks keep to it never touches memory that is not a live object, for ever.

  The components above task.c (channels, file descriptors) extend the state and keep pointers to
  tasks that wait outside every list. What they need of the tasks is the interface
  \<open>sched_client\<close>: an invariant \<open>J\<close> of their own state that may mention the \<^emph>\<open>parked\<close> tasks (live,
  in no list, not running), a relation \<open>Keep\<close> on which the code of a task may rely while others
  run, the number \<open>naps\<close> of sleepers that fd.c counts, and what the code behind a function pointer
  expects of its argument, \<open>Pre\<close>.
\<close>

section \<open>Invariants of task.c\<close>

definition parked :: "'z sched_scheme \<Rightarrow> queues \<Rightarrow> tptr set" where
  "parked s L = {p. p \<in> dom (tasks s) \<and> \<not> queued L p \<and> taskrunning s \<noteq> Some p}"

definition sched_inv :: "'z sched_scheme \<Rightarrow> queues \<Rightarrow> bool" where
  "sched_inv s L \<longleftrightarrow>
     queues_ok s L \<and> alltask_ok s \<and> fresh_ok s \<and>
     (\<forall>p x. tasks s p = Some x \<longrightarrow> exiting x \<longrightarrow> taskrunning s = Some p \<and> \<not> queued L p)"

lemma fresh_finite: "fresh_ok s \<Longrightarrow> finite (dom (tasks s))"
  by (auto simp: fresh_ok_def intro: finite_subset)

lemma finite_user_tasks: "fresh_ok s \<Longrightarrow> finite (user_tasks s)"
  by (rule finite_subset [OF _ fresh_finite]) (auto simp: user_tasks_def)

text \<open>
  The sleeping tasks: \<open>taskcount\<close> is the number of user tasks, and one more while a user task
  sleeps; \<open>n\<close> is the number of user tasks that sleep; the sleepers stand in the order of their
  alarm times.
\<close>

definition alarm :: "'z sched_scheme \<Rightarrow> tptr \<Rightarrow> uvlong" where
  "alarm s p = (case tasks s p of None \<Rightarrow> 0 | Some x \<Rightarrow> alarmtime x)"

definition nappers :: "'z sched_scheme \<Rightarrow> queues \<Rightarrow> tptr set" where
  "nappers s L = set (L Sleeping) \<inter> user_tasks s"

definition counts_ok :: "'z sched_scheme \<Rightarrow> queues \<Rightarrow> int \<Rightarrow> bool" where
  "counts_ok s L n \<longleftrightarrow>
     taskcount s = int (card (user_tasks s)) + (if n = 0 then 0 else 1) \<and>
     n = int (card (nappers s L)) \<and> sorted (map (alarm s) (L Sleeping))"

text \<open>Every task was created with a function and an argument that go together.\<close>

definition starts_ok :: "(nat \<Rightarrow> uint \<Rightarrow> bool) \<Rightarrow> 'z sched_scheme \<Rightarrow> bool" where
  "starts_ok P s \<longleftrightarrow> (\<forall>p x. tasks s p = Some x \<longrightarrow> P (startfn x) (startarg x))"

lemma alarm_eq:
  "map_option alarmtime (tasks s' p) = map_option alarmtime (tasks s p) \<Longrightarrow> alarm s' p = alarm s p"
  by (auto simp: alarm_def split: option.splits)

lemma counts_same:
  assumes "counts_ok s L n" and "taskcount s' = taskcount s" and "user_tasks s' = user_tasks s"
    and "L' Sleeping = L Sleeping" and "\<And>p. p \<in> set (L Sleeping) \<Longrightarrow> alarm s' p = alarm s p"
  shows "counts_ok s' L' n"
proof -
  have "map (alarm s') (L' Sleeping) = map (alarm s) (L Sleeping)" using assms(4,5) by simp
  then show ?thesis using assms(1-4) by (simp add: counts_ok_def nappers_def del: map_eq_conv)
qed

lemma starts_same:
  assumes "starts_ok P s" and "\<And>f a. P f a \<Longrightarrow> P' f a"
    and "\<And>p x. tasks s' p = Some x \<Longrightarrow>
      \<exists>y. tasks s p = Some y \<and> startfn y = startfn x \<and> startarg y = startarg x"
  shows "starts_ok P' s'"
  unfolding starts_ok_def
proof (intro allI impI)
  fix p x
  assume "tasks s' p = Some x"
  then obtain y where "tasks s p = Some y" "startfn y = startfn x" "startarg y = startarg x"
    using assms(3) by blast
  then show "P' (startfn x) (startarg x)" using assms(1,2) unfolding starts_ok_def by metis
qed

section \<open>The parts of a round\<close>

text \<open>Choosing the head of the run queue makes it the running task.\<close>

definition dispatch :: "tptr \<Rightarrow> ('z sched_scheme, unit) prog" where
  "dispatch t =
     bnd (deltask RunQueue t) (\<lambda>_.
     bnd (mod_task t (\<lambda>x. x\<lparr>tready := False\<rparr>)) (\<lambda>_.
     upd (\<lambda>s. s\<lparr>taskrunning := Some t, tasknswitch := tasknswitch s + 1\<rparr>)))"

text \<open>The end of a turn: the task is put aside, or taken out of the system.\<close>

definition retire :: "tptr \<Rightarrow> ('z sched_scheme, bool) prog" where
  "retire t =
     bnd (upd (\<lambda>s. s\<lparr>taskrunning := None\<rparr>)) (\<lambda>_.
     bnd (load_task t) (\<lambda>x.
     if exiting x then bnd (reap t) (\<lambda>_. ret True) else ret False))"

lemma sched_round_alt:
  fixes code :: "'z sched_scheme code"
  shows "sched_round code K =
     bnd (get taskcount) (\<lambda>n.
     if n = 0 then bnd (get taskexitval) (\<lambda>v. halt (Exit v))
     else
       bnd (get (\<lambda>s. head (lists s RunQueue))) (\<lambda>h.
       case h of
         None \<Rightarrow> halt (Exit 1)
       | Some t \<Rightarrow>
           bnd (dispatch t) (\<lambda>_.
           bnd (contextswitch code K t) (\<lambda>k.
           bnd (retire t) (\<lambda>gone.
           ret (if gone then K(t := None) else K(t \<mapsto> k)))))))"
proof -
  have "bnd (retire t :: ('z sched_scheme, bool) prog) (\<lambda>gone. ret (if gone then K(t := None) else K(t \<mapsto> k))) =
     bnd (upd (\<lambda>s. s\<lparr>taskrunning := None\<rparr>)) (\<lambda>_.
     bnd (load_task t) (\<lambda>x.
     if exiting x then bnd (reap t) (\<lambda>_. ret (K(t := None))) else ret (K(t \<mapsto> k))))" for t k
    by (simp add: retire_def bnd_assoc if_distrib [of "\<lambda>m. bnd m _"] cong: if_cong)
  then show ?thesis
    by (simp add: sched_round_def dispatch_def bnd_assoc cong: if_cong option.case_cong)
qed

section \<open>The interface\<close>

locale sched_client =
  fixes J :: "'z sched_scheme \<Rightarrow> tptr set \<Rightarrow> bool"
    and Keep :: "tptr \<Rightarrow> 'z sched_scheme \<Rightarrow> 'z sched_scheme \<Rightarrow> bool"
    and naps :: "'z sched_scheme \<Rightarrow> int"
    and Pre :: "'z sched_scheme \<Rightarrow> nat \<Rightarrow> uint \<Rightarrow> bool"
  assumes J_more: "J s A \<Longrightarrow> sched.more s' = sched.more s \<Longrightarrow> J s' A"
    and J_mono: "J s A \<Longrightarrow> A \<subseteq> B \<Longrightarrow> J s B"
    and Keep_more: "sched.more s' = sched.more s \<Longrightarrow> Keep t s s'"
    and Keep_trans: "Keep t s s' \<Longrightarrow> Keep t s' s'' \<Longrightarrow> Keep t s s''"
    and naps_more: "sched.more s' = sched.more s \<Longrightarrow> naps s' = naps s"
    and Pre_keep: "Keep t s s' \<Longrightarrow> Pre s fn arg \<Longrightarrow> Pre s' fn arg"
begin

lemma Pre_more: "sched.more s' = sched.more s \<Longrightarrow> Pre s fn arg \<Longrightarrow> Pre s' fn arg"
  using Pre_keep Keep_more by blast

text \<open>The global invariant, the state in which a turn of \<open>t\<close> may start, and that in which it ends.\<close>

definition Inv :: "'z sched_scheme \<Rightarrow> queues \<Rightarrow> bool" where
  "Inv s L \<longleftrightarrow>
     sched_inv s L \<and> counts_ok s L (naps s) \<and> starts_ok (Pre s) s \<and> J s (parked s L)"

definition Run :: "tptr \<Rightarrow> 'z sched_scheme \<Rightarrow> bool" where
  "Run t s \<longleftrightarrow> (\<exists>L. Inv s L \<and> taskrunning s = Some t \<and> \<not> queued L t \<and>
     (\<exists>x. tasks s t = Some x \<and> \<not> exiting x))"

text \<open>At the end of its turn a task that is not exiting may already count as parked.\<close>

definition Stop :: "tptr \<Rightarrow> 'z sched_scheme \<Rightarrow> bool" where
  "Stop t s \<longleftrightarrow>
     (\<exists>L x. sched_inv s L \<and> counts_ok s L (naps s) \<and> starts_ok (Pre s) s \<and>
        taskrunning s = Some t \<and> tasks s t = Some x \<and>
        J s (parked (if exiting x then s else s\<lparr>taskrunning := None\<rparr>) L))"

lemma parked_idle: "parked s L \<subseteq> parked (s\<lparr>taskrunning := None\<rparr>) L"
  by (auto simp: parked_def)

lemma Stop_Inv:
  assumes "Inv s L" and "taskrunning s = Some t" and "t \<in> dom (tasks s)"
  shows "Stop t s"
proof -
  obtain x where "tasks s t = Some x" using assms(3) by blast
  moreover have "J s (parked (if exiting x then s else s\<lparr>taskrunning := None\<rparr>) L)"
    using assms(1) J_mono [of s "parked s L", OF _ parked_idle] by (simp add: Inv_def)
  ultimately show ?thesis
    unfolding Stop_def using assms by (intro exI [of _ L] exI [of _ x]) (simp add: Inv_def)
qed

definition Others :: "tptr \<Rightarrow> 'z sched_scheme \<Rightarrow> 'z sched_scheme \<Rightarrow> bool" where
  "Others t s s' \<longleftrightarrow> (\<forall>u. u \<noteq> t \<longrightarrow> Keep u s s')"

text \<open>A task that marked itself exiting is never resumed.\<close>

definition Resume :: "tptr \<Rightarrow> 'z sched_scheme \<Rightarrow> 'z sched_scheme \<Rightarrow> bool" where
  "Resume t s s' \<longleftrightarrow> (\<exists>x. tasks s t = Some x \<and> \<not> exiting x) \<and> Run t s' \<and> Keep t s s'"

definition safe_for :: "tptr \<Rightarrow> ('z sched_scheme \<Rightarrow> 'a \<Rightarrow> 'z sched_scheme \<Rightarrow> bool)
    \<Rightarrow> ('z sched_scheme, 'a) res \<Rightarrow> 'z sched_scheme \<Rightarrow> bool" where
  "safe_for t = safe (Resume t) (\<lambda>s0 s. Stop t s \<and> Others t s0 s) (\<lambda>e. e \<noteq> BadMem)"

text \<open>
  \<open>Safe t P m Q\<close>: when \<open>t\<close> runs \<open>m\<close> in a state that satisfies \<open>P\<close>, its turns keep the invariant,
  and where \<open>m\<close> returns \<open>t\<close> is still running and \<open>Q\<close> holds.
\<close>

definition Safe :: "tptr \<Rightarrow> ('z sched_scheme \<Rightarrow> bool) \<Rightarrow> ('z sched_scheme, 'a) prog
    \<Rightarrow> ('a \<Rightarrow> 'z sched_scheme \<Rightarrow> bool) \<Rightarrow> bool" where
  "Safe t P m Q \<longleftrightarrow>
     (\<forall>s. Run t s \<longrightarrow> P s \<longrightarrow>
        safe_for t (\<lambda>s0 a s'. Run t s' \<and> Others t s0 s' \<and> Q a s') (m s) s)"

lemma Others_refl [simp]: "Others t s s"
  by (simp add: Others_def Keep_more)

lemma Others_trans: "Others t s s' \<Longrightarrow> Others t s' s'' \<Longrightarrow> Others t s s''"
  by (auto simp: Others_def intro: Keep_trans)

lemma Safe_ret: "(\<And>s. P s \<Longrightarrow> Q a s) \<Longrightarrow> Safe t P (ret a) Q"
  by (simp add: Safe_def safe_for_def ret_def)

lemma Safe_get: "(\<And>s. P s \<Longrightarrow> Q (f s) s) \<Longrightarrow> Safe t P (get f) Q"
  by (simp add: Safe_def safe_for_def get_def)

lemma Safe_halt: "e \<noteq> BadMem \<Longrightarrow> Safe t P (halt e) Q"
  by (simp add: Safe_def safe_for_def halt_def)

lemma Safe_bnd:
  assumes m: "Safe t P m Q" and f: "\<And>a. Safe t (Q a) (f a) Q'"
  shows "Safe t P (bnd m f) Q'"
proof -
  let ?S = "\<lambda>r s0. safe_for t (\<lambda>s0 a s'. Run t s' \<and> Others t s0 s' \<and> Q' a s') r s0"
  have follow: "?S (f a s') s0" if "Run t s'" "Others t s0 s'" "Q a s'" for s0 a s'
  proof -
    have "?S (f a s') s'" using f [of a] that by (simp add: Safe_def)
    then show ?thesis
      unfolding safe_for_def
      by (rule safe_earlier) (use that(2) Others_trans in blast)+
  qed
  show ?thesis
    unfolding Safe_def
  proof (intro allI impI)
    fix s
    assume "Run t s" "P s"
    then have "safe_for t (\<lambda>s0 a s'. Run t s' \<and> Others t s0 s' \<and> Q a s') (m s) s"
      using m by (simp add: Safe_def)
    then have "safe_for t (\<lambda>s0 a s'. ?S (f a s') s0) (m s) s"
      unfolding safe_for_def by (rule safe_mono) (use follow in \<open>simp add: safe_for_def\<close>)
    then show "?S (bnd m f s) s"
      unfolding bnd_def safe_for_def by (rule safe_bindr)
  qed
qed

lemma Safe_pre: "Safe t P m Q \<Longrightarrow> (\<And>s. P' s \<Longrightarrow> P s) \<Longrightarrow> Safe t P' m Q"
  by (auto simp: Safe_def)

lemma Safe_post: "Safe t P m Q \<Longrightarrow> (\<And>a s. Q a s \<Longrightarrow> Q' a s) \<Longrightarrow> Safe t P m Q'"
  by (fastforce simp: Safe_def safe_for_def elim: safe_mono)

lemma Safe_if: "(b \<Longrightarrow> Safe t P m Q) \<Longrightarrow> (\<not> b \<Longrightarrow> Safe t P m' Q) \<Longrightarrow> Safe t P (if b then m else m') Q"
  by simp

text \<open>Code that does not give up the CPU, by its total correctness.\<close>

lemma Safe_runs:
  assumes "\<And>s. Run t s \<Longrightarrow> P s \<Longrightarrow> runs m s (\<lambda>a s'. Run t s' \<and> Others t s s' \<and> Q a s')"
  shows "Safe t P m Q"
  using assms by (fastforce simp: Safe_def safe_for_def runs_def)

text \<open>
  Giving up the CPU: after \<open>m\<close> the turn of \<open>t\<close> may end (it has put itself into a list, or marked
  itself exiting); what holds when it is resumed follows from what held then and from \<open>Keep\<close>.
\<close>

lemma Safe_suspend:
  assumes m: "\<And>s. Run t s \<Longrightarrow> P s \<Longrightarrow> runs m s (\<lambda>_ s'. Stop t s' \<and> Others t s s' \<and> S s')"
    and resumed: "\<And>s s'. S s \<Longrightarrow> Resume t s s' \<Longrightarrow> Q () s'"
  shows "Safe t P (bnd m (\<lambda>_. taskswitch)) Q"
  unfolding Safe_def
proof (intro allI impI)
  fix s
  assume "Run t s" "P s"
  then obtain a s1 where s1: "m s = Ret a s1" "Stop t s1" "Others t s s1" "S s1"
    using m by (blast elim: runsE)
  then obtain x where x: "taskrunning s1 = Some t" "tasks s1 t = Some x"
    by (auto simp: Stop_def)
  have "taskswitch s1 = Halt Abort s1 \<or> taskswitch s1 = Switch s1 (ret ())"
    using x by (simp add: taskswitch_def needstack_def running_def bnd_def deref_def load_task_def
        sem_simps)
  then show "safe_for t (\<lambda>s0 a s'. Run t s' \<and> Others t s0 s' \<and> Q a s') (bnd m (\<lambda>_. taskswitch) s) s"
    using s1 resumed by (auto simp: safe_for_def ret_def Resume_def)
qed

lemma Safe_taskswitch:
  assumes "\<And>s s'. P s \<Longrightarrow> Resume t s s' \<Longrightarrow> Q () s'"
  shows "Safe t P taskswitch Q"
proof -
  have "Safe t P (bnd (ret ()) (\<lambda>_. taskswitch)) Q"
    by (rule Safe_suspend [where S = P]) (use assms in \<open>auto simp: Run_def intro: Stop_Inv\<close>)
  then show ?thesis by simp
qed

text \<open>What outlasts the turns of the others may be carried over any code.\<close>

lemma Safe_frame:
  assumes m: "Safe t P m Q" and R: "\<And>u s s'. Keep u s s' \<Longrightarrow> R s \<Longrightarrow> R s'"
  shows "Safe t (\<lambda>s. P s \<and> R s) m (\<lambda>a s. Q a s \<and> R s)"
proof -
  have others: "R s'" if "Others t s s'" "R s" for s s'
    using that R [of "Suc t" s s'] by (auto simp: Others_def)
  have "safe_for t (\<lambda>s0 a s'. Run t s' \<and> Others t s0 s' \<and> Q a s' \<and> R s') r s"
    if "safe_for t (\<lambda>s0 a s'. Run t s' \<and> Others t s0 s' \<and> Q a s') r s" "R s" for r s
    using that
  proof (induction r arbitrary: s)
    case (Switch s1 k)
    then have s1: "Stop t s1" "Others t s s1" "R s1" by (auto simp: safe_for_def others)
    have "safe_for t (\<lambda>s0 a s'. Run t s' \<and> Others t s0 s' \<and> Q a s' \<and> R s') (k s') s'"
      if res: "Resume t s1 s'" for s'
    proof (rule Switch.IH)
      show "k s' \<in> range k" by simp
      show "safe_for t (\<lambda>s0 a s'. Run t s' \<and> Others t s0 s' \<and> Q a s') (k s') s'"
        using Switch.prems(1) res by (simp add: safe_for_def)
      show "R s'" using R s1(3) res by (auto simp: Resume_def)
    qed
    then show ?case using s1 by (simp add: safe_for_def)
  qed (auto simp: safe_for_def others)
  then show ?thesis using m by (simp add: Safe_def)
qed

section \<open>The scheduler keeps the invariant\<close>

definition code_safe :: "'z sched_scheme code \<Rightarrow> bool" where
  "code_safe code \<longleftrightarrow> (\<forall>t fn arg. Safe t (\<lambda>s. Pre s fn arg) (code fn arg) (\<lambda>_ _. True))"

definition cont_safe :: "tptr \<Rightarrow> 'z sched_scheme \<Rightarrow> ('z sched_scheme, unit) prog \<Rightarrow> bool" where
  "cont_safe t s k \<longleftrightarrow>
     (\<forall>s'. Run t s' \<longrightarrow> Keep t s s' \<longrightarrow> safe_for t (\<lambda>_ _ _. False) (k s') s')"

definition conts_safe :: "'z sched_scheme contexts \<Rightarrow> 'z sched_scheme \<Rightarrow> bool" where
  "conts_safe K s \<longleftrightarrow> (\<forall>t k. K t = Some k \<longrightarrow> cont_safe t s k)"

lemma cont_safe_later: "cont_safe t s k \<Longrightarrow> Keep t s s' \<Longrightarrow> cont_safe t s' k"
  by (auto simp: cont_safe_def intro: Keep_trans)

text \<open>Marking the running task as exiting ends its turn in a state from which it is not resumed.\<close>

lemma exit_stops:
  assumes "Run t s"
  shows "runs (bnd (upd (\<lambda>s. s\<lparr>taskexitval := v\<rparr>)) (\<lambda>_. bnd running (\<lambda>p.
           mod_task p (\<lambda>x. x\<lparr>exiting := True\<rparr>)))) s
         (\<lambda>_ s'. Stop t s' \<and> Others t s s' \<and> (\<exists>x. tasks s' t = Some x \<and> exiting x))"
proof -
  obtain L x where inv: "Inv s L" "taskrunning s = Some t" "\<not> queued L t" "tasks s t = Some x"
    using assms by (auto simp: Run_def)
  let ?s = "s\<lparr>taskexitval := v, tasks := (tasks s)(t \<mapsto> x\<lparr>exiting := True\<rparr>)\<rparr>"
  have "queues_ok ?s L"
    by (rule queues_ok_cong [of s]) (use inv in \<open>auto simp: Inv_def sched_inv_def\<close>)
  moreover have "alltask_ok ?s"
    by (rule alltask_ok_cong [of s]) (use inv in \<open>auto simp: Inv_def sched_inv_def slot_def\<close>)
  moreover have "counts_ok ?s L (naps s)"
    by (rule counts_same [of s L]) (use inv in \<open>auto simp: Inv_def user_tasks_def alarm_def\<close>)
  moreover have "starts_ok (Pre ?s) ?s"
    by (rule starts_same [of "Pre s" s])
      (use inv Pre_more [of ?s s] in \<open>auto simp: Inv_def split: if_splits\<close>)
  moreover have "parked ?s L = parked s L" using inv by (auto simp: parked_def)
  ultimately have "Inv ?s L"
    using inv by (auto simp: Inv_def sched_inv_def fresh_ok_def naps_more [of ?s s] elim: J_more)
  then show ?thesis
    using inv Stop_Inv [of ?s L t] by (auto simp: runs_bnd Others_def Keep_more)
qed

lemma Safe_taskexit: "Safe t P (taskexit v) Q"
proof -
  have "Safe t P (bnd (bnd (upd (\<lambda>s. s\<lparr>taskexitval := v\<rparr>)) (\<lambda>_. bnd running (\<lambda>p.
           mod_task p (\<lambda>x. x\<lparr>exiting := True\<rparr>)))) (\<lambda>_. taskswitch)) Q"
    by (rule Safe_suspend [OF exit_stops]) (auto simp: Resume_def)
  then show ?thesis by (simp add: taskexit_def bnd_assoc)
qed

lemma taskstart_safe:
  assumes code: "code_safe code" and run: "Run t s"
  shows "safe_for t (\<lambda>_ _ _. False) (taskstart code t s) s"
proof -
  have "Safe t (\<lambda>s. Pre s fn arg) (bnd (code fn arg) (\<lambda>_. taskexit 0)) (\<lambda>_ _. False)" for fn arg
    by (rule Safe_bnd [where Q = "\<lambda>_ _. True", OF _ Safe_taskexit]) (use code in \<open>simp add: code_safe_def\<close>)
  then have body: "safe_for t (\<lambda>_ _ _. False) (bnd (code fn arg) (\<lambda>_. taskexit 0) s) s"
    if "Pre s fn arg" for fn arg
    using run that by (simp add: Safe_def)
  obtain x where "tasks s t = Some x" and "starts_ok (Pre s) s"
    using run by (auto simp: Run_def Inv_def)
  then show ?thesis
    using body [of "startfn x" "startarg x"] by (simp add: starts_ok_def)
      (simp add: taskstart_def load_task_def bnd_def [of "load_task t"])
qed

lemma relinked_parked:
  "relinked s s' \<Longrightarrow> parked s' L' = {p. p \<in> dom (tasks s) \<and> \<not> queued L' p \<and> taskrunning s \<noteq> Some p}"
  by (auto simp: parked_def relinked_dom relinked_same)

lemma dispatch_runs:
  assumes inv: "Inv s L" and none: "taskrunning s = None" and hd: "L RunQueue = t # ts"
  shows "runs (dispatch t) s (\<lambda>_ s'. Run t s' \<and> sched.more s' = sched.more s)"
proof -
  have q: "queues_ok s L" and mem: "t \<in> set (L RunQueue)"
    using inv hd by (auto simp: Inv_def sched_inv_def)
  have rm: "remove1 t (L RunQueue) = ts" using hd by simp
  note del = deltask_spec [OF q mem, unfolded rm]
  have "runs (bnd (mod_task t (\<lambda>x. x\<lparr>tready := False\<rparr>)) (\<lambda>_.
      upd (\<lambda>s. s\<lparr>taskrunning := Some t, tasknswitch := tasknswitch s + 1\<rparr>))) s1
      (\<lambda>_ s'. Run t s' \<and> sched.more s' = sched.more s)"
    if q1: "queues_ok s1 (L(RunQueue := ts))" and r: "relinked s s1" for s1
  proof -
    obtain x where x: "tasks s t = Some x" "\<not> exiting x"
      using inv none queued_live [OF q, of t] mem by (auto simp: Inv_def sched_inv_def queued_def)
    then obtain x1 where x1: "tasks s1 t = Some x1" "\<not> exiting x1"
      using relinked_task [OF r] unlink_eqD(7) by metis
    let ?s = "s1\<lparr>tasks := (tasks s1)(t \<mapsto> x1\<lparr>tready := False\<rparr>), taskrunning := Some t,
      tasknswitch := tasknswitch s1 + 1\<rparr>"
    let ?L = "L(RunQueue := ts)"
    have "t \<notin> set ts" using queues_tlist [OF q, of RunQueue] hd by (simp add: tlist_def)
    moreover have "t \<in> set (L q') \<Longrightarrow> q' = RunQueue" for q' using queues_once [OF q _ mem] by blast
    ultimately have once: "\<not> queued ?L t" by (auto simp: queued_def split: if_splits)
    have others: "queued ?L p \<longrightarrow> queued L p" for p
      unfolding queued_def using hd by (metis fun_upd_apply list.set_intros(2))
    have "queues_ok ?s ?L"
      by (rule queues_ok_cong [OF q1]) (use x1 in auto)
    moreover have "slot ?s = slot s1" using x1 by (auto simp: slot_def)
    then have "slot ?s = slot s" using relinked_slot [OF r] by simp
    then have "alltask_ok ?s"
      by (rule alltask_ok_cong [rotated])
        (use inv relinked_same [OF r] in \<open>auto simp: Inv_def sched_inv_def\<close>)
    moreover have "fresh_ok ?s"
      using inv x1 relinked_dom [OF r] relinked_same [OF r]
      by (auto simp: Inv_def sched_inv_def fresh_ok_def)
    moreover have "\<not> exiting y" if "tasks ?s p = Some y" for p y
    proof -
      have "map_option exiting (tasks s1 p) = map_option exiting (tasks s p)"
        by (rule relinked_field [OF r]) simp
      then have "p \<noteq> t \<Longrightarrow> \<exists>z. tasks s p = Some z \<and> exiting z = exiting y"
        using that by (cases "tasks s p") auto
      then show ?thesis
        using that x1 inv none by (cases "p = t") (auto simp: Inv_def sched_inv_def)
    qed
    moreover have more: "sched.more ?s = sched.more s"
      using r by (auto elim!: relinkedE)
    moreover have "user_tasks ?s = user_tasks s1" using x1 by (auto simp: user_tasks_def)
    then have ut: "user_tasks ?s = user_tasks s" using relinked_user_tasks [OF r] by simp
    have "alarm ?s p = alarm s p" for p
    proof -
      have "map_option alarmtime (tasks s1 p) = map_option alarmtime (tasks s p)"
        by (rule relinked_field [OF r]) simp
      then have "alarm s1 p = alarm s p" by (rule alarm_eq)
      then show ?thesis using x1 by (auto simp: alarm_def)
    qed
    then have "counts_ok ?s ?L (naps ?s)"
      using counts_same [of s L "naps s" ?s ?L] inv ut relinked_same [OF r] naps_more [OF more]
      by (simp add: Inv_def)
    moreover have "starts_ok (Pre ?s) ?s"
    proof (rule starts_same [of "Pre s" s])
      show "starts_ok (Pre s) s" using inv by (simp add: Inv_def)
      show "Pre s f a \<Longrightarrow> Pre ?s f a" for f a by (rule Pre_more [OF more])
      fix p y
      assume "tasks ?s p = Some y"
      then obtain z where z: "tasks s1 p = Some z" "startfn z = startfn y" "startarg z = startarg y"
        using x1 by (auto split: if_splits)
      have "map_option startfn (tasks s1 p) = map_option startfn (tasks s p)"
        "map_option startarg (tasks s1 p) = map_option startarg (tasks s p)"
        by (rule relinked_field [OF r]; simp)+
      then show "\<exists>u. tasks s p = Some u \<and> startfn u = startfn y \<and> startarg u = startarg y"
        using z by (cases "tasks s p") auto
    qed
    moreover have "parked s L \<subseteq> parked ?s ?L"
    proof
      fix p
      assume p: "p \<in> parked s L"
      have "queued L t" using mem by (auto simp: queued_def)
      then have "p \<noteq> t" using p by (auto simp: parked_def)
      moreover have "\<not> queued ?L p" using p others [of p] unfolding parked_def by blast
      ultimately show "p \<in> parked ?s ?L"
        using p relinked_dom [OF r] x1 by (auto simp: parked_def)
    qed
    ultimately have "Inv ?s ?L"
      using inv relinked_same [OF r] J_more [OF _ more] J_mono
      by (auto simp: Inv_def sched_inv_def)
    then have "Run t ?s" using once x1 by (auto simp: Run_def)
    then show ?thesis using x1 more by (simp add: runs_bnd)
  qed
  note then_run = this
  show ?thesis
    unfolding dispatch_def
    by (rule runs_bndI, rule runs_mono [OF del], elim conjE, rule then_run)
qed

lemma reap_inv:
  assumes inv: "sched_inv s L" and n: "counts_ok s L (naps s)" and st: "starts_ok (Pre s) s"
    and J: "J s (parked s L)" and run: "taskrunning s = Some t"
    and x: "tasks s t = Some x" "exiting x"
    and r: "reap_post t x (s\<lparr>taskrunning := None\<rparr>) s'"
  shows "Inv s' L" and "taskrunning s' = None" and "sched.more s' = sched.more s"
proof -
  have nq: "\<not> queued L t" using inv x by (auto simp: sched_inv_def)
  have s': "s' = s\<lparr>taskrunning := None, tasks := tasks s', alltask := alltask s',
      nalltask := nalltask s', taskcount := taskcount s'\<rparr>"
    using r by (auto simp: reap_post_def)
  show none: "taskrunning s' = None" by (subst s') simp
  show more: "sched.more s' = sched.more s" by (subst s') simp
  have lists: "lists s' = lists s" "brk s' = brk s" by (subst s', simp)+
  have keep: "\<exists>i. tasks s' p = Some (y\<lparr>alltaskslot := i\<rparr>)" if "p \<noteq> t" "tasks s p = Some y" for p y
    using r that by (simp add: reap_post_def)
  have dom: "dom (tasks s') = dom (tasks s) - {t}" using r by (simp add: reap_post_def)
  have "queues_ok s' L"
    unfolding queues_ok_def
  proof (intro conjI allI impI)
    show "tlist (tasks s') (lists s' q) (L q)" for q
    proof (rule tlist_cong)
      show "tlist (tasks s) (lists s' q) (L q)"
        using inv lists by (simp add: sched_inv_def queues_ok_def)
      show "\<exists>u. tasks s' p = Some u \<and> tnext u = tnext y \<and> tprev u = tprev y"
        if p: "p \<in> set (L q)" "tasks s p = Some y" for p y
      proof -
        have "p \<noteq> t" using p nq by (auto simp: queued_def)
        from keep [OF this p(2)] show ?thesis by auto
      qed
    qed
    show "q = q'" if "p \<in> set (L q) \<and> p \<in> set (L q')" for q q' p
      using inv that queues_once by (auto simp: sched_inv_def)
  qed
  moreover have "\<not> exiting y" if "tasks s' p = Some y" for p y
  proof -
    have "p \<noteq> t" "p \<in> dom (tasks s)" using that dom by auto
    then obtain z where z: "tasks s p = Some z" "p \<noteq> t" by auto
    then have "\<not> exiting z" using inv run by (auto simp: sched_inv_def)
    with keep [OF z(2,1)] that show ?thesis by auto
  qed
  moreover have "parked s L \<subseteq> parked s' L"
    using dom none run by (auto simp: parked_def)
  moreover have "counts_ok s' L (naps s')"
  proof -
    have ut: "user_tasks s' = user_tasks s - {t}"
      and tc: "taskcount s' = taskcount s - (if tsystem x then 0 else 1)"
      using r by (auto simp: reap_post_def user_tasks_def)
    have fin: "finite (user_tasks s)" using inv finite_user_tasks by (auto simp: sched_inv_def)
    have away: "t \<notin> set (L Sleeping)" using nq by (auto simp: queued_def)
    have nap: "nappers s' L = nappers s L" using away by (auto simp: nappers_def ut)
    have "alarm s' p = alarm s p" if p: "p \<in> set (L Sleeping)" for p
    proof -
      obtain y where y: "tasks s p = Some y"
        using queued_live [of s L p] inv p by (auto simp: sched_inv_def queued_def)
      moreover have "p \<noteq> t" using p away by blast
      ultimately show ?thesis using keep [of p y] by (auto simp: alarm_def)
    qed
    then have "map (alarm s') (L Sleeping) = map (alarm s) (L Sleeping)" by simp
    then have rest: "naps s' = int (card (nappers s' L)) \<and> sorted (map (alarm s') (L Sleeping))"
      using n by (simp add: counts_ok_def nap naps_more [OF more] del: map_eq_conv)
    have tc0: "taskcount s = int (card (user_tasks s)) + (if naps s' = 0 then 0 else 1)"
      using n by (simp add: counts_ok_def naps_more [OF more])
    have "taskcount s' = int (card (user_tasks s')) + (if naps s' = 0 then 0 else 1)"
    proof (cases "tsystem x")
      case True
      then have "t \<notin> user_tasks s" using x by (auto simp: user_tasks_def)
      then show ?thesis using True tc0 ut tc by simp
    next
      case False
      then have t: "t \<in> user_tasks s" using x by (auto simp: user_tasks_def)
      then have "card (user_tasks s) = Suc (card (user_tasks s - {t}))"
        using fin by (rule card.remove [rotated])
      then show ?thesis using False tc0 ut tc by simp
    qed
    then show ?thesis using rest by (simp add: counts_ok_def)
  qed
  moreover have "starts_ok (Pre s') s'"
  proof (rule starts_same [OF st])
    show "Pre s f a \<Longrightarrow> Pre s' f a" for f a by (rule Pre_more [OF more])
    fix p y
    assume y: "tasks s' p = Some y"
    then have "p \<noteq> t" "p \<in> dom (tasks s)" using dom by auto
    then obtain z where z: "tasks s p = Some z" "p \<noteq> t" by auto
    with keep [OF z(2,1)] y
    show "\<exists>u. tasks s p = Some u \<and> startfn u = startfn y \<and> startarg u = startarg y" by auto
  qed
  ultimately show "Inv s' L"
    using inv r J J_more [OF _ more] J_mono lists dom
    by (auto simp: Inv_def sched_inv_def reap_post_def fresh_ok_def)
qed

lemma retire_runs:
  assumes stop: "Stop t s"
  shows "runs (retire t) s (\<lambda>gone s'. (\<exists>L. Inv s' L) \<and> taskrunning s' = None \<and>
    sched.more s' = sched.more s \<and> gone = (\<exists>x. tasks s t = Some x \<and> exiting x))"
proof -
  let ?s = "s\<lparr>taskrunning := None\<rparr>"
  obtain L x where inv: "sched_inv s L" "counts_ok s L (naps s)" "starts_ok (Pre s) s"
    and J: "J s (parked (if exiting x then s else ?s) L)"
    and run: "taskrunning s = Some t" and x: "tasks s t = Some x"
    using stop by (auto simp: Stop_def)
  show ?thesis
  proof (cases "exiting x")
    case True
    have "alltask_ok ?s"
      by (rule alltask_ok_cong [of s]) (use inv in \<open>auto simp: sched_inv_def slot_def\<close>)
    from reap_spec [OF this, of t x] x have "runs (reap t) ?s (\<lambda>_. reap_post t x ?s)" by simp
    then have "runs (reap t) ?s (\<lambda>_ s'. (\<exists>L. Inv s' L) \<and> taskrunning s' = None \<and>
        sched.more s' = sched.more s)"
    proof (rule runs_mono)
      fix s'
      assume "reap_post t x ?s s'"
      from reap_inv [OF inv _ run x True this] J True
      show "(\<exists>L. Inv s' L) \<and> taskrunning s' = None \<and> sched.more s' = sched.more s" by auto
    qed
    then show ?thesis using x True by (simp add: retire_def runs_bnd)
  next
    case False
    have "queues_ok ?s L" "alltask_ok ?s" "user_tasks ?s = user_tasks s"
      using inv by (auto simp: sched_inv_def queues_ok_def alltask_ok_def slot_def user_tasks_def)
    moreover have "counts_ok ?s L (naps ?s)"
      using counts_same [OF inv(2), of ?s L] naps_more [of ?s s] by (simp add: user_tasks_def alarm_def)
    moreover have "starts_ok (Pre ?s) ?s"
      by (rule starts_same [OF inv(3)]) (use Pre_more [of ?s s] in simp_all)
    moreover have "J s (parked ?s L)" using J False by simp
    moreover have "\<not> exiting y" if "tasks s p = Some y" for p y
      using that inv run x False by (auto simp: sched_inv_def)
    ultimately have "Inv ?s L"
      using inv J_more [of s _ ?s]
      by (auto simp: Inv_def sched_inv_def fresh_ok_def)
    then show ?thesis using x False by (auto simp: retire_def runs_bnd)
  qed
qed

text \<open>One round: the invariant holds again, or the process ended, not by a bad access.\<close>

lemma sched_round_safe:
  assumes code: "code_safe code" and inv: "Inv s L" and none: "taskrunning s = None"
    and K: "conts_safe K s"
  shows "(\<exists>K' s'. sched_round code K s = Ret K' s' \<and> (\<exists>L'. Inv s' L') \<and>
             taskrunning s' = None \<and> conts_safe K' s') \<or>
         (\<exists>e s'. sched_round code K s = Halt e s' \<and> e \<noteq> BadMem)"
proof (cases "taskcount s = 0 \<or> L RunQueue = []")
  case True
  moreover have "head (lists s RunQueue) = hd_opt (L RunQueue)"
    using inv by (auto simp: Inv_def sched_inv_def queues_ok_def tlist_def)
  ultimately show ?thesis
    by (auto simp: sched_round_def bnd_def sem_simps)
next
  case False
  then obtain t ts where hd: "L RunQueue = t # ts" by (auto simp: neq_Nil_conv)
  have h: "head (lists s RunQueue) = Some t"
    using inv hd by (auto simp: Inv_def sched_inv_def queues_ok_def tlist_def)
  obtain s1 where s1: "dispatch t s = Ret () s1" "Run t s1" "sched.more s1 = sched.more s"
    using dispatch_runs [OF inv none hd] by (auto simp: runs_def)
  define r where "r = (case K t of None \<Rightarrow> taskstart code t | Some k \<Rightarrow> k) s1"
  have safe: "safe_for t (\<lambda>_ _ _. False) r s1"
    using taskstart_safe [OF code s1(2)] K s1 Keep_more [OF s1(3)]
    by (auto simp: r_def conts_safe_def cont_safe_def split: option.splits)
  have round: "sched_round code K s =
      bnd (contextswitch code K t) (\<lambda>k. bnd (retire t) (\<lambda>gone.
        ret (if gone then K(t := None) else K(t \<mapsto> k)))) s1"
    using False h s1(1) by (simp add: sched_round_alt bnd_def [of "get _"] get_def)
  show ?thesis
  proof (cases r)
    case (Ret a s2)
    with safe show ?thesis by (simp add: safe_for_def)
  next
    case (Halt e s2)
    with safe have "e \<noteq> BadMem" by (simp add: safe_for_def)
    with Halt round show ?thesis by (simp add: contextswitch_def r_def bnd_def)
  next
    case (Switch s2 k)
    with safe have stop: "Stop t s2" "Others t s1 s2"
      and k: "Resume t s2 s' \<Longrightarrow> safe_for t (\<lambda>_ _ _. False) (k s') s'" for s'
      by (simp_all add: safe_for_def)
    define gone where "gone = (\<exists>x. tasks s2 t = Some x \<and> exiting x)"
    obtain s3 L3 where s3: "retire t s2 = Ret gone s3" "Inv s3 L3" "taskrunning s3 = None"
      "sched.more s3 = sched.more s2"
      using retire_runs [OF stop(1)] by (auto simp: runs_def gone_def)
    let ?K = "if gone then K(t := None) else K(t \<mapsto> k)"
    have "cont_safe u s3 k'" if "?K u = Some k'" for u k'
    proof (cases "u = t")
      case True
      with that have "k' = k" and "\<not> gone" by (auto split: if_splits)
      moreover have "Keep t s2 s'" if "Keep t s3 s'" for s'
        using that Keep_more [OF s3(4)] Keep_trans by blast
      moreover have "t \<in> dom (tasks s2)" using stop(1) by (auto simp: Stop_def)
      ultimately show ?thesis
        using True k by (auto simp: cont_safe_def Resume_def gone_def)
    next
      case False
      with that have "K u = Some k'" by (auto split: if_splits)
      moreover have "Keep u s s1" "Keep u s1 s2" "Keep u s2 s3"
        using Keep_more s1(3) s3(4) stop(2) False by (auto simp: Others_def)
      ultimately show ?thesis
        using K cont_safe_later Keep_trans unfolding conts_safe_def by blast
    qed
    then have "conts_safe ?K s3" by (simp add: conts_safe_def)
    moreover have "sched_round code K s = Ret ?K s3"
      using Switch round s3(1) by (simp add: contextswitch_def r_def bnd_def ret_def)
    ultimately show ?thesis using s3 by blast
  qed
qed

text \<open>For ever.\<close>

lemma taskscheduler_safe:
  assumes "code_safe code" and "Inv s L" and "taskrunning s = None" and "conts_safe K s"
  shows "(\<exists>K' s'. taskscheduler code n K s = Ret K' s' \<and> (\<exists>L'. Inv s' L') \<and>
             taskrunning s' = None \<and> conts_safe K' s') \<or>
         (\<exists>e s'. taskscheduler code n K s = Halt e s' \<and> e \<noteq> BadMem)"
  using assms(2-)
proof (induction n arbitrary: K s L)
  case 0
  then show ?case by (auto simp: ret_def)
next
  case (Suc n)
  from sched_round_safe [OF assms(1) Suc.prems] show ?case
  proof (elim disjE exE conjE)
    fix K' s' L'
    assume "sched_round code K s = Ret K' s'" "Inv s' L'" "taskrunning s' = None" "conts_safe K' s'"
    then show ?thesis using Suc.IH by (simp add: bnd_def)
  next
    fix e s'
    assume "sched_round code K s = Halt e s'" "e \<noteq> BadMem"
    then show ?thesis by (simp add: bnd_def)
  qed
qed

end

end
