(* ===== verification/Calls.thy ===== *)
theory Calls
  imports Safety
begin

text \<open>
  The calls of task.c as the code of a task uses them: each keeps the invariant of the scheduler,
  so that code composed of them is safe. The lemma \<open>Inv_calm\<close> carries all of them: the invariant
  looks at few fields of a task, and the list operations write none of these.
\<close>

section \<open>Moving a task between lists\<close>

text \<open>A waiting list hands its first task to the run queue: the step of every wakeup.\<close>

definition hand_over :: "lptr \<Rightarrow> tptr \<Rightarrow> ('z sched_scheme, unit) prog" where
  "hand_over q t = bnd (deltask q t) (\<lambda>_. taskready t)"

abbreviation moved :: "lptr \<Rightarrow> tptr \<Rightarrow> queues \<Rightarrow> queues" where
  "moved q t L \<equiv> (L(q := remove1 t (L q)))(RunQueue := L RunQueue @ [t])"

lemma relinked_mark_ready:
  assumes "relinked s s'"
  shows "relinked (mark_ready t s) (mark_ready t s')"
proof -
  obtain h ls where s': "s' = s\<lparr>tasks := h, lists := ls\<rparr>"
    and h: "\<And>p. map_option unlink (h p) = map_option unlink (tasks s p)"
    using assms by (blast elim: relinkedE)
  have u: "unlink (x\<lparr>tready := True\<rparr>) = (unlink x)\<lparr>tready := True\<rparr>" for x
    by (simp add: unlink_def)
  have "map_option unlink (map_option (\<lambda>x. x\<lparr>tready := True\<rparr>) v) =
      map_option (\<lambda>x. x\<lparr>tready := True\<rparr>) (map_option unlink v)" for v
    by (cases v) (simp_all add: u)
  then show ?thesis
    by (simp add: relinked_def mark_ready_def s' h)
qed

lemma hand_over_spec:
  assumes ok: "queues_ok s L" and t: "t \<in> set (L q)" and q: "q \<noteq> RunQueue"
  shows "runs (hand_over q t) s
    (\<lambda>_ s'. queues_ok s' (moved q t L) \<and> relinked (mark_ready t s) s')"
proof -
  have live: "t \<in> dom (tasks s)" using queued_live [OF ok] t by (auto simp: queued_def)
  have "runs (taskready t) s1 (\<lambda>_ s'. queues_ok s' (moved q t L) \<and> relinked (mark_ready t s) s')"
    if q1: "queues_ok s1 (L(q := remove1 t (L q)))" and r: "relinked s s1" for s1
  proof -
    have "distinct (L q)" using queues_tlist [OF ok, of q] by (simp add: tlist_def)
    then have "\<not> queued (L(q := remove1 t (L q))) t"
      using queues_once [OF ok t] by (auto simp: queued_def)
    moreover have "t \<in> dom (tasks s1)" using live relinked_dom [OF r] by simp
    ultimately have "runs (taskready t) s1
        (\<lambda>_ s'. queues_ok s' (moved q t L) \<and> relinked (mark_ready t s1) s')"
      using taskready_spec [OF q1, of t] q by simp
    moreover note relinked_mark_ready [OF r, of t]
    ultimately show ?thesis by (auto elim!: runs_mono intro: relinked_trans)
  qed
  note this_step = this
  show ?thesis
    unfolding hand_over_def
    by (rule runs_bndI, rule runs_mono [OF deltask_spec [OF ok t]], elim conjE, rule this_step)
qed

lemma queued_upd: "queued (L(q := xs)) p \<longleftrightarrow> p \<in> set xs \<or> (\<exists>q'. q' \<noteq> q \<and> p \<in> set (L q'))"
  unfolding queued_def by (metis fun_upd_apply)

lemma queued_moved:
  assumes "t \<in> set (L q)" and "q \<noteq> RunQueue"
  shows "queued (moved q t L) p \<longleftrightarrow> queued L p"
proof (cases "p = t")
  case True
  with assms show ?thesis by (auto simp: queued_def)
next
  case False
  then have "p \<in> set (moved q t L q') \<longleftrightarrow> p \<in> set (L q')" for q'
    using assms by (auto simp: in_set_remove1)
  then show ?thesis unfolding queued_def by blast
qed

section \<open>States the invariant does not tell apart\<close>

definition vital :: "task \<Rightarrow> (bool \<times> nat \<times> bool) \<times> uvlong \<times> nat \<times> uint" where
  "vital x = ((exiting x, alltaskslot x, tsystem x), alarmtime x, startfn x, startarg x)"

definition calm :: "'z sched_scheme \<Rightarrow> 'z sched_scheme \<Rightarrow> bool" where
  "calm s s' \<longleftrightarrow>
     (\<forall>p. map_option vital (tasks s' p) = map_option vital (tasks s p)) \<and>
     alltask s' = alltask s \<and> nalltask s' = nalltask s \<and> taskcount s' = taskcount s \<and>
     brk s' = brk s \<and> taskrunning s' = taskrunning s"

lemma calm_refl [simp]: "calm s s"
  by (simp add: calm_def)

lemma calm_trans: "calm s s' \<Longrightarrow> calm s' s'' \<Longrightarrow> calm s s''"
  by (simp add: calm_def)

lemma relinked_calm: "relinked s s' \<Longrightarrow> calm s s'"
  by (auto simp: calm_def relinked_same vital_def intro!: relinked_field [of s s'] dest: unlink_eqD)

lemma mark_ready_calm [simp]: "calm s (mark_ready t s)"
  by (auto simp: calm_def mark_ready_def vital_def map_option_case split: option.splits)

lemma ready_calm: "relinked (mark_ready t s) s' \<Longrightarrow> calm s s'"
  using calm_trans [OF mark_ready_calm relinked_calm] .

lemma relinked_more: "relinked s s' \<Longrightarrow> sched.more s' = sched.more s"
  by (auto elim!: relinkedE)

lemma ready_more: "relinked (mark_ready t s) s' \<Longrightarrow> sched.more s' = sched.more s"
  by (drule relinked_more) (simp add: mark_ready_def)

lemma calm_mod:
  "tasks s p = Some x \<Longrightarrow> vital y = vital x \<Longrightarrow> calm s (s\<lparr>tasks := (tasks s)(p \<mapsto> y)\<rparr>)"
  by (simp add: calm_def)

lemma calm_dom: "calm s s' \<Longrightarrow> dom (tasks s') = dom (tasks s)"
  by (auto simp: calm_def dom_def) (metis map_option_is_None option.exhaust)+

lemma calm_task:
  assumes "calm s s'" and "tasks s p = Some x"
  obtains y where "tasks s' p = Some y" and "exiting y = exiting x" "alltaskslot y = alltaskslot x"
    "tsystem y = tsystem x"
proof -
  from assms have "map_option vital (tasks s' p) = Some (vital x)"
    by (simp add: calm_def)
  then show ?thesis by (auto simp: vital_def intro: that)
qed

lemma calm_back:
  assumes "calm s s'" and "tasks s' p = Some y"
  obtains x where "tasks s p = Some x" and "exiting y = exiting x" "alltaskslot y = alltaskslot x"
    "tsystem y = tsystem x"
proof -
  from assms have "map_option vital (tasks s p) = Some (vital y)"
    unfolding calm_def by (metis option.map(2))
  then show ?thesis by (auto simp: vital_def intro: that)
qed

lemma calm_slot: "calm s s' \<Longrightarrow> slot s' = slot s"
proof
  fix p
  assume c: "calm s s'"
  have "slot z p = map_option (fst \<circ> snd \<circ> fst) (map_option vital (tasks z p))" for z :: "'a sched_scheme"
    by (auto simp: slot_def vital_def option.map_comp comp_def)
  with c show "slot s' p = slot s p" by (simp add: calm_def)
qed

lemma calm_user_tasks: "calm s s' \<Longrightarrow> user_tasks s' = user_tasks s"
  by (auto simp: user_tasks_def elim: calm_task calm_back)

lemma calm_alarm: "calm s s' \<Longrightarrow> alarm s' p = alarm s p"
proof (rule alarm_eq)
  assume c: "calm s s'"
  have "map_option alarmtime v = map_option (fst \<circ> snd) (map_option vital v)" for v
    by (cases v) (simp_all add: vital_def)
  then show "map_option alarmtime (tasks s' p) = map_option alarmtime (tasks s p)"
    using c unfolding calm_def by metis
qed

lemma calm_starts:
  assumes "starts_ok P s" and c: "calm s s'" and "\<And>f a. P f a \<Longrightarrow> P' f a"
  shows "starts_ok P' s'"
proof (rule starts_same [OF assms(1,3)])
  fix p x
  assume "tasks s' p = Some x"
  then have "map_option vital (tasks s p) = Some (vital x)" using c unfolding calm_def by (metis option.map(2))
  then show "\<exists>y. tasks s p = Some y \<and> startfn y = startfn x \<and> startarg y = startarg x"
    by (auto simp: vital_def)
qed

lemma calm_counts_ok:
  "counts_ok s L n \<Longrightarrow> calm s s' \<Longrightarrow> L' Sleeping = L Sleeping \<Longrightarrow> counts_ok s' L' n"
  using counts_same [of s L n s' L'] calm_user_tasks [of s s'] calm_alarm [of s s']
  by (simp add: calm_def)

lemma calm_sched_inv:
  assumes inv: "sched_inv s L" and c: "calm s s'" and q: "queues_ok s' L'"
    and ex: "\<And>p x. tasks s p = Some x \<Longrightarrow> exiting x \<Longrightarrow> \<not> queued L' p"
  shows "sched_inv s' L'"
proof -
  have "alltask_ok s'"
    by (rule alltask_ok_cong [of s])
      (use inv c calm_slot [OF c] in \<open>auto simp: sched_inv_def calm_def\<close>)
  moreover have "fresh_ok s'"
    using inv calm_dom [OF c] c by (auto simp: sched_inv_def fresh_ok_def calm_def)
  moreover have "taskrunning s' = Some p \<and> \<not> queued L' p" if "tasks s' p = Some y" "exiting y" for p y
    using calm_back [OF c that(1)] that(2) inv ex c by (metis sched_inv_def calm_def)
  ultimately show ?thesis using q by (simp add: sched_inv_def)
qed

section \<open>Rules for the calls\<close>

lemma calm_parked:
  assumes "calm s s'" and "\<And>p. queued L' p \<Longrightarrow> queued L p"
  shows "parked s L \<subseteq> parked s' L'"
  using assms calm_dom [OF assms(1)] by (auto simp: parked_def calm_def)

lemma vsnprintp_text:
  "CHR ''%'' \<notin> set fmt \<Longrightarrow> 0 < unat n \<Longrightarrow>
   vsnprintp n fmt args s = Ret (take (unat n - 1) fmt) s"
  by (simp add: vsnprintp_def vsnprint_def vseprint_literal get_def ret_def bnd_def)

lemma vsnprintp_cases:
  assumes "0 < unat n"
  obtains str where "vsnprintp n fmt args s = Ret str s" "length str < unat n"
    "vsnprint (prt s) n fmt args = Inr str"
  | "vsnprintp n fmt args s = Halt BadMem s"
  using vseprint_bounds [OF assms, of "prt s" fmt args]
  by (auto simp: vsnprintp_def vsnprint_def get_def ret_def halt_def bnd_def)

lemma runs_taskstate_text [simp]:
  "CHR ''%'' \<notin> set fmt \<Longrightarrow> runs (taskstate fmt args) s P \<longleftrightarrow>
     (\<exists>p x. taskrunning s = Some p \<and> tasks s p = Some x \<and>
        P () (s\<lparr>tasks := (tasks s)(p \<mapsto> x\<lparr>tstate := take 255 fmt\<rparr>)\<rparr>))"
  by (auto simp: taskstate_def runs_bnd runs_def [of "vsnprintp _ _ _"] vsnprintp_text)

lemma runs_taskname_text [simp]:
  "CHR ''%'' \<notin> set fmt \<Longrightarrow> runs (taskname fmt args) s P \<longleftrightarrow>
     (\<exists>p x. taskrunning s = Some p \<and> tasks s p = Some x \<and>
        P () (s\<lparr>tasks := (tasks s)(p \<mapsto> x\<lparr>tname := take 255 fmt\<rparr>)\<rparr>))"
  by (auto simp: taskname_def runs_bnd runs_def [of "vsnprintp _ _ _"] vsnprintp_text)

text \<open>Putting the running task into a list and naming its state, the way into every wait.\<close>

lemma calm_tstate:
  "calm s s1 \<Longrightarrow> tasks s1 p = Some x \<Longrightarrow> calm s (s1\<lparr>tasks := (tasks s1)(p \<mapsto> x\<lparr>tstate := str\<rparr>)\<rparr>)"
  by (rule calm_trans, assumption, rule calm_mod) (simp_all add: vital_def)

lemma wait_on_spec:
  assumes q: "queues_ok s L" and t: "taskrunning s = Some t" "t \<in> dom (tasks s)" "\<not> queued L t"
    and fmt: "CHR ''%'' \<notin> set fmt"
  shows "runs (bnd (addtask q t) (\<lambda>_. taskstate fmt args)) s
    (\<lambda>_ s'. queues_ok s' (L(q := L q @ [t])) \<and> calm s s' \<and> sched.more s' = sched.more s)"
proof (rule runs_bndI, rule runs_mono [OF addtask_spec [OF q t(2,3), of q]], elim conjE)
  fix s1
  assume q1: "queues_ok s1 (L(q := L q @ [t]))" and r: "relinked s s1"
  have run: "taskrunning s1 = Some t" using t(1) relinked_same [OF r] by simp
  obtain x where x: "tasks s1 t = Some x" using t(2) relinked_dom [OF r] by (metis domD)
  show "runs (taskstate fmt args) s1
    (\<lambda>_ s'. queues_ok s' (L(q := L q @ [t])) \<and> calm s s' \<and> sched.more s' = sched.more s)"
    using fmt run x q1 calm_tstate [OF relinked_calm [OF r] x] relinked_more [OF r] by simp
qed

lemma queued_snoc: "queued (L(q := L q @ [t])) p \<Longrightarrow> queued L p \<or> p = t"
  by (auto simp: queued_def split: if_splits)

lemma head_hd: "queues_ok s L \<Longrightarrow> head (lists s q) = hd_opt (L q)"
  using queues_tlist [of s L q] by (simp add: tlist_def)

text \<open>The state in which a task that has to wait gives up the CPU.\<close>

definition waits_on :: "lptr \<Rightarrow> queues \<Rightarrow> tptr \<Rightarrow> 'z sched_scheme \<Rightarrow> 'z sched_scheme \<Rightarrow> bool" where
  "waits_on q L t s s' \<longleftrightarrow>
     queues_ok s' (L(q := L q @ [t])) \<and> calm s s' \<and> sched.more s' = sched.more s"

lemma wait_Switch:
  assumes q: "queues_ok s L" and t: "taskrunning s = Some t" "t \<in> dom (tasks s)" "\<not> queued L t"
    and fmt: "CHR ''%'' \<notin> set fmt"
    and m: "m s = bnd (bnd (addtask q t) (\<lambda>_. taskstate fmt [])) (\<lambda>_. bnd taskswitch f) s"
  shows "(\<exists>s'. m s = Switch s' (f ()) \<and> waits_on q L t s s') \<or> (\<exists>s'. m s = Halt Abort s')"
proof -
  from wait_on_spec [OF q t fmt, of q "[]"] obtain s' where s':
    "bnd (addtask q t) (\<lambda>_. taskstate fmt []) s = Ret () s'" "waits_on q L t s s'"
    by (auto simp: runs_def waits_on_def)
  then have run: "taskrunning s' = Some t" and "t \<in> dom (tasks s')"
    using t calm_dom [of s s'] by (auto simp: waits_on_def calm_def)
  then obtain x where "tasks s' t = Some x" by blast
  then have "taskswitch s' = Halt Abort s' \<or> taskswitch s' = Switch s' (ret ())"
    using run by (simp add: taskswitch_def needstack_def running_def bnd_def deref_def load_task_def
        sem_simps)
  then show ?thesis
    using s' by (auto simp: m bnd_def [of taskswitch] ret_def)
qed

text \<open>A task that is on the CPU and in no list.\<close>

definition on_cpu :: "tptr \<Rightarrow> 'z sched_scheme \<Rightarrow> bool" where
  "on_cpu t s \<longleftrightarrow>
     taskrunning s = Some t \<and> (\<exists>L. queues_ok s L \<and> t \<in> dom (tasks s) \<and> \<not> queued L t)"

lemma queues_unique: "queues_ok s L \<Longrightarrow> queues_ok s L' \<Longrightarrow> L = L'"
  by (rule ext) (rule tlist_unique [OF queues_tlist queues_tlist])

lemma on_cpuD:
  assumes "on_cpu t s" and "queues_ok s L"
  shows "taskrunning s = Some t" "t \<in> dom (tasks s)" "\<not> queued L t"
  using assms queues_unique unfolding on_cpu_def by blast+

section \<open>Loops that empty a waiting list\<close>

text \<open>The tasks of a set, marked ready.\<close>

definition woken :: "tptr set \<Rightarrow> 'z sched_scheme \<Rightarrow> 'z sched_scheme" where
  "woken A s = s\<lparr>tasks := (\<lambda>p. if p \<in> A then map_option (\<lambda>x. x\<lparr>tready := True\<rparr>) (tasks s p)
     else tasks s p)\<rparr>"

lemma mark_ready_woken: "mark_ready t s = woken {t} s"
  by (auto simp: mark_ready_def woken_def fun_eq_iff)

lemma woken_woken: "woken A (woken B s) = woken (A \<union> B) s"
  by (auto simp: woken_def fun_eq_iff option.map_comp comp_def)

lemma relinked_woken:
  assumes "relinked s s'"
  shows "relinked (woken A s) (woken A s')"
proof -
  obtain h ls where s': "s' = s\<lparr>tasks := h, lists := ls\<rparr>"
    and h: "\<And>p. map_option unlink (h p) = map_option unlink (tasks s p)"
    using assms by (blast elim: relinkedE)
  have u: "unlink (x\<lparr>tready := True\<rparr>) = (unlink x)\<lparr>tready := True\<rparr>" for x
    by (simp add: unlink_def)
  have "map_option unlink (map_option (\<lambda>x. x\<lparr>tready := True\<rparr>) v) =
      map_option (\<lambda>x. x\<lparr>tready := True\<rparr>) (map_option unlink v)" for v
    by (cases v) (simp_all add: u)
  then show ?thesis
    by (simp add: relinked_def woken_def s' h)
qed

lemma woken_calm [simp]: "calm s (woken A s)"
  by (auto simp: calm_def woken_def vital_def map_option_case split: option.splits)

text \<open>
  A change \<open>F\<close> of the lock or rendezvous point a list belongs to: it does not see the lists, so it
  may happen between the removal of a task and its \<open>taskready\<close>.
\<close>

locale framed =
  fixes F :: "'z sched_scheme \<Rightarrow> 'z sched_scheme"
  assumes frame: "F (s\<lparr>tasks := h, lists := ls\<rparr>) = (F s)\<lparr>tasks := h, lists := ls\<rparr>"
    and keeps: "tasks (F s) = tasks s" "lists (F s) = lists s"
begin

lemma relinked_F: "relinked s s' \<Longrightarrow> relinked (F s) (F s')"
  by (auto elim!: relinkedE simp: frame) (simp add: relinked_def keeps)

lemma F_woken: "F (woken A s) = woken A (F s)"
proof -
  have "F (woken A s) = F (s\<lparr>tasks := tasks (woken A s), lists := lists s\<rparr>)"
    by (simp add: woken_def)
  also have "\<dots> = (F s)\<lparr>tasks := tasks (woken A s), lists := lists s\<rparr>"
    by (rule frame)
  also have "\<dots> = woken A (F s)"
    by (rule sched.equality) (simp_all add: woken_def keeps cong: if_cong)
  finally show ?thesis .
qed

lemma F_queues: "queues_ok (F s) L = queues_ok s L"
  by (simp add: queues_ok_def keeps)

lemma hand_over_with:
  assumes ok: "queues_ok s L" and t: "t \<in> set (L q)" and q: "q \<noteq> RunQueue"
  shows "runs (bnd (deltask q t) (\<lambda>_. bnd (upd F) (\<lambda>_. taskready t))) s
    (\<lambda>_ s'. queues_ok s' (moved q t L) \<and> relinked (woken {t} (F s)) s')"
proof -
  have live: "t \<in> dom (tasks s)" using queued_live [OF ok] t by (auto simp: queued_def)
  have "distinct (L q)" using queues_tlist [OF ok, of q] by (simp add: tlist_def)
  then have free: "\<not> queued (L(q := remove1 t (L q))) t"
    using queues_once [OF ok t] by (auto simp: queued_def)
  have "runs (bnd (upd F) (\<lambda>_. taskready t)) s1
      (\<lambda>_ s'. queues_ok s' (moved q t L) \<and> relinked (woken {t} (F s)) s')"
    if q1: "queues_ok s1 (L(q := remove1 t (L q)))" and r: "relinked s s1" for s1
  proof -
    have "t \<in> dom (tasks (F s1))" using live relinked_dom [OF r] by (simp add: keeps)
    moreover have "queues_ok (F s1) (L(q := remove1 t (L q)))" using q1 by (simp only: F_queues)
    ultimately have "runs (taskready t) (F s1)
        (\<lambda>_ s'. queues_ok s' (moved q t L) \<and> relinked (woken {t} (F s1)) s')"
      using taskready_spec [of "F s1" "L(q := remove1 t (L q))" t] free q by (simp add: mark_ready_woken)
    moreover note relinked_woken [OF relinked_F [OF r], of "{t}"]
    ultimately show ?thesis by (auto simp: runs_bnd elim!: runs_mono intro: relinked_trans)
  qed
  note this_step = this
  show ?thesis
    by (rule runs_bndI, rule runs_mono [OF deltask_spec [OF ok t]], elim conjE, rule this_step)
qed

end

text \<open>
  The interface of a loop that empties a list: it ends when the list is empty, otherwise its body
  moves the head to the run queue and makes the change \<open>F\<close>. \<open>tick\<close> is the change of a loop
  counter.
\<close>

locale waking = framed F
  for F :: "'z sched_scheme \<Rightarrow> 'z sched_scheme" +
  fixes q :: lptr
    and tick :: "'b \<Rightarrow> 'b"
    and body :: "tptr \<Rightarrow> ('z sched_scheme, unit) prog"
    and loop :: "nat \<Rightarrow> 'b \<Rightarrow> ('z sched_scheme, 'b) prog"
  assumes other: "q \<noteq> RunQueue"
    and stop: "head (lists s q) = None \<Longrightarrow> loop (Suc n) i s = Ret i s"
    and go: "head (lists s q) = Some t \<Longrightarrow>
      loop (Suc n) i s = bnd (body t) (\<lambda>_. loop n (tick i)) s"
    and body: "queues_ok s L \<Longrightarrow> L q = t # ts \<Longrightarrow>
      runs (body t) s (\<lambda>_ s'. queues_ok s' (moved q t L) \<and> relinked (woken {t} (F s)) s')"
begin

lemma pow_frame:
  "relinked s s' \<Longrightarrow> relinked ((F ^^ n) s) ((F ^^ n) s')" "(F ^^ n) (woken A s) = woken A ((F ^^ n) s)"
  by (induction n) (simp_all add: relinked_F F_woken)

lemma drains:
  assumes "queues_ok s L" and "length (L q) < n"
  shows "runs (loop n i) s (\<lambda>j s'. j = (tick ^^ length (L q)) i \<and>
    queues_ok s' (L(q := [], RunQueue := L RunQueue @ L q)) \<and>
    relinked (woken (set (L q)) ((F ^^ length (L q)) s)) s')"
  using assms
proof (induction "L q" arbitrary: s L n i)
  case Nil
  then have same: "L(q := [], RunQueue := L RunQueue @ L q) = L" and "0 < n"
    by (auto simp: fun_eq_iff)
  moreover from Nil have "loop n i s = Ret i s"
    using head_hd [of s L q] stop by (cases n) auto
  ultimately show ?case
    unfolding same using Nil by (simp add: runs_def woken_def)
next
  case (Cons t ts)
  let ?L = "moved q t L"
  have Lq: "L q = t # ts" using Cons(2) by simp
  obtain m where n: "n = Suc m" "length ts < m" using Cons.prems(2) Lq by (cases n) auto
  have L1: "?L q = ts" "?L(q := [], RunQueue := ?L RunQueue @ ts) = L(q := [], RunQueue := L RunQueue @ L q)"
    using Lq other by (auto simp: fun_eq_iff)
  have "head (lists s q) = Some t" using head_hd [OF Cons.prems(1)] Lq by simp
  then have l: "loop n i s = bnd (body t) (\<lambda>_. loop m (tick i)) s" using go n by simp
  have "runs (loop m (tick i)) s1 (\<lambda>j s'. j = (tick ^^ length (L q)) i \<and>
      queues_ok s' (L(q := [], RunQueue := L RunQueue @ L q)) \<and>
      relinked (woken (set (L q)) ((F ^^ length (L q)) s)) s')"
    if q1: "queues_ok s1 ?L" and r: "relinked (woken {t} (F s)) s1" for s1
  proof (rule runs_mono [OF Cons(1) [of ?L s1 m "tick i"]])
    show "ts = ?L q" "queues_ok s1 ?L" "length (?L q) < m" using L1 q1 n by auto
    fix j s'
    let ?k = "length ts"
    assume post: "j = (tick ^^ length (?L q)) (tick i) \<and>
      queues_ok s' (?L(q := [], RunQueue := ?L RunQueue @ ?L q)) \<and>
      relinked (woken (set (?L q)) ((F ^^ length (?L q)) s1)) s'"
    have "relinked (woken (set ts) ((F ^^ ?k) (woken {t} (F s)))) (woken (set ts) ((F ^^ ?k) s1))"
      by (intro relinked_woken pow_frame r)
    then have "relinked (woken (set (L q)) ((F ^^ length (L q)) s)) (woken (set ts) ((F ^^ ?k) s1))"
      using Lq by (simp add: pow_frame woken_woken funpow_swap1 Un_commute)
    then have "relinked (woken (set (L q)) ((F ^^ length (L q)) s)) s'"
      using post unfolding L1 by (blast intro: relinked_trans)
    then show "j = (tick ^^ length (L q)) i \<and>
      queues_ok s' (L(q := [], RunQueue := L RunQueue @ L q)) \<and>
      relinked (woken (set (L q)) ((F ^^ length (L q)) s)) s'"
      using post Lq unfolding L1 by (simp add: funpow_swap1)
  qed
  note next_round = this
  have "runs (bnd (body t) (\<lambda>_. loop m (tick i))) s (\<lambda>j s'. j = (tick ^^ length (L q)) i \<and>
      queues_ok s' (L(q := [], RunQueue := L RunQueue @ L q)) \<and>
      relinked (woken (set (L q)) ((F ^^ length (L q)) s)) s')"
    by (rule runs_bndI, rule runs_mono [OF body [OF Cons.prems(1) Lq]], elim conjE, rule next_round)
  then show ?case using l by (simp add: runs_def)
qed

end

section \<open>The calls are safe\<close>

text \<open>A format is good for its arguments when the formatter reads no memory it must not read.\<close>

definition good_format :: "string \<Rightarrow> vararg list \<Rightarrow> bool" where
  "good_format fmt args \<longleftrightarrow> (\<forall>e. vsnprint e 256 fmt args \<noteq> Inl BadMem)"

lemma good_format_text: "CHR ''%'' \<notin> set fmt \<Longrightarrow> good_format fmt args"
  by (simp add: good_format_def vsnprint_def vseprint_literal)

context sched_client
begin

definition RunL :: "tptr \<Rightarrow> queues \<Rightarrow> 'z sched_scheme \<Rightarrow> bool" where
  "RunL t L s \<longleftrightarrow> Inv s L \<and> taskrunning s = Some t \<and> \<not> queued L t \<and>
     (\<exists>x. tasks s t = Some x \<and> \<not> exiting x)"

lemma Run_RunL: "Run t s \<longleftrightarrow> (\<exists>L. RunL t L s)"
  by (simp add: Run_def RunL_def)

lemma RunL_Run: "RunL t L s \<Longrightarrow> Run t s"
  by (auto simp: Run_RunL)

lemma RunL_D:
  assumes "RunL t L s"
  shows "queues_ok s L" "taskrunning s = Some t" "t \<in> dom (tasks s)" "\<not> queued L t"
    "alltask_ok s" "fresh_ok s" "J s (parked s L)"
  using assms by (auto simp: RunL_def Inv_def sched_inv_def)

lemma Others_more: "sched.more s' = sched.more s \<Longrightarrow> Others t s s'"
  by (auto simp: Others_def Keep_more)

text \<open>Between turns nobody is exiting, so the queues may change freely.\<close>

lemma RunL_none_exiting: "RunL t L s \<Longrightarrow> tasks s p = Some x \<Longrightarrow> \<not> exiting x"
  by (auto simp: RunL_def Inv_def sched_inv_def)

lemma Others_Pre:
  assumes "Others t s s'" and "Pre s fn arg"
  shows "Pre s' fn arg"
proof -
  have "Keep (Suc t) s s'" using assms(1) unfolding Others_def by simp
  then show ?thesis using assms(2) by (rule Pre_keep)
qed

text \<open>Steps that change the lists, but not that of the sleepers, and no vital field.\<close>

definition mild :: "tptr \<Rightarrow> queues \<Rightarrow> queues \<Rightarrow> 'z sched_scheme \<Rightarrow> 'z sched_scheme \<Rightarrow> bool" where
  "mild t L L' s s' \<longleftrightarrow>
     calm s s' \<and> queues_ok s' L' \<and> L' Sleeping = L Sleeping \<and> naps s' = naps s \<and> Others t s s'"

lemma mildI:
  "calm s s' \<Longrightarrow> queues_ok s' L' \<Longrightarrow> L' Sleeping = L Sleeping \<Longrightarrow> naps s' = naps s \<Longrightarrow> Others t s s' \<Longrightarrow>
   mild t L L' s s'"
  by (simp add: mild_def)

lemma mild_quiet:
  "calm s s' \<Longrightarrow> queues_ok s' L' \<Longrightarrow> L' Sleeping = L Sleeping \<Longrightarrow> sched.more s' = sched.more s \<Longrightarrow>
   mild t L L' s s'"
  unfolding mild_def using naps_more Others_more by blast

lemma mild_books:
  assumes run: "RunL t L s" and c: "mild t L L' s s'"
  shows "sched_inv s' L'" and "counts_ok s' L' (naps s')" and "starts_ok (Pre s') s'"
proof -
  have m: "calm s s'" "queues_ok s' L'" "L' Sleeping = L Sleeping" "naps s' = naps s" "Others t s s'"
    using c by (simp_all add: mild_def)
  show "sched_inv s' L'"
    by (rule calm_sched_inv [OF _ m(1,2)]) (use run RunL_none_exiting [OF run] in \<open>auto simp: RunL_def Inv_def\<close>)
  show "counts_ok s' L' (naps s')"
    using run calm_counts_ok [where L = L and L' = L', OF _ m(1,3)] m(4) by (simp add: RunL_def Inv_def)
  show "starts_ok (Pre s') s'"
    by (rule calm_starts [OF _ m(1) Others_Pre [OF m(5)]]) (use run in \<open>simp_all add: RunL_def Inv_def\<close>)
qed

lemma calm_Inv:
  assumes run: "RunL t L s" and c: "mild t L L' s s'" and J: "J s' (parked s' L')"
  shows "Inv s' L'"
  using mild_books [OF run c] J by (simp add: Inv_def)

lemma calm_RunL:
  assumes run: "RunL t L s" and c: "mild t L L' s s'" and J: "J s' (parked s' L')" and t: "\<not> queued L' t"
  shows "RunL t L' s'"
proof -
  have m: "calm s s'" using c by (simp add: mild_def)
  obtain x where x: "tasks s t = Some x" "\<not> exiting x" using run by (auto simp: RunL_def)
  obtain y where "tasks s' t = Some y" "exiting y = exiting x" using m x(1) by (rule calm_task)
  then show ?thesis
    using calm_Inv [OF run c J] RunL_D(2) [OF run] m t x(2) by (simp add: RunL_def calm_def)
qed

lemma calm_Stop:
  assumes run: "RunL t L s" and c: "mild t L L' s s'" and J: "J s' (parked s' L')"
  shows "Stop t s'"
  using calm_Inv [OF run c J] RunL_D [OF run] c calm_dom [of s s']
  by (intro Stop_Inv) (auto simp: calm_def mild_def)

text \<open>A task that waits outside every list.\<close>

lemma calm_Stop_parked:
  assumes run: "RunL t L s" and c: "mild t L L' s s'"
    and J: "J s' (parked (s'\<lparr>taskrunning := None\<rparr>) L')"
  shows "Stop t s'"
proof -
  have m: "calm s s'" using c by (simp add: mild_def)
  obtain x where x: "tasks s t = Some x" using RunL_D(3) [OF run] by blast
  obtain y where "tasks s' t = Some y" "exiting y = exiting x" using m x by (rule calm_task)
  moreover have "taskrunning s' = Some t" using m RunL_D(2) [OF run] by (simp add: calm_def)
  ultimately show ?thesis
    unfolding Stop_def using mild_books [OF run c] J RunL_none_exiting [OF run x]
    by (intro exI [of _ L'] exI [of _ y]) simp
qed

text \<open>The same when only the lists change and every queued task was queued before.\<close>

lemma J_quiet:
  assumes "RunL t L s" and "calm s s'" and "sched.more s' = sched.more s"
    and "\<And>p. queued L' p \<Longrightarrow> queued L p \<or> p = t"
  shows "J s' (parked s' L')"
proof -
  have "parked s L \<subseteq> parked s' L'"
    using assms(1,2,4) calm_dom [OF assms(2)] by (auto simp: parked_def calm_def RunL_def)
  then show ?thesis using J_mono J_more [OF RunL_D(7) [OF assms(1)] assms(3)] by blast
qed

lemma quiet_RunL:
  assumes "RunL t L s" and "calm s s'" and "sched.more s' = sched.more s" and "queues_ok s' L'"
    and "L' Sleeping = L Sleeping" and "\<And>p. queued L' p \<Longrightarrow> queued L p"
  shows "RunL t L' s'"
proof (rule calm_RunL [OF assms(1) mild_quiet [where L = L and L' = L', OF assms(2,4,5,3)]])
  show "J s' (parked s' L')" by (rule J_quiet [OF assms(1,2,3)]) (use assms(6) in auto)
  show "\<not> queued L' t" using assms(1,6) RunL_D(4) by blast
qed

lemma quiet_Stop:
  assumes "RunL t L s" and "calm s s'" and "sched.more s' = sched.more s" and "queues_ok s' L'"
    and "L' Sleeping = L Sleeping" and "\<And>p. queued L' p \<Longrightarrow> queued L p \<or> p = t"
  shows "Stop t s'"
  using calm_Stop [OF assms(1) mild_quiet [where L = L and L' = L', OF assms(2,4,5,3)]] J_quiet [OF assms(1,2,3,6)] by blast

text \<open>Plain safety of a call: no precondition, nothing known afterwards.\<close>

abbreviation OK :: "tptr \<Rightarrow> ('z sched_scheme, 'a) prog \<Rightarrow> bool" where
  "OK t m \<equiv> Safe t (\<lambda>_. True) m (\<lambda>_ _. True)"

lemma OK_bnd: "OK t m \<Longrightarrow> (\<And>a. OK t (f a)) \<Longrightarrow> OK t (bnd m f)"
  by (rule Safe_bnd [where Q = "\<lambda>_ _. True"])

lemma OK_pre: "OK t m \<Longrightarrow> Safe t P m (\<lambda>_ _. True)"
  by (rule Safe_pre) auto

lemma OK_ret [simp]: "OK t (ret a)" and OK_get [simp]: "OK t (get f)"
  by (rule Safe_ret Safe_get; simp)+

lemma OK_halt: "e \<noteq> BadMem \<Longrightarrow> OK t (halt e)"
  by (rule Safe_halt)

lemma OK_whenp: "(b \<Longrightarrow> OK t m) \<Longrightarrow> OK t (whenp b m)"
  by (simp add: whenp_def)

text \<open>Code that leaves the lists alone and writes no vital field.\<close>

lemma quiet_same:
  assumes "RunL t L s" and "calm s s'" and "sched.more s' = sched.more s" and "queues_ok s' L"
  shows "Run t s' \<and> Others t s s'"
  using quiet_RunL [OF assms refl] RunL_Run Others_more [OF assms(3)] by blast

lemma OK_quiet:
  assumes "\<And>s L. RunL t L s \<Longrightarrow>
    runs m s (\<lambda>_ s'. calm s s' \<and> sched.more s' = sched.more s \<and> queues_ok s' L)"
  shows "OK t m"
proof (rule Safe_runs)
  fix s
  assume "Run t s"
  then obtain L where r: "RunL t L s" by (auto simp: Run_RunL)
  show "runs m s (\<lambda>_ s'. Run t s' \<and> Others t s s' \<and> True)"
    using assms [OF r] by (rule runs_mono) (use quiet_same [OF r] in auto)
qed

lemma OK_running: "(OK t (f t)) \<Longrightarrow> OK t (bnd running f)"
  by (rule Safe_bnd [where Q = "\<lambda>p _. p = t"])
    (auto simp: Safe_def Run_def safe_for_def running_def bnd_def deref_def sem_simps)

lemma OK_load_running: "(\<And>x. OK t (f x)) \<Longrightarrow> OK t (bnd (load_task t) f)"
  by (rule OK_bnd) (auto intro!: OK_quiet simp: RunL_D dest: RunL_D(1,3))

text \<open>A change of fields of the running task.\<close>

lemma OK_mod_running:
  assumes "\<And>x. vital (f x) = vital x \<and> tnext (f x) = tnext x \<and> tprev (f x) = tprev x"
  shows "OK t (mod_task t f)"
proof (rule OK_quiet)
  fix s L
  assume r: "RunL t L s"
  then obtain x where "tasks s t = Some x" using RunL_D(3) by blast
  then show "runs (mod_task t f) s
      (\<lambda>_ s'. calm s s' \<and> sched.more s' = sched.more s \<and> queues_ok s' L)"
    using assms [of x] RunL_D(1) [OF r] by (simp add: calm_mod)
qed

lemma OK_vsnprintp: "good_format fmt args \<Longrightarrow> OK t (vsnprintp 256 fmt args)"
proof (rule OK_quiet)
  fix s :: "'z sched_scheme" and L
  assume g: "good_format fmt args" and r: "RunL t L s"
  obtain str where "vsnprint (prt s) 256 fmt args = Inr str"
    using vseprint_bounds [of 256 "prt s" fmt args] g
    by (auto simp: good_format_def vsnprint_def)
  then show "runs (vsnprintp 256 fmt args) s
      (\<lambda>_ s'. calm s s' \<and> sched.more s' = sched.more s \<and> queues_ok s' L)"
    using RunL_D(1) [OF r] by (simp add: vsnprintp_def runs_bnd)
qed

lemma OK_taskname: "good_format fmt args \<Longrightarrow> OK t (taskname fmt args)"
  unfolding taskname_def
  by (intro OK_running OK_bnd OK_vsnprintp OK_mod_running) (auto simp: vital_def)

lemma OK_taskstate: "good_format fmt args \<Longrightarrow> OK t (taskstate fmt args)"
  unfolding taskstate_def
  by (intro OK_running OK_bnd OK_vsnprintp OK_mod_running) (auto simp: vital_def)

lemma OK_taskgetname: "OK t taskgetname" and OK_taskgetstate: "OK t taskgetstate"
  and OK_taskid: "OK t taskid" and OK_taskdata: "OK t taskdata" and OK_anyready: "OK t anyready"
  unfolding taskgetname_def taskgetstate_def taskid_def taskdata_def anyready_def
  by (intro OK_running OK_load_running OK_ret OK_get)+

lemma OK_taskexitall: "OK t (taskexitall v)"
  unfolding taskexitall_def by (rule OK_halt) simp

lemma OK_needstack: "OK t (needstack n)"
  unfolding needstack_def
  by (intro OK_running OK_load_running OK_bnd [OF OK_get] Safe_if OK_halt OK_ret) simp

text \<open>The running task leaves the count of the tasks the program waits for.\<close>

lemma OK_tasksystem: "OK t tasksystem"
proof (rule Safe_runs)
  fix s
  assume "Run t s"
  then obtain L where r: "RunL t L s" by (auto simp: Run_RunL)
  then obtain x where x: "tasks s t = Some x" "\<not> exiting x" "taskrunning s = Some t"
    by (auto simp: RunL_def)
  let ?h = "(tasks s)(t \<mapsto> x\<lparr>tsystem := True\<rparr>)"
  let ?s = "s\<lparr>tasks := ?h, taskcount := taskcount s - 1\<rparr>"
  show "runs tasksystem s (\<lambda>_ s'. Run t s' \<and> Others t s s' \<and> True)"
  proof (cases "tsystem x")
    case True
    then show ?thesis using x r by (simp add: tasksystem_def runs_bnd RunL_Run)
  next
    case False
    have "alltask_ok ?s"
      by (rule alltask_ok_cong [of s]) (use x RunL_D(5) [OF r] in \<open>auto simp: slot_def\<close>)
    moreover have "queues_ok ?s L"
      by (rule queues_ok_cong [OF RunL_D(1) [OF r]]) (use x in auto)
    moreover have "counts_ok ?s L (naps ?s)"
    proof -
      have ut: "user_tasks ?s = user_tasks s - {t}" and t: "t \<in> user_tasks s" "finite (user_tasks s)"
        using x False finite_user_tasks [OF RunL_D(6) [OF r]] by (auto simp: user_tasks_def)
      have "t \<notin> set (L Sleeping)" using RunL_D(4) [OF r] by (auto simp: queued_def)
      then have "nappers ?s L = nappers s L" by (auto simp: nappers_def ut)
      moreover have "alarm ?s = alarm s" using x by (auto simp: alarm_def fun_eq_iff)
      moreover have "int (card (user_tasks ?s)) = int (card (user_tasks s)) - 1"
        using ut t card_Suc_Diff1 by fastforce
      moreover have "counts_ok s L (naps s)" using r by (simp add: RunL_def Inv_def)
      ultimately show ?thesis using naps_more [of ?s s] by (simp add: counts_ok_def)
    qed
    moreover have "starts_ok (Pre ?s) ?s"
      by (rule starts_same [of "Pre s" s])
        (use r x Pre_more [of ?s s] in \<open>auto simp: RunL_def Inv_def split: if_splits\<close>)
    moreover have "parked ?s L = parked s L" using x by (auto simp: parked_def)
    ultimately have "RunL t L ?s"
      using r x J_more [of s "parked s L" ?s]
      by (auto simp: RunL_def Inv_def sched_inv_def fresh_ok_def)
    then show ?thesis
      using x False by (simp add: tasksystem_def runs_bnd RunL_Run Others_more)
  qed
qed

lemma wait_on_Stop:
  assumes r: "RunL t L s" and fmt: "CHR ''%'' \<notin> set fmt" and "q \<noteq> Sleeping"
  shows "runs (bnd (addtask q t) (\<lambda>_. taskstate fmt args)) s
    (\<lambda>_ s'. Stop t s' \<and> Others t s s' \<and> sched.more s' = sched.more s)"
  by (rule runs_mono [OF wait_on_spec [OF RunL_D(1,2,3,4) [OF r] fmt]])
    (use assms(3) in \<open>auto intro: quiet_Stop [OF r _ _ _ _ queued_snoc] Others_more\<close>)

lemma OK_wait_on:
  assumes "CHR ''%'' \<notin> set fmt" and "q \<noteq> Sleeping"
  shows "OK t (bnd (bnd (addtask q t) (\<lambda>_. taskstate fmt args)) (\<lambda>_. taskswitch))"
  by (rule Safe_suspend [where S = "\<lambda>_. True"])
    (auto simp: Run_RunL elim: runs_mono [OF wait_on_Stop [OF _ assms(1,2)]])

lemma OK_taskyield: "OK t taskyield"
proof -
  have m: "runs (bnd (taskready t) (\<lambda>_. taskstate ''yield'' [])) s
      (\<lambda>_ s'. Stop t s' \<and> Others t s s' \<and> True)" if r: "RunL t L s" for s L
  proof (rule runs_bndI, rule runs_mono [OF taskready_spec [OF RunL_D(1,3,4) [OF r]]], elim conjE)
    fix s1
    assume q1: "queues_ok s1 (L(RunQueue := L RunQueue @ [t]))" and rl: "relinked (mark_ready t s) s1"
    have c: "calm s s1" by (rule ready_calm [OF rl])
    obtain x where x: "tasks s1 t = Some x" using RunL_D(3) [OF r] calm_dom [OF c] by (metis domD)
    show "runs (taskstate ''yield'' []) s1 (\<lambda>_ s'. Stop t s' \<and> Others t s s' \<and> True)"
      using RunL_D(2) [OF r] x q1 c calm_tstate [OF c x] ready_more [OF rl]
      by (auto simp: calm_def [of _ s1] intro!: quiet_Stop [OF r _ _ _ _ queued_snoc] Others_more)
  qed
  have "OK t (bnd (bnd (taskready t) (\<lambda>_. taskstate ''yield'' [])) (\<lambda>_. taskswitch))"
    by (rule Safe_suspend [where S = "\<lambda>_. True"]) (auto simp: Run_RunL dest: m)
  then show ?thesis
    unfolding taskyield_def
    by (intro OK_bnd [OF OK_get] OK_running) (simp add: bnd_assoc [symmetric] OK_bnd)
qed

text \<open>A new task keeps the invariant, whether a task is running or none.\<close>

lemma create_Inv:
  assumes inv: "Inv s L" and ne: "\<And>p y. tasks s p = Some y \<Longrightarrow> \<not> exiting y"
    and pre: "Pre s fn arg" and c: "create_post fn arg stack L s i s'"
  shows "Inv s' (L(RunQueue := L RunQueue @ [brk s]))" and "\<And>p y. tasks s' p = Some y \<Longrightarrow> \<not> exiting y"
    and "dom (tasks s') = insert (brk s) (dom (tasks s))" and "taskrunning s' = taskrunning s"
proof -
  let ?p = "brk s" and ?L = "L(RunQueue := L RunQueue @ [brk s])"
  have q: "queues_ok s L" and f: "fresh_ok s" and n: "counts_ok s L (naps s)" and J: "J s (parked s L)"
    and st: "starts_ok (Pre s) s"
    using inv by (simp_all add: Inv_def sched_inv_def)
  have new: "tasks s ?p = None" using f by (auto simp: fresh_ok_def)
  have same: "map_option unlink (tasks s' p) = map_option unlink (tasks s p)" if "p \<noteq> ?p" for p
    using c that unfolding create_post_def by blast
  obtain x where x: "tasks s' ?p = Some x" "\<not> exiting x" "\<not> tsystem x" "startfn x = fn" "startarg x = arg"
    using c unfolding create_post_def by blast
  have more: "sched.more s' = sched.more s" and ut: "user_tasks s' = insert ?p (user_tasks s)"
    and run': "taskrunning s' = taskrunning s" and tc: "taskcount s' = taskcount s + 1"
    and ok: "queues_ok s' ?L" "alltask_ok s'" "fresh_ok s'"
    using c unfolding create_post_def by blast+
  show run'': "taskrunning s' = taskrunning s" by (rule run')
  show dom: "dom (tasks s') = insert ?p (dom (tasks s))"
  proof -
    have "p \<in> dom (tasks s') \<longleftrightarrow> p \<in> insert ?p (dom (tasks s))" for p
    proof (cases "p = ?p")
      case True
      then show ?thesis using x by auto
    next
      case False
      then show ?thesis using same [OF False] by (cases "tasks s p"; cases "tasks s' p") auto
    qed
    then show ?thesis by blast
  qed
  show ex: "\<not> exiting y" if y: "tasks s' p = Some y" for p y
  proof (cases "p = ?p")
    case True
    then show ?thesis using y x by auto
  next
    case False
    then obtain z where z: "tasks s p = Some z" "unlink y = unlink z"
      using same [OF False] y by (cases "tasks s p") auto
    show ?thesis using ne [OF z(1)] unlink_eqD(7) [OF z(2)] by simp
  qed
  have "counts_ok s' ?L (naps s')"
  proof -
    have "card (user_tasks s') = Suc (card (user_tasks s))"
      using ut new finite_user_tasks [OF f]
      by (subst ut, subst card_insert_disjoint) (auto simp: user_tasks_def)
    moreover have away: "p \<noteq> ?p" if "p \<in> set (L Sleeping)" for p
      using that queued_live [OF q, of p] new by (auto simp: queued_def)
    then have "nappers s' ?L = nappers s L" by (auto simp: nappers_def ut)
    moreover have "alarm s' p = alarm s p" if "p \<in> set (L Sleeping)" for p
    proof (rule alarm_eq)
      have "map_option alarmtime v = map_option alarmtime (map_option unlink v)" for v
        by (cases v) simp_all
      then show "map_option alarmtime (tasks s' p) = map_option alarmtime (tasks s p)"
        using same [OF away [OF that]] by metis
    qed
    then have "map (alarm s') (?L Sleeping) = map (alarm s) (L Sleeping)" by simp
    ultimately show ?thesis
      using n tc naps_more [OF more] by (simp add: counts_ok_def del: map_eq_conv)
  qed
  moreover have "starts_ok (Pre s') s'"
    unfolding starts_ok_def
  proof (intro allI impI)
    fix p y
    assume y: "tasks s' p = Some y"
    show "Pre s' (startfn y) (startarg y)"
    proof (cases "p = ?p")
      case True
      then show ?thesis using x y Pre_more [OF more pre] by simp
    next
      case False
      then obtain z where z: "tasks s p = Some z" "unlink y = unlink z"
        using same [OF False] y by (cases "tasks s p") auto
      have "startfn z = startfn y" "startarg z = startarg y"
        using z(2) by (metis unlink_fields(11,12))+
      moreover have "Pre s (startfn z) (startarg z)"
        using st z(1) by (auto simp: starts_ok_def)
      ultimately show ?thesis using Pre_more [OF more] by simp
    qed
  qed
  moreover have "parked s L \<subseteq> parked s' ?L"
  proof
    fix p
    assume "p \<in> parked s L"
    then show "p \<in> parked s' ?L"
      using dom run' new queued_snoc [of L RunQueue ?p p] by (auto simp: parked_def)
  qed
  ultimately show "Inv s' ?L"
    using ok ex J_mono [OF J_more [OF J more]] by (simp add: Inv_def sched_inv_def)
qed

lemma create_RunL:
  assumes r: "RunL t L s" and pre: "Pre s fn arg" and c: "create_post fn arg stack L s i s'"
  shows "RunL t (L(RunQueue := L RunQueue @ [brk s])) s'"
proof -
  have inv: "Inv s L" using r by (simp add: RunL_def)
  have new: "brk s \<notin> dom (tasks s)" using RunL_D(6) [OF r] by (auto simp: fresh_ok_def)
  have ne: "\<not> exiting y" if "tasks s p = Some y" for p y by (rule RunL_none_exiting [OF r that])
  note C = create_Inv [OF inv ne pre c]
  have "t \<noteq> brk s" using RunL_D(3) [OF r] new by auto
  then have "\<not> queued (L(RunQueue := L RunQueue @ [brk s])) t"
    using RunL_D(4) [OF r] queued_snoc [of L RunQueue "brk s" t] by blast
  moreover have "t \<in> dom (tasks s')" using C(3) RunL_D(3) [OF r] by simp
  then obtain y where "tasks s' t = Some y" by blast
  ultimately show ?thesis using C(1,2,4) RunL_D(2) [OF r] by (simp add: RunL_def)
qed

lemma Safe_taskcreate: "Safe t (\<lambda>s. Pre s fn arg) (taskcreate fn arg stack) (\<lambda>_ _. True)"
  unfolding Safe_def
proof (intro allI impI)
  fix s
  assume "Run t s" and pre: "Pre s fn arg"
  then obtain L where r: "RunL t L s" by (auto simp: Run_RunL)
  show "safe_for t (\<lambda>s0 a s'. Run t s' \<and> Others t s0 s' \<and> True) (taskcreate fn arg stack s) s"
  proof (cases "alloc_ok s (allocs s) \<and> (nalltask s mod 64 = 0 \<longrightarrow> alloc_ok s (Suc (allocs s)))")
    case True
    then have "runs (taskcreate fn arg stack) s (create_post fn arg stack L s)"
      using RunL_D [OF r] by (intro taskcreate_spec) auto
    then obtain i s' where s': "taskcreate fn arg stack s = Ret i s'"
      and c: "create_post fn arg stack L s i s'" by (rule runsE)
    have "Run t s'" by (rule RunL_Run [OF create_RunL [OF r pre c]])
    moreover have "Others t s s'" by (rule Others_more) (use c in \<open>simp add: create_post_def\<close>)
    ultimately show ?thesis using s' by (simp add: safe_for_def)
  next
    case False
    then have "halts (taskcreate fn arg stack) s Abort"
      by (auto simp: halts_def taskcreate_def taskalloc_def try_alloc_def bnd_def sem_simps
          whenp_def load_task_def)
    then show ?thesis by (auto simp: safe_for_def halts_def)
  qed
qed

text \<open>Waiting in a list, and what the code does afterwards.\<close>

lemma OK_wait:
  assumes "CHR ''%'' \<notin> set fmt" and "q \<noteq> Sleeping" and "OK t (f ())"
  shows "OK t (bnd (addtask q t) (\<lambda>_. bnd (taskstate fmt args) (\<lambda>_. bnd taskswitch f)))"
proof -
  have "OK t (bnd (bnd (bnd (addtask q t) (\<lambda>_. taskstate fmt args)) (\<lambda>_. taskswitch)) f)"
    by (rule OK_bnd [OF OK_wait_on [OF assms(1,2)]]) (use assms(3) in simp)
  then show ?thesis by (simp add: bnd_assoc)
qed

text \<open>Waking the first task of a list.\<close>

lemma hand_over_RunL:
  assumes r: "RunL t L s" and u: "u \<in> set (L q)" and q: "q \<noteq> RunQueue" "q \<noteq> Sleeping"
  shows "runs (hand_over q u) s (\<lambda>_ s'. RunL t (moved q u L) s' \<and> sched.more s' = sched.more s)"
  by (rule runs_mono [OF hand_over_spec [OF RunL_D(1) [OF r] u q(1)]], elim conjE, intro conjI)
    (use u q in \<open>auto intro!: quiet_RunL [OF r] simp: queued_moved [of u L q] ready_calm ready_more\<close>)

lemma Safe_hand_over:
  assumes q: "q \<noteq> RunQueue" "q \<noteq> Sleeping"
  shows "Safe t (\<lambda>s. head (lists s q) = Some u) (hand_over q u) (\<lambda>_ _. True)"
proof (rule Safe_runs)
  fix s
  assume "Run t s" and h: "head (lists s q) = Some u"
  then obtain L where r: "RunL t L s" by (auto simp: Run_RunL)
  then have "u \<in> set (L q)" using h head_hd [OF RunL_D(1) [OF r], of q] by (auto simp: hd_opt_Some)
  from hand_over_RunL [OF r this q]
  show "runs (hand_over q u) s (\<lambda>_ s'. Run t s' \<and> Others t s s' \<and> True)"
    by (rule runs_mono) (auto intro: RunL_Run Others_more)
qed

lemma OK_wake_head:
  assumes q: "q \<noteq> RunQueue" "q \<noteq> Sleeping" and n: "OK t n"
    and m: "\<And>u. Safe t (\<lambda>s. head (lists s q) = Some u) (m u) (\<lambda>_ s. head (lists s q) = Some u)"
    and f: "OK t f"
  shows "OK t (bnd (get (\<lambda>s. head (lists s q))) (\<lambda>h. case h of None \<Rightarrow> n
    | Some u \<Rightarrow> bnd (m u) (\<lambda>_. bnd (hand_over q u) (\<lambda>_. f))))"
proof (rule Safe_bnd [where Q = "\<lambda>h s. head (lists s q) = h"])
  show "Safe t (\<lambda>_. True) (get (\<lambda>s. head (lists s q))) (\<lambda>h s. head (lists s q) = h)"
    by (rule Safe_get) simp
  show "Safe t (\<lambda>s. head (lists s q) = h) (case h of None \<Rightarrow> n
    | Some u \<Rightarrow> bnd (m u) (\<lambda>_. bnd (hand_over q u) (\<lambda>_. f))) (\<lambda>_ _. True)" for h
  proof (cases h)
    case None
    then show ?thesis using n by (simp add: OK_pre)
  next
    case (Some u)
    have "Safe t (\<lambda>s. head (lists s q) = Some u) (bnd (m u) (\<lambda>_. bnd (hand_over q u) (\<lambda>_. f)))
        (\<lambda>_ _. True)"
      by (rule Safe_bnd [OF m]) (rule Safe_bnd [OF Safe_hand_over [OF q]], rule f)
    with Some show ?thesis by simp
  qed
qed

lemmas OK_calls = OK_taskname OK_taskstate OK_taskgetname OK_taskgetstate OK_taskid OK_taskdata
  OK_anyready OK_taskexitall OK_needstack OK_tasksystem OK_taskyield

lemma OK_taskexit: "OK t (taskexit v)"
  by (rule Safe_taskexit)

end

section \<open>task.c on its own\<close>

text \<open>Without further components there is nothing to keep and nobody adds to \<open>taskcount\<close>.\<close>

interpretation core: sched_client "\<lambda>_ _. True" "\<lambda>_ _ _. True" "\<lambda>_. 0" "\<lambda>_ _ _. True"
  by unfold_locales simp_all

end
