(* ===== verification/Examples.thy ===== *)
theory Examples
  imports Calls
begin

text \<open>
  A small state in which the properties are instantiated: task 0 runs, tasks 1 and 2 stand in one
  list, which is a parameter, and every other list is empty.
\<close>

definition task_zero :: task where
  "task_zero = \<lparr>tname = [], tstate = [], tnext = None, tprev = None, alarmtime = 0, tid = 0,
     stk = 0, stksize = 32768, exiting = False, alltaskslot = 0, tsystem = False, tready = False,
     startfn = 0, startarg = 0, udata = 0\<rparr>"

definition demo :: "lptr \<Rightarrow> 'z \<Rightarrow> 'z sched_scheme" where
  "demo q z =
     \<lparr>tasks = [0 \<mapsto> task_zero\<lparr>tid := 1\<rparr>,
        1 \<mapsto> task_zero\<lparr>tid := 2, tnext := Some 2, alltaskslot := 1\<rparr>,
        2 \<mapsto> task_zero\<lparr>tid := 3, tprev := Some 1, alltaskslot := 2\<rparr>],
      lists = (\<lambda>_. \<lparr>head = None, tail = None\<rparr>)(q := \<lparr>head = Some 1, tail = Some 2\<rparr>),
      brk = 3, alloc_ok = (\<lambda>_. True), allocs = 6, task_at = (\<lambda>_. 0), frame_at = (\<lambda>_. 30000),
      taskidgen = 3, taskcount = 3, tasknswitch = 7, taskexitval = 0, taskrunning = Some 0,
      alltask = [Some 0, Some 1, Some 2] @ replicate 61 None, nalltask = 3,
      prt = \<lparr>errstr = [], neg_init = False\<rparr>, \<dots> = z\<rparr>"

definition demoL :: "lptr \<Rightarrow> queues" where
  "demoL q = (\<lambda>_. [])(q := [1, 2])"

lemma demo_queues: "queues_ok (demo q z) (demoL q)"
  by (auto simp: queues_ok_def tlist_def demo_def demoL_def task_zero_def)

lemma demo_fresh: "fresh_ok (demo q z)"
  by (auto simp: fresh_ok_def demo_def split: if_splits)

lemma demo_slot: "slot (demo q z) = [0 \<mapsto> 0, 1 \<mapsto> 1, 2 \<mapsto> 2]"
  by (auto simp: slot_def demo_def task_zero_def fun_eq_iff)

lemma demo_table:
  "alltask (demo q z) ! 0 = Some 0" "alltask (demo q z) ! Suc 0 = Some 1" "alltask (demo q z) ! 2 = Some 2"
  "nalltask (demo q z) = 3" "length (alltask (demo q z)) = 64"
  by (simp_all add: demo_def)

lemma demo_alltask: "alltask_ok (demo q z)"
proof -
  have "\<exists>p. alltask (demo q z) ! i = Some p \<and> slot (demo q z) p = Some i" if "i < 3" for i
  proof -
    from that consider "i = 0" | "i = Suc 0" | "i = 2" by linarith
    then show ?thesis by cases (simp_all add: demo_table demo_slot)
  qed
  moreover have "i < 3 \<and> alltask (demo q z) ! i = Some p" if "slot (demo q z) p = Some i" for p i
  proof -
    from that consider "p = 0" "i = 0" | "p = 1" "i = Suc 0" | "p = 2" "i = 2"
      by (simp add: demo_slot split: if_splits)
    then show ?thesis by cases (simp_all add: demo_table)
  qed
  ultimately show ?thesis unfolding alltask_ok_def demo_table by simp
qed

lemma demo_simps [simp]:
  "taskrunning (demo q z) = Some 0" "tasks (demo q z) 0 = Some (task_zero\<lparr>tid := 1\<rparr>)"
  "0 \<in> dom (tasks (demo q z))" "\<not> queued (demoL q) 0" "demoL q q = [1, 2]"
  "q' \<noteq> q \<Longrightarrow> demoL q q' = []" "brk (demo q z) = 3" "alloc_ok (demo q z) i"
  by (auto simp: demo_def demoL_def queued_def)

lemma demo_user_tasks: "user_tasks (demo q z) = {0, 1, 2}" "user_tasks ((demo q z)\<lparr>taskrunning := r\<rparr>) = {0, 1, 2}"
  by (auto simp: user_tasks_def demo_def task_zero_def split: if_splits)

lemma demo_none_exiting: "tasks (demo q z) p = Some x \<Longrightarrow> \<not> exiting x"
  by (auto simp: demo_def task_zero_def split: if_splits)

lemma demo_sched: "sched_inv (demo q z) (demoL q)"
  using demo_queues demo_alltask demo_fresh by (auto simp: sched_inv_def dest: demo_none_exiting)

lemma demo_idle: "sched_inv ((demo q z)\<lparr>taskrunning := None\<rparr>) (demoL q)"
proof -
  have "alltask_ok ((demo q z)\<lparr>taskrunning := None\<rparr>)"
    by (rule alltask_ok_cong [OF demo_alltask [of q z]]) (auto simp: slot_def)
  then show ?thesis
    using demo_queues [of q z] demo_fresh [of q z] demo_none_exiting [of q z]
    by (auto simp: sched_inv_def queues_ok_def fresh_ok_def)
qed

lemma demo_on_cpu: "on_cpu 0 (demo q z)"
  unfolding on_cpu_def by (intro conjI exI [of _ "demoL q"]) (simp_all add: demo_queues)

end
