(* ===== verification/Core.thy ===== *)
theory Core
  imports Examples
begin

text \<open>
  The properties of task.c: the lists of tasks, creation and removal of tasks, the rounds of the
  scheduler.
\<close>

section \<open>Lists of tasks\<close>

text \<open>
  C1: \<open>addtask\<close> refines appending to a queue: from a state in which the pointers represent the
  queues \<open>L\<close> and the live task \<open>t\<close> is in none of them, it returns, the pointers then represent
  \<open>L\<close> with \<open>t\<close> at the end of its list, and nothing but links and list heads was written.
\<close>

theorem addtask_appends:
  assumes "queues_ok s L" and "t \<in> dom (tasks s)" and "\<not> queued L t"
  shows "runs (addtask q t) s (\<lambda>_ s'. queues_ok s' (L(q := L q @ [t])) \<and> relinked s s')"
  using assms by (rule addtask_spec)

theorem addtask_appends_witness:
  "runs (addtask (QWaiting 5) 0) (demo (QWaiting 5) ()) (\<lambda>_ s'.
     queues_ok s' ((demoL (QWaiting 5))(QWaiting 5 := [1, 2, 0])))"
  using addtask_appends [OF demo_queues, of 0 "QWaiting 5" "()" "QWaiting 5"]
  by (auto elim: runs_mono)

text \<open>
  C2: \<open>deltask\<close> refines removal: wherever the task stands in its list (first, last, only or in
  the middle), the other tasks keep their order, and the links of all lists stay consistent.
\<close>

theorem deltask_removes:
  assumes "queues_ok s L" and "t \<in> set (L q)"
  shows "runs (deltask q t) s (\<lambda>_ s'. queues_ok s' (L(q := remove1 t (L q))) \<and> relinked s s')"
  using deltask_spec [OF assms] by (rule runs_mono) simp

theorem deltask_removes_witness:
  "runs (deltask Sleeping 1) (demo Sleeping ()) (\<lambda>_ s'. queues_ok s' ((demoL Sleeping)(Sleeping := [2])))"
  using deltask_removes [OF demo_queues, of 1 Sleeping Sleeping "()"]
  by (auto elim: runs_mono)

text \<open>
  Taking out the task that was just appended restores the queues.
\<close>

lemma deltask_undoes_addtask:
  assumes "queues_ok s L" and "t \<in> dom (tasks s)" and "\<not> queued L t"
  shows "runs (bnd (addtask q t) (\<lambda>_. deltask q t)) s (\<lambda>_ s'. queues_ok s' L \<and> relinked s s')"
proof (rule runs_bndI, rule runs_mono [OF addtask_spec [OF assms]], elim conjE)
  fix s1
  assume q1: "queues_ok s1 (L(q := L q @ [t]))" and r: "relinked s s1"
  have "t \<notin> set (L q)" using assms(3) by (auto simp: queued_def)
  then have "(L(q := L q @ [t]))(q := remove1 t ((L(q := L q @ [t])) q)) = L"
    by (simp add: remove1_append)
  with deltask_spec [OF q1, of t q]
  have "runs (deltask q t) s1 (\<lambda>_ s'. queues_ok s' L \<and> relinked s1 s' \<and> tasks s' t = tasks s1 t)"
    by simp
  then show "runs (deltask q t) s1 (\<lambda>_ s'. queues_ok s' L \<and> relinked s s')"
    by (rule runs_mono) (use relinked_trans [OF r] in blast)
qed

lemma deltask_undoes_addtask_example:
  "runs (bnd (addtask RunQueue 0) (\<lambda>_. deltask RunQueue 0)) (demo RunQueue ())
     (\<lambda>_ s'. queues_ok s' (demoL RunQueue))"
  using deltask_undoes_addtask [OF demo_queues, of 0 RunQueue "()" RunQueue]
  by (auto elim: runs_mono)

section \<open>Creating and removing tasks\<close>



text \<open>
  A failed allocation ends the process by \<open>abort\<close>, whether it is that of the task or, when the
  table of tasks is full, that of the table; \<open>taskcreate\<close> never returns an invalid task.
\<close>

lemma taskcreate_out_of_memory:
  assumes "\<not> alloc_ok s (allocs s) \<or> nalltask s mod 64 = 0 \<and> \<not> alloc_ok s (Suc (allocs s))"
  shows "halts (taskcreate fn arg stack) s Abort"
  using assms
  by (auto simp: halts_def taskcreate_def taskalloc_def try_alloc_def bnd_def sem_simps whenp_def
      load_task_def)

lemma taskcreate_out_of_memory_example:
  "halts (taskcreate 5 77 32768) ((demo RunQueue ())\<lparr>alloc_ok := (\<lambda>_. False)\<rparr>) Abort"
  by (rule taskcreate_out_of_memory) simp

text \<open>
  C22: the removal of an exited task (the tail of \<open>taskscheduler\<close>) keeps \<open>alltask\<close> exact: the entry
  of the last slot moves into the free one, every live task is found at its \<open>alltaskslot\<close>, and
  \<open>taskcount\<close> falls only for a task that is not a system task.
\<close>

theorem reap_keeps_table:
  assumes "alltask_ok s" and "tasks s t = Some x"
  shows "runs (reap t) s (\<lambda>_ s'.
    alltask_ok s' \<and> dom (tasks s') = dom (tasks s) - {t} \<and> nalltask s' = nalltask s - 1 \<and>
    taskcount s' = taskcount s - (if tsystem x then 0 else 1) \<and>
    (\<forall>p y. p \<noteq> t \<longrightarrow> tasks s p = Some y \<longrightarrow> (\<exists>i. tasks s' p = Some (y\<lparr>alltaskslot := i\<rparr>))))"
  by (rule runs_mono [OF reap_spec [OF assms]]) (simp add: reap_post_def)

theorem reap_keeps_table_witness:
  "runs (reap 0) (demo RunQueue ()) (\<lambda>_ s'. alltask_ok s' \<and> nalltask s' = 2 \<and> taskcount s' = 2)"
  using reap_keeps_table [OF demo_alltask, of RunQueue "()" 0]
  by (auto simp: demo_table task_zero_def) (auto simp: demo_def elim!: runs_mono)

section \<open>Rounds\<close>

text \<open>
  C23: a round of the scheduler ends the process with the exit value exactly when no task is left
  but system tasks, ends it with 1 when nothing can run, and otherwise hands the CPU to the head
  of the run queue.
\<close>

theorem sched_round_outcome:
  assumes "sched_inv s L" and "taskcount s = int (card (user_tasks s))" and "taskrunning s = None"
  shows "(user_tasks s = {} \<longrightarrow> sched_round code K s = Halt (Exit (taskexitval s)) s) \<and>
    (user_tasks s \<noteq> {} \<and> L RunQueue = [] \<longrightarrow> sched_round code K s = Halt (Exit 1) s) \<and>
    (\<forall>t ts. user_tasks s \<noteq> {} \<and> L RunQueue = t # ts \<longrightarrow>
       (\<exists>s1. queues_ok s1 (L(RunQueue := ts)) \<and> taskrunning s1 = Some t \<and>
          tasknswitch s1 = tasknswitch s + 1 \<and> dom (tasks s1) = dom (tasks s) \<and>
          sched_round code K s = bnd (contextswitch code K t) (\<lambda>k. bnd (retire t) (\<lambda>gone.
            ret (if gone then K(t := None) else K(t \<mapsto> k)))) s1))"
proof -
  have fin: "finite (user_tasks s)"
    using assms(1) finite_user_tasks by (auto simp: sched_inv_def)
  have q: "queues_ok s L" using assms(1) by (simp add: sched_inv_def)
  have zero: "taskcount s = 0 \<longleftrightarrow> user_tasks s = {}" using fin assms(2) by simp
  have hd: "head (lists s RunQueue) = hd_opt (L RunQueue)" by (rule head_hd [OF q])
  have "\<exists>s1. queues_ok s1 (L(RunQueue := ts)) \<and> taskrunning s1 = Some t \<and>
          tasknswitch s1 = tasknswitch s + 1 \<and> dom (tasks s1) = dom (tasks s) \<and>
          dispatch t s = Ret () s1" if ts: "L RunQueue = t # ts" for t ts
  proof -
    have "t \<in> set (L RunQueue)" "remove1 t (L RunQueue) = ts" using ts by simp_all
    with deltask_spec [OF q, of t RunQueue] obtain s1 where s1: "deltask RunQueue t s = Ret () s1"
      "queues_ok s1 (L(RunQueue := ts))" "relinked s s1" by (auto simp: runs_def)
    have "queued L t" using ts by (auto simp: queued_def intro: exI [of _ RunQueue])
    then have "t \<in> dom (tasks s1)" using queued_live [OF q] relinked_dom [OF s1(3)] by simp
    then obtain x where x: "tasks s1 t = Some x" by blast
    let ?s = "s1\<lparr>tasks := (tasks s1)(t \<mapsto> x\<lparr>tready := False\<rparr>), taskrunning := Some t,
      tasknswitch := tasknswitch s1 + 1\<rparr>"
    have "dispatch t s = Ret () ?s"
      using s1(1) x by (simp add: dispatch_def bnd_def mod_task_def sem_simps)
    moreover have "queues_ok ?s (L(RunQueue := ts))"
      by (rule queues_ok_cong [OF s1(2)]) (use x in auto)
    ultimately show ?thesis
      using x relinked_same [OF s1(3)] relinked_dom [OF s1(3)] by (auto intro!: exI [of _ ?s])
  qed
  note dispatched = this
  show ?thesis
  proof (intro conjI impI allI)
    show "sched_round code K s = Halt (Exit (taskexitval s)) s" if "user_tasks s = {}"
      using that zero by (simp add: sched_round_def bnd_def sem_simps)
    show "sched_round code K s = Halt (Exit 1) s" if "user_tasks s \<noteq> {} \<and> L RunQueue = []"
      using that zero hd by (simp add: sched_round_def bnd_def sem_simps)
    fix t ts
    assume "user_tasks s \<noteq> {} \<and> L RunQueue = t # ts"
    with dispatched [of t ts] zero hd
    show "\<exists>s1. queues_ok s1 (L(RunQueue := ts)) \<and> taskrunning s1 = Some t \<and>
          tasknswitch s1 = tasknswitch s + 1 \<and> dom (tasks s1) = dom (tasks s) \<and>
          sched_round code K s = bnd (contextswitch code K t) (\<lambda>k. bnd (retire t) (\<lambda>gone.
            ret (if gone then K(t := None) else K(t \<mapsto> k)))) s1"
      by (auto simp: sched_round_alt bnd_def [of "get _"] bnd_def [of "dispatch _"] sem_simps)
  qed
qed

theorem sched_round_outcome_witness:
  "\<exists>s1 :: sched. queues_ok s1 ((demoL RunQueue)(RunQueue := [2])) \<and> taskrunning s1 = Some 1 \<and>
     tasknswitch s1 = 8"
proof -
  let ?s = "(demo RunQueue ())\<lparr>taskrunning := None\<rparr>"
  have "tasknswitch (demo RunQueue ()) = 7" "taskcount (demo RunQueue ()) = 3" by (simp_all add: demo_def)
  then show ?thesis
    using sched_round_outcome [of ?s "demoL RunQueue" "\<lambda>_ _. ret ()" "\<lambda>_. None"]
    by (auto simp: demo_idle demo_user_tasks)
qed

text \<open>
  C35: \<open>taskyield\<close> puts the caller at the end of the run queue and gives up the CPU; when it goes
  on it returns the number of switches in between but its own, i.e. how many turns of other tasks
  were run. It fails only by the stack check.
\<close>

theorem taskyield_counts:
  assumes "queues_ok s L" and "taskrunning s = Some t" and "t \<in> dom (tasks s)" and "\<not> queued L t"
  shows "(\<exists>s' k. taskyield s = Switch s' k \<and>
      queues_ok s' (L(RunQueue := L RunQueue @ [t])) \<and> dom (tasks s') = dom (tasks s) \<and>
      (\<forall>s''. k s'' = Ret (tasknswitch s'' - tasknswitch s - 1) s'')) \<or>
    (\<exists>s'. taskyield s = Halt Abort s')"
proof -
  from taskready_spec [OF assms(1,3,4)] obtain s1 where s1: "taskready t s = Ret () s1"
    "queues_ok s1 (L(RunQueue := L RunQueue @ [t]))" "relinked (mark_ready t s) s1"
    by (auto simp: runs_def)
  have c: "calm s s1" by (rule ready_calm [OF s1(3)])
  obtain x where x: "tasks s1 t = Some x" using assms(3) calm_dom [OF c] by (metis domD)
  let ?s = "s1\<lparr>tasks := (tasks s1)(t \<mapsto> x\<lparr>tstate := ''yield''\<rparr>)\<rparr>"
  have run: "taskrunning s1 = Some t" using c assms(2) by (simp add: calm_def)
  have "taskstate ''yield'' [] s1 = Ret () ?s"
    using run x by (simp add: taskstate_def running_def deref_def bnd_def sem_simps vsnprintp_text mod_task_def)
  then have "taskyield s = bnd taskswitch (\<lambda>_. get (\<lambda>s''. tasknswitch s'' - tasknswitch s - 1)) ?s"
    using s1(1) assms(2)
    by (simp add: taskyield_def running_def deref_def bnd_def sem_simps)
  moreover have "taskswitch ?s = Halt Abort ?s \<or> taskswitch ?s = Switch ?s (ret ())"
    using run by (simp add: taskswitch_def needstack_def running_def bnd_def deref_def load_task_def sem_simps)
  moreover have "queues_ok ?s (L(RunQueue := L RunQueue @ [t]))"
    using s1(2) x by simp
  moreover have "dom (tasks ?s) = dom (tasks s)" using calm_dom [OF c] x by auto
  ultimately show ?thesis
    by (auto simp: bnd_def ret_def get_def)
qed

theorem taskyield_counts_witness:
  "(\<exists>s' k. taskyield (demo RunQueue ()) = Switch s' k \<and>
      queues_ok s' ((demoL RunQueue)(RunQueue := [1, 2, 0])) \<and>
      (\<forall>s''. k s'' = Ret (tasknswitch s'' - 8) s'')) \<or>
    (\<exists>s'. taskyield (demo RunQueue ()) = Halt Abort s')"
proof -
  have "tasknswitch (demo RunQueue ()) = 7" by (simp add: demo_def)
  then show ?thesis
    using taskyield_counts [OF demo_queues, of RunQueue "()" 0] by (auto simp: algebra_simps)
qed

text \<open>
  The stack check aborts exactly when the frame of the running task lies at the bottom of its
  stack or below, or less than 256 bytes (and what the caller asks for) above it.
\<close>

lemma needstack_guards:
  assumes "taskrunning s = Some p" and "tasks s p = Some t"
  shows "needstack n s =
    (if stk t < frame_at s p \<and> sint (256 + n) \<le> sint (frame_at s p - stk t) then Ret () s
     else Halt Abort s)"
  using assms
  by (auto simp: needstack_def running_def deref_def load_task_def bnd_def sem_simps)

lemma needstack_guards_example:
  "needstack 0 (demo RunQueue ()) = Ret () (demo RunQueue ()) \<and>
   needstack 30000 (demo RunQueue ()) = Halt Abort (demo RunQueue ())"
proof -
  have "frame_at (demo RunQueue ()) 0 = 30000" by (simp add: demo_def)
  then show ?thesis
    using needstack_guards [of "demo RunQueue ()" 0 "task_zero\<lparr>tid := 1\<rparr>" 0]
      needstack_guards [of "demo RunQueue ()" 0 "task_zero\<lparr>tid := 1\<rparr>" 30000]
    by (simp add: task_zero_def)
qed

end
