(* ===== verification/Qlock.thy ===== *)
theory Qlock
  imports Examples
begin

text \<open>
  qlock.c, the queuing locks. \<open>do_qlock\<close> is the static function \<open>_qlock\<close>. The address of a lock
  is a number; \<open>qowner\<close> is its field \<open>owner\<close>, and the list \<open>QWaiting l\<close> its field \<open>waiting\<close>. The
  diagnostics printed before an \<open>abort\<close> are left out.

  The second half is the protocol of all tasks that use one lock: the steps are the model's
  functions, and the invariant of the reachable states gives mutual exclusion, that no wakeup is
  lost, and that the consistency check after the wait (\<open>oops\<close>, \<open>abort\<close>) never fails.
\<close>

record qlocks = sched +
  qowner :: "nat \<Rightarrow> tptr option"

definition set_owner :: "nat \<Rightarrow> tptr option \<Rightarrow> ('z qlocks_scheme, unit) prog" where
  "set_owner l t = upd (\<lambda>s. s\<lparr>qowner := (qowner s)(l := t)\<rparr>)"

text \<open>The code after the wait.\<close>

definition qlock_check :: "nat \<Rightarrow> ('z qlocks_scheme, cint) prog" where
  "qlock_check l =
     bnd (get (\<lambda>s. qowner s l)) (\<lambda>owner.
     bnd (get taskrunning) (\<lambda>self.
     if owner \<noteq> self then halt Abort else ret 1))"

definition do_qlock :: "nat \<Rightarrow> bool \<Rightarrow> ('z qlocks_scheme, cint) prog" where
  "do_qlock l block =
     bnd (get (\<lambda>s. qowner s l)) (\<lambda>owner.
     if owner = None then
       bnd (get taskrunning) (\<lambda>self.
       bnd (set_owner l self) (\<lambda>_.
       ret 1))
     else if \<not> block then ret 0
     else
       bnd running (\<lambda>t.
       bnd (addtask (QWaiting l) t) (\<lambda>_.
       bnd (taskstate ''qlock'' []) (\<lambda>_.
       bnd taskswitch (\<lambda>_.
       qlock_check l)))))"

definition qlock :: "nat \<Rightarrow> ('z qlocks_scheme, unit) prog" where
  "qlock l = bnd (do_qlock l True) (\<lambda>_. ret ())"

definition canqlock :: "nat \<Rightarrow> ('z qlocks_scheme, cint) prog" where
  "canqlock l = do_qlock l False"

definition qunlock :: "nat \<Rightarrow> ('z qlocks_scheme, unit) prog" where
  "qunlock l =
     bnd (get (\<lambda>s. qowner s l)) (\<lambda>owner.
     if owner = None then halt Abort
     else
       bnd (get (\<lambda>s. head (lists s (QWaiting l)))) (\<lambda>ready.
       bnd (set_owner l ready) (\<lambda>_.
       case ready of
         None \<Rightarrow> ret ()
       | Some t \<Rightarrow>
           bnd (deltask (QWaiting l) t) (\<lambda>_.
           taskready t))))"

section \<open>Each operation\<close>

lemma qowner_more: "sched.more s' = sched.more s \<Longrightarrow> qowner s' = qowner s"
  by (cases s, cases s') simp

lemma runs_set_owner [simp]:
  "runs (set_owner l t) s P \<longleftrightarrow> P () (s\<lparr>qowner := (qowner s)(l := t)\<rparr>)"
  by (simp add: set_owner_def)

lemma queues_ok_qowner [simp]: "queues_ok (s\<lparr>qowner := w\<rparr>) L = queues_ok s L"
  by (simp add: queues_ok_def)

lemma do_qlock_free:
  "qowner s l = None \<Longrightarrow>
   do_qlock l block s = Ret 1 (s\<lparr>qowner := (qowner s)(l := taskrunning s)\<rparr>)"
  by (simp add: do_qlock_def set_owner_def bnd_def sem_simps)

lemma do_qlock_busy: "qowner s l = Some u \<Longrightarrow> do_qlock l False s = Ret 0 s"
  by (simp add: do_qlock_def bnd_def sem_simps)

lemma do_qlock_wait:
  assumes "queues_ok s L" and "taskrunning s = Some t" "t \<in> dom (tasks s)" "\<not> queued L t"
    and "qowner s l = Some u"
  shows "(\<exists>s'. do_qlock l True s = Switch s' (qlock_check l) \<and> waits_on (QWaiting l) L t s s') \<or>
    (\<exists>s'. do_qlock l True s = Halt Abort s')"
  by (rule wait_Switch [where fmt = "''qlock''" and q = "QWaiting l"])
    (use assms in \<open>simp_all add: do_qlock_def running_def bnd_assoc bnd_def [of "get _"] sem_simps deref_def\<close>)

lemma qlock_check_own:
  "qlock_check l s = (if qowner s l = taskrunning s then Ret 1 s else Halt Abort s)"
  by (simp add: qlock_check_def bnd_def sem_simps)

lemma qunlock_free: "qowner s l = None \<Longrightarrow> qunlock l s = Halt Abort s"
  by (simp add: qunlock_def bnd_def sem_simps)

lemma qunlock_nobody:
  "queues_ok s L \<Longrightarrow> qowner s l = Some u \<Longrightarrow> L (QWaiting l) = [] \<Longrightarrow>
   qunlock l s = Ret () (s\<lparr>qowner := (qowner s)(l := None)\<rparr>)"
  by (simp add: qunlock_def set_owner_def bnd_def sem_simps head_hd)

lemma qunlock_next:
  assumes ok: "queues_ok s L" and u: "qowner s l = Some u" and w: "L (QWaiting l) = t # ts"
  shows "runs (qunlock l) s (\<lambda>_ s'. queues_ok s' (moved (QWaiting l) t L) \<and>
    relinked (mark_ready t (s\<lparr>qowner := (qowner s)(l \<mapsto> t)\<rparr>)) s')"
proof -
  have "runs (hand_over (QWaiting l) t) (s\<lparr>qowner := (qowner s)(l \<mapsto> t)\<rparr>)
      (\<lambda>_ s'. queues_ok s' (moved (QWaiting l) t L) \<and>
        relinked (mark_ready t (s\<lparr>qowner := (qowner s)(l \<mapsto> t)\<rparr>)) s')"
    by (rule hand_over_spec) (use ok w in simp_all)
  then show ?thesis
    using u w head_hd [OF ok, of "QWaiting l"]
    by (auto simp: qunlock_def runs_bnd hand_over_def)
qed

section \<open>The protocol of one lock\<close>

text \<open>Where a task stands: it does not use the lock, it waits with the rest of \<open>_qlock\<close>, it holds it.\<close>

datatype 'k phase = Outside | Waits 'k | Holds

text \<open>Everything else that happens: the scheduler and code that does not use this lock.\<close>

definition elsewhere :: "nat \<Rightarrow> 'z qlocks_scheme \<Rightarrow> 'z qlocks_scheme \<Rightarrow> bool" where
  "elsewhere l s s' \<longleftrightarrow> qowner s' l = qowner s l \<and>
     (\<exists>L L'. queues_ok s L \<and> queues_ok s' L' \<and> L' (QWaiting l) = L (QWaiting l))"

inductive qlock_sys ::
    "nat \<Rightarrow> 'z qlocks_scheme \<Rightarrow> (tptr \<Rightarrow> ('z qlocks_scheme, cint) prog phase) \<Rightarrow> bool" for l where
  init: "queues_ok s L \<Longrightarrow> L (QWaiting l) = [] \<Longrightarrow> qowner s l = None \<Longrightarrow>
    qlock_sys l s (\<lambda>_. Outside)"
| acquire: "qlock_sys l s ph \<Longrightarrow> on_cpu t s \<Longrightarrow> ph t = Outside \<Longrightarrow>
    do_qlock l block s = Ret r s' \<Longrightarrow> qlock_sys l s' (if r = 1 then ph(t := Holds) else ph)"
| wait: "qlock_sys l s ph \<Longrightarrow> on_cpu t s \<Longrightarrow> ph t = Outside \<Longrightarrow>
    do_qlock l block s = Switch s' k \<Longrightarrow> qlock_sys l s' (ph(t := Waits k))"
| resume: "qlock_sys l s ph \<Longrightarrow> on_cpu t s \<Longrightarrow> ph t = Waits k \<Longrightarrow>
    k s = Ret r s' \<Longrightarrow> qlock_sys l s' (ph(t := Holds))"
| release: "qlock_sys l s ph \<Longrightarrow> on_cpu t s \<Longrightarrow> ph t = Holds \<Longrightarrow>
    qunlock l s = Ret () s' \<Longrightarrow> qlock_sys l s' (ph(t := Outside))"
| other: "qlock_sys l s ph \<Longrightarrow> elsewhere l s s' \<Longrightarrow> qlock_sys l s' ph"

definition qlock_inv ::
    "nat \<Rightarrow> 'z qlocks_scheme \<Rightarrow> (tptr \<Rightarrow> ('z qlocks_scheme, cint) prog phase) \<Rightarrow> queues \<Rightarrow> bool" where
  "qlock_inv l s ph L \<longleftrightarrow>
     queues_ok s L \<and>
     (\<forall>t. t \<in> set (L (QWaiting l)) \<longrightarrow> ph t = Waits (qlock_check l) \<and> qowner s l \<noteq> Some t) \<and>
     (\<forall>t k. ph t = Waits k \<longrightarrow>
        k = qlock_check l \<and> (t \<in> set (L (QWaiting l)) \<or> qowner s l = Some t)) \<and>
     (\<forall>t. ph t = Holds \<longrightarrow> qowner s l = Some t) \<and>
     (\<forall>t. qowner s l = Some t \<longrightarrow> ph t \<noteq> Outside) \<and>
     (qowner s l = None \<longrightarrow> L (QWaiting l) = [])"

lemma qlock_acquire_inv:
  assumes inv: "qlock_inv l s ph L" and t: "on_cpu t s" "ph t = Outside"
    and r: "do_qlock l block s = Ret r s'"
  shows "qlock_inv l s' (if r = 1 then ph(t := Holds) else ph) L"
proof (cases "qowner s l")
  case None
  have run: "taskrunning s = Some t" using t(1) by (simp add: on_cpu_def)
  have "r = 1 \<and> s' = s\<lparr>qowner := (qowner s)(l := Some t)\<rparr>"
    using trans [OF do_qlock_free [OF None, of block, symmetric] r] unfolding run res.inject by blast
  then have s': "r = 1" "s' = s\<lparr>qowner := (qowner s)(l := Some t)\<rparr>" by blast+
  have idle: "t \<notin> set (L (QWaiting l))" "L (QWaiting l) = []" "\<And>p. ph p = Outside"
    using inv None by (auto simp: qlock_inv_def) (metis phase.exhaust option.distinct(1) list.set(1) empty_iff)
  show ?thesis using inv idle by (simp add: s' qlock_inv_def)
next
  case (Some u)
  show ?thesis
  proof (cases block)
    case True
    have "queues_ok s L" using inv by (simp add: qlock_inv_def)
    from do_qlock_wait [OF this on_cpuD [OF t(1) this] Some] r True show ?thesis by auto
  next
    case False
    with do_qlock_busy [OF Some] r inv show ?thesis by auto
  qed
qed

lemma qlock_wait_inv:
  assumes inv: "qlock_inv l s ph L" and t: "on_cpu t s" "ph t = Outside"
    and r: "do_qlock l block s = Switch s' k"
  shows "qlock_inv l s' (ph(t := Waits k)) (L(QWaiting l := L (QWaiting l) @ [t]))"
proof (cases "qowner s l")
  case None
  with do_qlock_free [OF None, of block] r show ?thesis by simp
next
  case (Some u)
  then have "block" using do_qlock_busy [OF Some] r by (cases block) auto
  have q: "queues_ok s L" using inv by (simp add: qlock_inv_def)
  from do_qlock_wait [OF q on_cpuD [OF t(1) q] Some] r \<open>block\<close>
  have s': "waits_on (QWaiting l) L t s s'" and k: "k = qlock_check l" by auto
  have "qowner s' = qowner s" by (rule qowner_more) (use s' in \<open>simp add: waits_on_def\<close>)
  moreover have "u \<noteq> t" using inv Some t(2) by (auto simp: qlock_inv_def)
  ultimately show ?thesis
    using inv s' k Some by (auto simp: qlock_inv_def waits_on_def)
qed

lemma qlock_release_inv:
  assumes inv: "qlock_inv l s ph L" and t: "on_cpu t s" "ph t = Holds"
    and r: "qunlock l s = Ret () s'"
  shows "\<exists>L'. qlock_inv l s' (ph(t := Outside)) L'"
proof -
  have q: "queues_ok s L" and own: "qowner s l = Some t" using inv t by (auto simp: qlock_inv_def)
  have only: "ph p \<noteq> Holds" if "p \<noteq> t" for p using inv own that by (auto simp: qlock_inv_def)
  have nt: "t \<notin> set (L (QWaiting l))" using inv own by (auto simp: qlock_inv_def)
  show ?thesis
  proof (cases "L (QWaiting l)")
    case Nil
    with qunlock_nobody [OF q own] r inv own only show ?thesis
      by (auto simp: qlock_inv_def intro!: exI [of _ L])
  next
    case (Cons u us)
    let ?L = "moved (QWaiting l) u L"
    from qunlock_next [OF q own Cons] r
    have q': "queues_ok s' ?L" and rl: "relinked (mark_ready u (s\<lparr>qowner := (qowner s)(l \<mapsto> u)\<rparr>)) s'"
      by (auto simp: runs_def)
    have own': "qowner s' = (qowner s)(l \<mapsto> u)"
      using qowner_more [OF ready_more [OF rl]] by simp
    have L': "?L (QWaiting l) = us" using Cons by simp
    have "distinct (u # us)" using queues_tlist [OF q, of "QWaiting l"] Cons by (simp add: tlist_def)
    then show ?thesis
      using inv q' own' only nt Cons own
      by (intro exI [of _ ?L]) (auto simp: qlock_inv_def)
  qed
qed

lemma qlock_sys_inv: "qlock_sys l s ph \<Longrightarrow> \<exists>L. qlock_inv l s ph L"
proof (induction rule: qlock_sys.induct)
  case (init s L)
  then show ?case by (auto simp: qlock_inv_def)
next
  case (acquire s ph t block r s')
  then show ?case using qlock_acquire_inv by blast
next
  case (wait s ph t block s' k)
  then show ?case using qlock_wait_inv by blast
next
  case (resume s ph t k r s')
  then obtain L where inv: "qlock_inv l s ph L" by blast
  then have q: "queues_ok s L" by (simp add: qlock_inv_def)
  note t = on_cpuD [OF resume.hyps(2) q]
  have "t \<notin> set (L (QWaiting l))" using t(3) by (auto simp: queued_def)
  then have own: "qowner s l = Some t" "k = qlock_check l"
    using inv resume.hyps(3) by (auto simp: qlock_inv_def)
  then have "s' = s" using resume.hyps(4) t(1) by (simp add: qlock_check_own)
  then have "qlock_inv l s' (ph(t := Holds)) L" using inv own by (auto simp: qlock_inv_def)
  then show ?case by blast
next
  case (release s ph t s')
  then show ?case using qlock_release_inv by blast
next
  case (other s ph s')
  then obtain L L' L1 where "qlock_inv l s ph L" "queues_ok s L1" "queues_ok s' L'"
    "L' (QWaiting l) = L1 (QWaiting l)" "qowner s' l = qowner s l"
    by (auto simp: elsewhere_def)
  moreover from this have "L1 = L" by (auto simp: qlock_inv_def intro: queues_unique)
  ultimately have "qlock_inv l s' ph L'" by (simp add: qlock_inv_def)
  then show ?case by blast
qed

section \<open>Safety\<close>

text \<open>What a component that relies on the locks promises in addition to \<open>sched_client\<close>.\<close>

locale qlock_client = sched_client J Keep naps Pre
  for J :: "'z qlocks_scheme \<Rightarrow> tptr set \<Rightarrow> bool"
    and Keep :: "tptr \<Rightarrow> 'z qlocks_scheme \<Rightarrow> 'z qlocks_scheme \<Rightarrow> bool"
    and naps :: "'z qlocks_scheme \<Rightarrow> int"
    and Pre :: "'z qlocks_scheme \<Rightarrow> nat \<Rightarrow> uint \<Rightarrow> bool" +
  assumes J_qowner: "J s A \<Longrightarrow> J (s\<lparr>qowner := w\<rparr>) A"
    and Keep_qowner: "Keep t s (s\<lparr>qowner := w\<rparr>)"
    and naps_qowner: "naps (s\<lparr>qowner := w\<rparr>) = naps s"
begin

lemma Safe_set_owner:
  "(\<And>s w. P s \<Longrightarrow> Q () (s\<lparr>qowner := w\<rparr>)) \<Longrightarrow> Safe t P (set_owner l v) Q"
proof (rule Safe_runs)
  fix s
  assume Q: "\<And>s w. P s \<Longrightarrow> Q () (s\<lparr>qowner := w\<rparr>)" and run: "Run t s" and P: "P s"
  let ?s = "s\<lparr>qowner := (qowner s)(l := v)\<rparr>"
  from run obtain L where r: "RunL t L s" by (auto simp: Run_RunL)
  have "mild t L L s ?s"
    by (rule mildI) (use RunL_D(1) [OF r] in \<open>simp_all add: calm_def naps_qowner Others_def Keep_qowner\<close>)
  then have "RunL t L ?s"
    by (rule calm_RunL [OF r]) (use RunL_D [OF r] in \<open>auto simp: parked_def intro: J_qowner\<close>)
  then show "runs (set_owner l v) s (\<lambda>a s'. Run t s' \<and> Others t s s' \<and> Q a s')"
    using Q [OF P] by (auto simp: RunL_Run Others_def Keep_qowner)
qed

lemma OK_do_qlock: "OK t (do_qlock l block)"
  unfolding do_qlock_def qlock_check_def
  by (intro OK_bnd [OF OK_get] Safe_if OK_bnd [OF Safe_set_owner] OK_running OK_wait OK_ret OK_halt) auto

lemma OK_qlock: "OK t (qlock l)"
  unfolding qlock_def by (intro OK_bnd OK_do_qlock OK_ret)

lemma OK_canqlock: "OK t (canqlock l)"
  unfolding canqlock_def by (rule OK_do_qlock)

lemma OK_qunlock: "OK t (qunlock l)"
proof -
  have set: "Safe t (\<lambda>s. head (lists s q) = h) (set_owner l v) (\<lambda>_ s. head (lists s q) = h)" for q h v
    by (rule Safe_set_owner) simp
  have "Safe t (\<lambda>s. head (lists s (QWaiting l)) = Some u) (hand_over (QWaiting l) u) (\<lambda>_ _. True)" for u
    by (rule Safe_hand_over) simp_all
  then have wake: "Safe t (\<lambda>s. head (lists s (QWaiting l)) = h)
      (case h of None \<Rightarrow> ret () | Some u \<Rightarrow> hand_over (QWaiting l) u) (\<lambda>_ _. True)" for h
    by (cases h) (simp_all add: OK_pre)
  have "OK t (bnd (get (\<lambda>s. head (lists s (QWaiting l)))) (\<lambda>h. bnd (set_owner l h) (\<lambda>_.
      case h of None \<Rightarrow> ret () | Some u \<Rightarrow> hand_over (QWaiting l) u)))"
    by (rule Safe_bnd [where Q = "\<lambda>h s. head (lists s (QWaiting l)) = h"])
      (auto intro!: Safe_get Safe_bnd [OF set wake])
  then show ?thesis
    unfolding qunlock_def hand_over_def
    by - (rule OK_bnd [OF OK_get], simp add: OK_halt)
qed

lemmas OK_qlocks = OK_qlock OK_canqlock OK_qunlock

end

interpretation qlocks: qlock_client "\<lambda>_ _. True" "\<lambda>_ _ _. True" "\<lambda>_. 0" "\<lambda>_ _ _. True"
  by unfold_locales simp_all

section \<open>Properties of the queuing locks\<close>

text \<open>
  All outcomes of \<open>_qlock\<close>. A free lock is taken at once; a held one gives 0 without waiting
  if the caller does not want to wait; otherwise the caller is appended to the waiting list and
  gives up the CPU, and goes on with the check that it owns the lock. Nothing else of the lock
  changes.
\<close>

lemma qlock_outcome:
  assumes "queues_ok s L" and "taskrunning s = Some t" "t \<in> dom (tasks s)" "\<not> queued L t"
  shows "(qowner s l = None \<longrightarrow>
      do_qlock l block s = Ret 1 (s\<lparr>qowner := (qowner s)(l := Some t)\<rparr>)) \<and>
    (qowner s l \<noteq> None \<and> \<not> block \<longrightarrow> do_qlock l block s = Ret 0 s) \<and>
    (qowner s l \<noteq> None \<and> block \<longrightarrow>
      (\<exists>s'. do_qlock l block s = Switch s' (qlock_check l) \<and> qowner s' = qowner s \<and>
         queues_ok s' (L(QWaiting l := L (QWaiting l) @ [t]))) \<or>
      (\<exists>s'. do_qlock l block s = Halt Abort s'))"
proof (cases "qowner s l")
  case None
  then show ?thesis using do_qlock_free [OF None, of block] assms(2) by simp
next
  case (Some u)
  from do_qlock_wait [OF assms Some] do_qlock_busy [OF Some] Some show ?thesis
    by (cases block) (auto simp: waits_on_def dest: qowner_more)
qed

lemma qlock_outcome_example:
  "do_qlock 7 False (demo (QWaiting 7) (qlocks_ext [7 \<mapsto> 0] ())) =
     Ret 0 (demo (QWaiting 7) (qlocks_ext [7 \<mapsto> 0] ())) \<and>
   do_qlock 8 True (demo (QWaiting 7) (qlocks_ext [7 \<mapsto> 0] ())) =
     Ret 1 ((demo (QWaiting 7) (qlocks_ext [7 \<mapsto> 0] ()))\<lparr>qowner := [7 \<mapsto> 0, 8 \<mapsto> 0]\<rparr>)"
proof -
  let ?s = "demo (QWaiting 7) (qlocks_ext [7 \<mapsto> 0] ())"
  have o: "qowner ?s = [7 \<mapsto> 0]" by (simp add: demo_def)
  show ?thesis
    using qlock_outcome [OF demo_queues, of "QWaiting 7" "qlocks_ext [7 \<mapsto> 0] ()" 0 7 False]
      qlock_outcome [OF demo_queues, of "QWaiting 7" "qlocks_ext [7 \<mapsto> 0] ()" 0 8 True]
    by (simp add: o fun_upd_twist)
qed

text \<open>
  C24: all outcomes of \<open>qunlock\<close>. A lock nobody holds is a fault; a lock nobody waits for becomes
  free; otherwise it passes directly to the task that waited longest, which is readied, and the
  rest of the waiting list keeps its order.
\<close>

theorem qunlock_passes_on:
  assumes "queues_ok s L"
  shows "(qowner s l = None \<longrightarrow> qunlock l s = Halt Abort s) \<and>
    (qowner s l \<noteq> None \<and> L (QWaiting l) = [] \<longrightarrow>
       qunlock l s = Ret () (s\<lparr>qowner := (qowner s)(l := None)\<rparr>)) \<and>
    (\<forall>t ts. qowner s l \<noteq> None \<and> L (QWaiting l) = t # ts \<longrightarrow>
       runs (qunlock l) s (\<lambda>_ s'. qowner s' = (qowner s)(l := Some t) \<and>
         queues_ok s' (L(QWaiting l := ts, RunQueue := L RunQueue @ [t]))))"
proof -
  have "runs (qunlock l) s (\<lambda>_ s'. qowner s' = (qowner s)(l := Some t) \<and>
      queues_ok s' (L(QWaiting l := ts, RunQueue := L RunQueue @ [t])))"
    if "qowner s l = Some u" and w: "L (QWaiting l) = t # ts" for u t ts
    by (rule runs_mono [OF qunlock_next [OF assms that]])
      (use w in \<open>auto dest!: qowner_more [OF ready_more]\<close>)
  then show ?thesis
    using qunlock_free [of s l] qunlock_nobody [OF assms, of l] by auto
qed

theorem qunlock_passes_on_witness:
  "runs (qunlock 7) (demo (QWaiting 7) (qlocks_ext [7 \<mapsto> 0] ())) (\<lambda>_ s'. qowner s' 7 = Some 1 \<and>
     queues_ok s' ((demoL (QWaiting 7))(QWaiting 7 := [2], RunQueue := [1])))"
proof -
  let ?s = "demo (QWaiting 7) (qlocks_ext [7 \<mapsto> 0] ())"
  have o: "qowner ?s = [7 \<mapsto> 0]" by (simp add: demo_def)
  show ?thesis
    using qunlock_passes_on [OF demo_queues, of "QWaiting 7" "qlocks_ext [7 \<mapsto> 0] ()" 7]
    by (auto simp: o elim!: runs_mono)
qed


text \<open>For the witness: task 0 takes the lock in the small state.\<close>

lemma qlock_demo:
  "qlock_sys 3 ((demo RunQueue (qlocks_ext (\<lambda>_. None) ()))\<lparr>qowner := [3 \<mapsto> 0]\<rparr>) ((\<lambda>_. Outside)(0 := Holds))"
proof -
  let ?s = "demo RunQueue (qlocks_ext (\<lambda>_. None) ())"
  have o: "qowner ?s = (\<lambda>_. None)" by (simp add: demo_def)
  have sys: "qlock_sys 3 ?s (\<lambda>_. Outside)"
    by (rule qlock_sys.init [OF demo_queues]) (simp_all only: o demo_simps lptr.distinct not_False_eq_True)
  have cpu: "on_cpu 0 ?s"
    by (rule demo_on_cpu)
  have "do_qlock 3 True ?s = Ret 1 (?s\<lparr>qowner := [3 \<mapsto> 0]\<rparr>)"
    using do_qlock_free [of ?s 3 True] by (simp only: o demo_simps)
  from qlock_sys.acquire [OF sys cpu _ this] show ?thesis by simp
qed


end
