(* ===== verification/Rwlock.thy ===== *)
theory Rwlock
  imports Qlock
begin

text \<open>
  qlock.c, the reader-writer locks. \<open>do_rlock\<close> and \<open>do_wlock\<close> are the static functions \<open>_rlock\<close>
  and \<open>_wlock\<close>; the lists \<open>RWaiting l\<close> and \<open>WWaiting l\<close> are the fields \<open>rwaiting\<close> and
  \<open>wwaiting\<close>. The loop of \<open>wunlock\<close> runs with a fuel that \<open>wake_readers_enough\<close> shows to be enough.

  The second half is the protocol of the tasks that use one lock: writers exclude everybody, and
  somebody who holds the lock will wake those who wait.
\<close>

record rwlock =
  readers :: cint
  writer :: "tptr option"

record rwlocks = qlocks +
  rw :: "nat \<Rightarrow> rwlock"

definition mod_rw :: "nat \<Rightarrow> (rwlock \<Rightarrow> rwlock) \<Rightarrow> ('z rwlocks_scheme, unit) prog" where
  "mod_rw l f = upd (\<lambda>s. s\<lparr>rw := (rw s)(l := f (rw s l))\<rparr>)"

definition do_rlock :: "nat \<Rightarrow> bool \<Rightarrow> ('z rwlocks_scheme, cint) prog" where
  "do_rlock l block =
     bnd (get (\<lambda>s. writer (rw s l) = None \<and> head (lists s (WWaiting l)) = None)) (\<lambda>free.
     if free then
       bnd (mod_rw l (\<lambda>x. x\<lparr>readers := readers x + 1\<rparr>)) (\<lambda>_.
       ret 1)
     else if \<not> block then ret 0
     else
       bnd running (\<lambda>t.
       bnd (addtask (RWaiting l) t) (\<lambda>_.
       bnd (taskstate ''rlock'' []) (\<lambda>_.
       bnd taskswitch (\<lambda>_.
       ret 1)))))"

definition rlock :: "nat \<Rightarrow> ('z rwlocks_scheme, unit) prog" where
  "rlock l = bnd (do_rlock l True) (\<lambda>_. ret ())"

definition canrlock :: "nat \<Rightarrow> ('z rwlocks_scheme, cint) prog" where
  "canrlock l = do_rlock l False"

definition do_wlock :: "nat \<Rightarrow> bool \<Rightarrow> ('z rwlocks_scheme, cint) prog" where
  "do_wlock l block =
     bnd (get (\<lambda>s. writer (rw s l) = None \<and> readers (rw s l) = 0)) (\<lambda>free.
     if free then
       bnd (get taskrunning) (\<lambda>self.
       bnd (mod_rw l (\<lambda>x. x\<lparr>writer := self\<rparr>)) (\<lambda>_.
       ret 1))
     else if \<not> block then ret 0
     else
       bnd running (\<lambda>t.
       bnd (addtask (WWaiting l) t) (\<lambda>_.
       bnd (taskstate ''wlock'' []) (\<lambda>_.
       bnd taskswitch (\<lambda>_.
       ret 1)))))"

definition wlock :: "nat \<Rightarrow> ('z rwlocks_scheme, unit) prog" where
  "wlock l = bnd (do_wlock l True) (\<lambda>_. ret ())"

definition canwlock :: "nat \<Rightarrow> ('z rwlocks_scheme, cint) prog" where
  "canwlock l = do_wlock l False"

text \<open>The last statement of \<open>runlock\<close> and of \<open>wunlock\<close>: the first waiting writer gets the lock.\<close>

definition grant_writer :: "nat \<Rightarrow> ('z rwlocks_scheme, unit) prog" where
  "grant_writer l =
     bnd (get (\<lambda>s. head (lists s (WWaiting l)))) (\<lambda>h.
     case h of
       None \<Rightarrow> ret ()
     | Some t \<Rightarrow>
         bnd (deltask (WWaiting l) t) (\<lambda>_.
         bnd (mod_rw l (\<lambda>x. x\<lparr>writer := Some t\<rparr>)) (\<lambda>_.
         taskready t)))"

definition runlock :: "nat \<Rightarrow> ('z rwlocks_scheme, unit) prog" where
  "runlock l =
     bnd (mod_rw l (\<lambda>x. x\<lparr>readers := readers x - 1\<rparr>)) (\<lambda>_.
     bnd (get (\<lambda>s. readers (rw s l))) (\<lambda>n.
     whenp (n = 0) (grant_writer l)))"

fun wake_readers :: "nat \<Rightarrow> nat \<Rightarrow> ('z rwlocks_scheme, unit) prog" where
  "wake_readers 0 l = halt NoFuel"
| "wake_readers (Suc n) l =
     bnd (get (\<lambda>s. head (lists s (RWaiting l)))) (\<lambda>h.
     case h of
       None \<Rightarrow> ret ()
     | Some t \<Rightarrow>
         bnd (deltask (RWaiting l) t) (\<lambda>_.
         bnd (mod_rw l (\<lambda>x. x\<lparr>readers := readers x + 1\<rparr>)) (\<lambda>_.
         bnd (taskready t) (\<lambda>_.
         wake_readers n l))))"

definition wunlock :: "nat \<Rightarrow> ('z rwlocks_scheme, unit) prog" where
  "wunlock l =
     bnd (get (\<lambda>s. writer (rw s l))) (\<lambda>w.
     if w = None then halt Abort
     else
       bnd (mod_rw l (\<lambda>x. x\<lparr>writer := None\<rparr>)) (\<lambda>_.
       bnd (get (\<lambda>s. readers (rw s l))) (\<lambda>n.
       if n \<noteq> 0 then halt Abort
       else
         bnd (get (\<lambda>s. Suc (brk s))) (\<lambda>fuel.
         bnd (wake_readers fuel l) (\<lambda>_.
         bnd (get (\<lambda>s. readers (rw s l))) (\<lambda>n.
         whenp (n = 0) (grant_writer l)))))))"

section \<open>Each operation\<close>

lemma rw_more: "sched.more s' = sched.more s \<Longrightarrow> rw s' = rw s"
  by (cases s, cases s') simp

lemma runs_mod_rw [simp]:
  "runs (mod_rw l f) s P \<longleftrightarrow> P () (s\<lparr>rw := (rw s)(l := f (rw s l))\<rparr>)"
  by (simp add: mod_rw_def)

lemma queues_ok_rw [simp]: "queues_ok (s\<lparr>rw := w\<rparr>) L = queues_ok s L"
  by (simp add: queues_ok_def)

interpretation writing: framed "\<lambda>s :: 'z rwlocks_scheme. s\<lparr>rw := (rw s)(l := f (rw s l))\<rparr>" for l f
  by unfold_locales simp_all

definition add_readers :: "cint \<Rightarrow> nat \<Rightarrow> 'z rwlocks_scheme \<Rightarrow> 'z rwlocks_scheme" where
  "add_readers n l s = s\<lparr>rw := (rw s)(l := (rw s l)\<lparr>readers := readers (rw s l) + n\<rparr>)\<rparr>"

lemma granted:
  assumes "queues_ok s L" and "L q = t # ts" and "q \<noteq> RunQueue"
  shows "runs (bnd (deltask q t) (\<lambda>_. bnd (mod_rw l f) (\<lambda>_. taskready t))) s
    (\<lambda>_ s'. queues_ok s' (moved q t L) \<and>
      relinked (woken {t} (s\<lparr>rw := (rw s)(l := f (rw s l))\<rparr>)) s')"
  unfolding mod_rw_def by (rule writing.hand_over_with) (use assms in auto)

interpretation readers_wake: waking
  "add_readers 1 l" "RWaiting l" id
  "\<lambda>t. bnd (deltask (RWaiting l) t) (\<lambda>_.
     bnd (mod_rw l (\<lambda>x. x\<lparr>readers := readers x + 1\<rparr>)) (\<lambda>_. taskready t))"
  "\<lambda>n _. wake_readers n l" for l
proof unfold_locales
  fix s :: "'z rwlocks_scheme" and L t ts
  assume "queues_ok s L" "L (RWaiting l) = t # ts"
  then show "runs (bnd (deltask (RWaiting l) t) (\<lambda>_.
     bnd (mod_rw l (\<lambda>x. x\<lparr>readers := readers x + 1\<rparr>)) (\<lambda>_. taskready t))) s
    (\<lambda>_ s'. queues_ok s' (moved (RWaiting l) t L) \<and> relinked (woken {t} (add_readers 1 l s)) s')"
    unfolding add_readers_def by (rule granted) simp
qed (simp_all add: bnd_def [of "get _"] sem_simps bnd_assoc add_readers_def)

lemma pow_readers: "(add_readers 1 l ^^ n) s = add_readers (of_nat n) l s"
proof (induction n)
  case 0
  then show ?case by (simp add: add_readers_def)
next
  case (Suc n)
  then show ?case by (simp add: add_readers_def ac_simps)
qed

lemma wake_readers_all:
  assumes "queues_ok s L" and "length (L (RWaiting l)) < n"
  shows "runs (wake_readers n l) s (\<lambda>_ s'.
    queues_ok s' (L(RWaiting l := [], RunQueue := L RunQueue @ L (RWaiting l))) \<and>
    relinked (woken (set (L (RWaiting l))) (add_readers (of_nat (length (L (RWaiting l)))) l s)) s')"
  by (rule runs_mono [OF readers_wake.drains [OF assms, unfolded pow_readers]]) auto

text \<open>The fuel of \<open>wunlock\<close> is enough: a list holds no task twice, and live tasks lie below \<open>brk\<close>.\<close>

lemma queue_length:
  assumes "queues_ok s L" and "fresh_ok s"
  shows "length (L q) \<le> brk s"
proof -
  have "distinct (L q)" using queues_tlist [OF assms(1), of q] by (simp add: tlist_def)
  moreover have "set (L q) \<subseteq> {..<brk s}"
    using queued_live [OF assms(1)] assms(2) by (auto simp: queued_def fresh_ok_def)
  ultimately show ?thesis
    using card_mono [of "{..<brk s}" "set (L q)"] by (simp add: distinct_card)
qed

lemma do_rlock_free:
  "queues_ok s L \<Longrightarrow> writer (rw s l) = None \<Longrightarrow> L (WWaiting l) = [] \<Longrightarrow>
   do_rlock l block s = Ret 1 (s\<lparr>rw := (rw s)(l := (rw s l)\<lparr>readers := readers (rw s l) + 1\<rparr>)\<rparr>)"
  by (simp add: do_rlock_def mod_rw_def bnd_def sem_simps head_hd)

lemma do_rlock_busy:
  "queues_ok s L \<Longrightarrow> writer (rw s l) \<noteq> None \<or> L (WWaiting l) \<noteq> [] \<Longrightarrow> do_rlock l False s = Ret 0 s"
  by (auto simp: do_rlock_def bnd_def sem_simps head_hd)

lemma do_rlock_wait:
  assumes "queues_ok s L" and "taskrunning s = Some t" "t \<in> dom (tasks s)" "\<not> queued L t"
    and "writer (rw s l) \<noteq> None \<or> L (WWaiting l) \<noteq> []"
  shows "(\<exists>s'. do_rlock l True s = Switch s' (ret 1) \<and> waits_on (RWaiting l) L t s s') \<or>
    (\<exists>s'. do_rlock l True s = Halt Abort s')"
  by (rule wait_Switch [where fmt = "''rlock''" and q = "RWaiting l" and f = "\<lambda>_. ret 1"])
    (use assms in \<open>auto simp: do_rlock_def running_def bnd_assoc bnd_def [of "get _"] sem_simps deref_def head_hd\<close>)

lemma do_wlock_free:
  "writer (rw s l) = None \<Longrightarrow> readers (rw s l) = 0 \<Longrightarrow>
   do_wlock l block s = Ret 1 (s\<lparr>rw := (rw s)(l := (rw s l)\<lparr>writer := taskrunning s\<rparr>)\<rparr>)"
  by (simp add: do_wlock_def mod_rw_def bnd_def sem_simps)

lemma do_wlock_busy:
  "writer (rw s l) \<noteq> None \<or> readers (rw s l) \<noteq> 0 \<Longrightarrow> do_wlock l False s = Ret 0 s"
  by (auto simp: do_wlock_def bnd_def sem_simps)

lemma do_wlock_wait:
  assumes "queues_ok s L" and "taskrunning s = Some t" "t \<in> dom (tasks s)" "\<not> queued L t"
    and "writer (rw s l) \<noteq> None \<or> readers (rw s l) \<noteq> 0"
  shows "(\<exists>s'. do_wlock l True s = Switch s' (ret 1) \<and> waits_on (WWaiting l) L t s s') \<or>
    (\<exists>s'. do_wlock l True s = Halt Abort s')"
  by (rule wait_Switch [where fmt = "''wlock''" and q = "WWaiting l" and f = "\<lambda>_. ret 1"])
    (use assms in \<open>auto simp: do_wlock_def running_def bnd_assoc bnd_def [of "get _"] sem_simps deref_def\<close>)

lemma grant_nobody: "queues_ok s L \<Longrightarrow> L (WWaiting l) = [] \<Longrightarrow> grant_writer l s = Ret () s"
  by (simp add: grant_writer_def bnd_def sem_simps head_hd)

lemma grant_first:
  assumes "queues_ok s L" and "L (WWaiting l) = t # ts"
  shows "runs (grant_writer l) s (\<lambda>_ s'. queues_ok s' (moved (WWaiting l) t L) \<and>
    relinked (woken {t} (s\<lparr>rw := (rw s)(l := (rw s l)\<lparr>writer := Some t\<rparr>)\<rparr>)) s')"
  using granted [OF assms, of l "\<lambda>x. x\<lparr>writer := Some t\<rparr>"] head_hd [OF assms(1), of "WWaiting l"] assms(2)
  by (simp add: grant_writer_def runs_bnd)

text \<open>What \<open>wunlock\<close> and \<open>runlock\<close> do, as a function of the abstract queues.\<close>

definition after_grant :: "nat \<Rightarrow> queues \<Rightarrow> queues \<times> (rwlock \<Rightarrow> rwlock)" where
  "after_grant l L =
     (case L (WWaiting l) of
        [] \<Rightarrow> (L, id)
      | t # ts \<Rightarrow> (moved (WWaiting l) t L, \<lambda>x. x\<lparr>writer := Some t\<rparr>))"

definition readied :: "nat \<Rightarrow> 'z rwlocks_scheme \<Rightarrow> queues \<times> (rwlock \<Rightarrow> rwlock) \<Rightarrow> 'z rwlocks_scheme \<Rightarrow> bool" where
  "readied l s p s' \<longleftrightarrow> queues_ok s' (fst p) \<and> rw s' = (rw s)(l := snd p (rw s l)) \<and>
     calm s s' \<and> sched.more s' = sched.more (s\<lparr>rw := rw s'\<rparr>)"

lemma ready_readied:
  assumes "queues_ok s' L'" and "relinked (woken A (s\<lparr>rw := (rw s)(l := f (rw s l))\<rparr>)) s'"
  shows "readied l s (L', f) s'"
proof -
  have "rw s' = (rw s)(l := f (rw s l))"
    using rw_more [OF relinked_more [OF assms(2)]] by (simp add: woken_def)
  moreover have "calm s (s\<lparr>rw := (rw s)(l := f (rw s l))\<rparr>)" by (simp add: calm_def)
  then have "calm s s'"
    using woken_calm relinked_calm [OF assms(2)] by (blast intro: calm_trans)
  moreover have "sched.more s' = sched.more (s\<lparr>rw := (rw s)(l := f (rw s l))\<rparr>)"
    using relinked_more [OF assms(2)] by (simp add: woken_def)
  ultimately show ?thesis using assms(1) by (simp add: readied_def)
qed

lemma readied_trans:
  assumes "calm s s1" and "rw s1 = rw s" and "sched.more s1 = sched.more s" and "readied l s1 p s'"
  shows "readied l s p s'"
proof -
  have "sched.more (s1\<lparr>rw := w\<rparr>) = sched.more (s\<lparr>rw := w\<rparr>)" for w
    using assms(3) by (cases s1, cases s) simp
  then show ?thesis using assms by (auto simp: readied_def intro: calm_trans)
qed

lemma grant_spec:
  assumes "queues_ok s L"
  shows "runs (grant_writer l) s (\<lambda>_. readied l s (after_grant l L))"
proof (cases "L (WWaiting l)")
  case Nil
  then show ?thesis
    using assms by (simp add: runs_def grant_nobody after_grant_def readied_def)
next
  case (Cons t ts)
  show ?thesis
    by (rule runs_mono [OF grant_first [OF assms Cons]], elim conjE)
      (use Cons in \<open>auto simp: after_grant_def dest: ready_readied\<close>)
qed

lemma runlock_spec:
  assumes "queues_ok s L"
  shows "runs (runlock l) s (\<lambda>_.
    let s1 = s\<lparr>rw := (rw s)(l := (rw s l)\<lparr>readers := readers (rw s l) - 1\<rparr>)\<rparr> in
    if readers (rw s l) = 1 then readied l s1 (after_grant l L) else (\<lambda>s'. s' = s1))"
  using grant_spec [of "s\<lparr>rw := (rw s)(l := (rw s l)\<lparr>readers := readers (rw s l) - 1\<rparr>)\<rparr>" L l] assms
  by (auto simp: runlock_def runs_bnd Let_def)

lemma wunlock_unlocked: "writer (rw s l) = None \<Longrightarrow> wunlock l s = Halt Abort s"
  by (simp add: wunlock_def bnd_def sem_simps)

text \<open>The release by the writer: all waiting readers at once, or else the first waiting writer.\<close>

lemma wunlock_spec:
  assumes ok: "queues_ok s L" and f: "fresh_ok s"
    and w: "writer (rw s l) \<noteq> None" and r: "readers (rw s l) = 0"
    and few: "length (L (RWaiting l)) < 2 ^ 32"
  shows "runs (wunlock l) s (\<lambda>_.
    let s1 = s\<lparr>rw := (rw s)(l := (rw s l)\<lparr>writer := None\<rparr>)\<rparr> in
    if L (RWaiting l) = [] then readied l s1 (after_grant l L)
    else readied l s1 (L(RWaiting l := [], RunQueue := L RunQueue @ L (RWaiting l)),
      \<lambda>x. x\<lparr>readers := of_nat (length (L (RWaiting l)))\<rparr>))"
proof -
  let ?s = "s\<lparr>rw := (rw s)(l := (rw s l)\<lparr>writer := None\<rparr>)\<rparr>"
  let ?rs = "L (RWaiting l)" and ?L = "L(RWaiting l := [], RunQueue := L RunQueue @ L (RWaiting l))"
  let ?n = "of_nat (length ?rs) :: cint"
  have q: "queues_ok ?s L" and len: "length ?rs < Suc (brk ?s)"
    using ok queue_length [OF ok f, of "RWaiting l"] by auto
  have zero: "?n = 0 \<longleftrightarrow> ?rs = []"
    using few by (cases "?rs = []") (simp_all add: word_of_nat_eq_0_iff nat_dvd_not_less)
  have rest: "runs (bnd (get (\<lambda>s. readers (rw s l))) (\<lambda>n. whenp (n = 0) (grant_writer l))) s1
      (\<lambda>_. if ?rs = [] then readied l ?s (after_grant l L)
         else readied l ?s (?L, \<lambda>x. x\<lparr>readers := ?n\<rparr>))"
    if q1: "queues_ok s1 ?L" and rl: "relinked (woken (set ?rs) (add_readers ?n l ?s)) s1" for s1
  proof -
    have s1: "readied l ?s (?L, \<lambda>x. x\<lparr>readers := readers x + ?n\<rparr>) s1"
      by (rule ready_readied [OF q1]) (use rl in \<open>simp only: add_readers_def\<close>)
    then have n: "readers (rw s1 l) = ?n" using r by (simp add: readied_def)
    show ?thesis
    proof (cases "?rs = []")
      case True
      then have same: "?L = L" "rw s1 = rw ?s" using s1 r by (auto simp: readied_def fun_eq_iff)
      from q1 have q1: "queues_ok s1 L" unfolding same .
      have c: "calm ?s s1" "sched.more s1 = sched.more (?s\<lparr>rw := rw s1\<rparr>)"
        using s1 unfolding readied_def by blast+
      have "sched.more s1 = sched.more ?s" using c(2) unfolding same(2) by simp
      note c = c(1) this
      have "runs (grant_writer l) s1 (\<lambda>_. readied l ?s (after_grant l L))"
        by (rule runs_mono [OF grant_spec [OF q1, of l]]) (rule readied_trans [OF c(1) same(2) c(2)])
      then show ?thesis using True n by (simp add: runs_bnd)
    next
      case False
      have "readied l ?s (?L, \<lambda>x. x\<lparr>readers := ?n\<rparr>) s1" using s1 r by (simp add: readied_def)
      then show ?thesis using False zero by (simp add: n runs_bnd)
    qed
  qed
  have "runs (bnd (wake_readers (Suc (brk s)) l) (\<lambda>_. bnd (get (\<lambda>s. readers (rw s l)))
      (\<lambda>n. whenp (n = 0) (grant_writer l)))) ?s
      (\<lambda>_. if ?rs = [] then readied l ?s (after_grant l L)
         else readied l ?s (?L, \<lambda>x. x\<lparr>readers := ?n\<rparr>))"
    by (rule runs_bndI, rule runs_mono [OF wake_readers_all [OF q]], use len in simp, elim conjE, rule rest)
  then show ?thesis
    using w r by (simp add: wunlock_def runs_bnd Let_def del: wake_readers.simps)
qed

section \<open>The protocol of one reader-writer lock\<close>

text \<open>
  The tasks that hold the lock are ghosts of the protocol: \<open>R\<close> those whose \<open>rlock\<close> has returned, or
  will as they left the waiting list, \<open>W\<close> the same for \<open>wlock\<close>. The invariant, over the fields of
  the lock, its queues and the ghosts:
\<close>

definition rw_ok :: "rwlock \<Rightarrow> tptr list \<Rightarrow> tptr list \<Rightarrow> tptr set \<Rightarrow> tptr set \<Rightarrow> bool" where
  "rw_ok x rq wq R W \<longleftrightarrow>
     R \<subseteq> {..<2 ^ 31} \<and> readers x = of_nat (card R) \<and>
     W = set_option (writer x) \<and> (W \<noteq> {} \<longrightarrow> R = {}) \<and>
     distinct rq \<and> distinct wq \<and> (R \<union> W) \<inter> (set rq \<union> set wq) = {} \<and> set rq \<inter> set wq = {} \<and>
     set rq \<subseteq> {..<2 ^ 31} \<and>
     (wq \<noteq> [] \<longrightarrow> R \<union> W \<noteq> {}) \<and> (rq \<noteq> [] \<longrightarrow> W \<noteq> {} \<or> wq \<noteq> [])"

lemma rw_ok_readers:
  assumes "rw_ok x rq wq R W"
  shows "finite R" "readers x = 0 \<longleftrightarrow> R = {}" "readers x = 1 \<longleftrightarrow> card R = 1"
proof -
  have sub: "R \<subseteq> {..<2 ^ 31}" and r: "readers x = of_nat (card R)"
    using assms by (simp_all only: rw_ok_def)
  then show fin: "finite R" by (auto intro: finite_subset)
  have "card R \<le> 2 ^ 31" using card_mono [OF _ sub] by simp
  then have u: "unat (readers x) = card R"
    using r by (simp add: unat_of_nat take_bit_nat_eq_self)
  show "readers x = 0 \<longleftrightarrow> R = {}" using u fin by (metis card_0_eq unat_0 unat_eq_zero)
  show "readers x = 1 \<longleftrightarrow> card R = 1" using u by (metis unat_1 unsigned_word_eqI)
qed

text \<open>The steps of the protocol keep it.\<close>

lemma rw_ok_init: "rw_ok \<lparr>readers = 0, writer = None\<rparr> [] [] {} {}"
  by (simp add: rw_ok_def)

lemma rw_ok_read:
  assumes ok: "rw_ok x rq wq R W" and "writer x = None" "wq = []" "t \<notin> R" "t < 2 ^ 31"
  shows "rw_ok (x\<lparr>readers := readers x + 1\<rparr>) rq wq (insert t R) W"
  using assms rw_ok_readers(1) [OF ok] by (auto simp: rw_ok_def)

lemma rw_ok_rwait:
  assumes "rw_ok x rq wq R W" and "t \<notin> R \<union> W \<union> set rq \<union> set wq" "t < 2 ^ 31"
    and "writer x \<noteq> None \<or> wq \<noteq> []"
  shows "rw_ok x (rq @ [t]) wq R W"
  using assms by (simp add: rw_ok_def) blast

lemma rw_ok_write:
  assumes ok: "rw_ok x rq wq R W" and "writer x = None" "readers x = 0"
  shows "rw_ok (x\<lparr>writer := Some t\<rparr>) rq wq R (insert t W)"
  using assms rw_ok_readers(2) [OF ok] by (auto simp: rw_ok_def)

lemma rw_ok_wwait:
  assumes ok: "rw_ok x rq wq R W" and "t \<notin> R \<union> W \<union> set rq \<union> set wq"
    and "writer x \<noteq> None \<or> readers x \<noteq> 0"
  shows "rw_ok x rq (wq @ [t]) R W"
  using assms rw_ok_readers(2) [OF ok] by (simp add: rw_ok_def) blast

lemma rw_ok_runlock:
  assumes ok: "rw_ok x rq wq R W" and t: "t \<in> R" and r: "readers x \<noteq> 1"
  shows "rw_ok (x\<lparr>readers := readers x - 1\<rparr>) rq wq (R - {t}) W"
proof -
  have c: "card R = Suc (card (R - {t}))"
    using rw_ok_readers(1) [OF ok] t by (rule card.remove)
  moreover have "R - {t} \<noteq> {}" using c r rw_ok_readers(3) [OF ok] by (metis One_nat_def card.empty)
  ultimately show ?thesis using ok t by (simp add: rw_ok_def) blast
qed

lemma rw_ok_runlock_last:
  assumes ok: "rw_ok x rq wq R W" and t: "t \<in> R" and r: "readers x = 1"
  shows "R = {t} \<and> W = {} \<and>
    (wq = [] \<longrightarrow> rw_ok (x\<lparr>readers := readers x - 1\<rparr>) rq [] {} {}) \<and>
    (\<forall>u us. wq = u # us \<longrightarrow> rw_ok (x\<lparr>readers := readers x - 1, writer := Some u\<rparr>) rq us {} {u})"
proof -
  have "card R = 1" using rw_ok_readers(3) [OF ok] r by simp
  then have R: "R = {t}" using t by (auto simp: card_1_singleton_iff)
  then have W: "W = {}" using ok by (auto simp: rw_ok_def)
  show ?thesis using ok R W r by (auto simp: rw_ok_def)
qed

lemma rw_ok_wunlock:
  assumes ok: "rw_ok x rq wq R W" and t: "writer x = Some t"
  shows "R = {} \<and> W = {t} \<and> readers x = 0 \<and>
    (rq \<noteq> [] \<longrightarrow> rw_ok (x\<lparr>writer := None, readers := of_nat (length rq)\<rparr>) [] wq (set rq) {}) \<and>
    (rq = [] \<longrightarrow> wq = [] \<longrightarrow> rw_ok (x\<lparr>writer := None\<rparr>) [] [] {} {}) \<and>
    (\<forall>u us. rq = [] \<longrightarrow> wq = u # us \<longrightarrow> rw_ok (x\<lparr>writer := Some u\<rparr>) [] us {} {u})"
proof -
  have RW: "R = {}" "W = {t}" using ok t by (auto simp: rw_ok_def)
  then have r: "readers x = 0" using rw_ok_readers(2) [OF ok] by simp
  show ?thesis using ok RW r t by (auto simp: rw_ok_def distinct_card)
qed

text \<open>The system.\<close>

definition elsewhere_rw :: "nat \<Rightarrow> 'z rwlocks_scheme \<Rightarrow> 'z rwlocks_scheme \<Rightarrow> bool" where
  "elsewhere_rw l s s' \<longleftrightarrow> rw s' l = rw s l \<and>
     (\<exists>L L'. queues_ok s L \<and> queues_ok s' L' \<and>
        L' (RWaiting l) = L (RWaiting l) \<and> L' (WWaiting l) = L (WWaiting l))"

text \<open>The tasks that left a queue between two states.\<close>

definition left :: "lptr \<Rightarrow> queues \<Rightarrow> queues \<Rightarrow> tptr set" where
  "left q L L' = set (L q) - set (L' q)"

inductive rw_sys :: "nat \<Rightarrow> 'z rwlocks_scheme \<Rightarrow> tptr set \<Rightarrow> tptr set \<Rightarrow> bool" for l where
  init: "queues_ok s L \<Longrightarrow> L (RWaiting l) = [] \<Longrightarrow> L (WWaiting l) = [] \<Longrightarrow>
    rw s l = \<lparr>readers = 0, writer = None\<rparr> \<Longrightarrow> rw_sys l s {} {}"
| read: "rw_sys l s R W \<Longrightarrow> on_cpu t s \<Longrightarrow> t \<notin> R \<union> W \<Longrightarrow> t < 2 ^ 31 \<Longrightarrow>
    do_rlock l block s = Ret r s' \<Longrightarrow> rw_sys l s' (if r = 1 then insert t R else R) W"
| rwait: "rw_sys l s R W \<Longrightarrow> on_cpu t s \<Longrightarrow> t \<notin> R \<union> W \<Longrightarrow> t < 2 ^ 31 \<Longrightarrow>
    do_rlock l block s = Switch s' k \<Longrightarrow> rw_sys l s' R W"
| writes: "rw_sys l s R W \<Longrightarrow> on_cpu t s \<Longrightarrow> t \<notin> R \<union> W \<Longrightarrow>
    do_wlock l block s = Ret r s' \<Longrightarrow> rw_sys l s' R (if r = 1 then insert t W else W)"
| wwait: "rw_sys l s R W \<Longrightarrow> on_cpu t s \<Longrightarrow> t \<notin> R \<union> W \<Longrightarrow>
    do_wlock l block s = Switch s' k \<Longrightarrow> rw_sys l s' R W"
| runlock: "rw_sys l s R W \<Longrightarrow> t \<in> R \<Longrightarrow> runlock l s = Ret () s' \<Longrightarrow>
    queues_ok s L \<Longrightarrow> queues_ok s' L' \<Longrightarrow>
    rw_sys l s' (R - {t} \<union> left (RWaiting l) L L') (W \<union> left (WWaiting l) L L')"
| wunlock: "rw_sys l s R W \<Longrightarrow> t \<in> W \<Longrightarrow> fresh_ok s \<Longrightarrow> wunlock l s = Ret () s' \<Longrightarrow>
    queues_ok s L \<Longrightarrow> queues_ok s' L' \<Longrightarrow>
    rw_sys l s' (R \<union> left (RWaiting l) L L') (W - {t} \<union> left (WWaiting l) L L')"
| other: "rw_sys l s R W \<Longrightarrow> elsewhere_rw l s s' \<Longrightarrow> rw_sys l s' R W"

abbreviation rw_at :: "nat \<Rightarrow> 'z rwlocks_scheme \<Rightarrow> queues \<Rightarrow> tptr set \<Rightarrow> tptr set \<Rightarrow> bool" where
  "rw_at l s L R W \<equiv> queues_ok s L \<and> rw_ok (rw s l) (L (RWaiting l)) (L (WWaiting l)) R W"

lemma rw_read_inv:
  assumes inv: "rw_at l s L R W" and t: "on_cpu t s" "t \<notin> R \<union> W" "t < 2 ^ 31"
    and r: "do_rlock l block s = Ret r s'"
  shows "rw_at l s' L (if r = 1 then insert t R else R) W"
proof (cases "writer (rw s l) = None \<and> L (WWaiting l) = []")
  case True
  let ?s = "s\<lparr>rw := (rw s)(l := (rw s l)\<lparr>readers := readers (rw s l) + 1\<rparr>)\<rparr>"
  have "do_rlock l block s = Ret 1 ?s" using do_rlock_free inv True by blast
  then have s': "r = 1" "s' = ?s" using r by auto
  have "rw_ok ((rw s l)\<lparr>readers := readers (rw s l) + 1\<rparr>) (L (RWaiting l)) (L (WWaiting l)) (insert t R) W"
    by (rule rw_ok_read) (use inv True t in auto)
  then show ?thesis using inv by (simp add: s')
next
  case False
  then have "block \<Longrightarrow> \<exists>s' k. do_rlock l block s = Switch s' k \<or> do_rlock l block s = Halt Abort s'"
    using do_rlock_wait [of s L t l] on_cpuD [OF t(1)] inv by auto
  moreover have "\<not> block \<Longrightarrow> do_rlock l block s = Ret 0 s"
    using do_rlock_busy [of s L l] inv False by simp
  ultimately show ?thesis using r inv by (cases block) auto
qed

lemma rw_rwait_inv:
  assumes inv: "rw_at l s L R W" and t: "on_cpu t s" "t \<notin> R \<union> W" "t < 2 ^ 31"
    and r: "do_rlock l block s = Switch s' k"
  shows "rw_at l s' (L(RWaiting l := L (RWaiting l) @ [t])) R W"
proof -
  have busy: "writer (rw s l) \<noteq> None \<or> L (WWaiting l) \<noteq> []"
  proof (rule ccontr)
    assume "\<not> ?thesis"
    with do_rlock_free [of s L l block] inv r show False by simp
  qed
  have "block" using do_rlock_busy [of s L l] inv busy r by (cases block) auto
  with do_rlock_wait [of s L t l] on_cpuD [OF t(1)] inv busy r
  have s': "waits_on (RWaiting l) L t s s'" by auto
  have "t \<notin> R \<union> W \<union> set (L (RWaiting l)) \<union> set (L (WWaiting l))"
    using t on_cpuD [OF t(1)] inv by (auto simp: queued_def)
  from rw_ok_rwait [OF _ this t(3) busy] inv s' rw_more [of s' s] show ?thesis
    by (simp add: waits_on_def)
qed

lemma rw_write_inv:
  assumes inv: "rw_at l s L R W" and t: "on_cpu t s" "t \<notin> R \<union> W"
    and r: "do_wlock l block s = Ret r s'"
  shows "rw_at l s' L R (if r = 1 then insert t W else W)"
proof (cases "writer (rw s l) = None \<and> readers (rw s l) = 0")
  case True
  let ?s = "s\<lparr>rw := (rw s)(l := (rw s l)\<lparr>writer := Some t\<rparr>)\<rparr>"
  have "do_wlock l block s = Ret 1 ?s"
    using do_wlock_free [of s l block] t(1) True by (simp add: on_cpu_def)
  then have s': "r = 1" "s' = ?s" using r by auto
  have "rw_ok ((rw s l)\<lparr>writer := Some t\<rparr>) (L (RWaiting l)) (L (WWaiting l)) R (insert t W)"
    by (rule rw_ok_write) (use inv True t in auto)
  then show ?thesis using inv by (simp add: s')
next
  case False
  then have "block \<Longrightarrow> \<exists>s' k. do_wlock l block s = Switch s' k \<or> do_wlock l block s = Halt Abort s'"
    using do_wlock_wait [of s L t l] on_cpuD [OF t(1)] inv by auto
  moreover have "\<not> block \<Longrightarrow> do_wlock l block s = Ret 0 s"
    using do_wlock_busy [of s l] False by simp
  ultimately show ?thesis using r inv by (cases block) auto
qed

lemma rw_wwait_inv:
  assumes inv: "rw_at l s L R W" and t: "on_cpu t s" "t \<notin> R \<union> W"
    and r: "do_wlock l block s = Switch s' k"
  shows "rw_at l s' (L(WWaiting l := L (WWaiting l) @ [t])) R W"
proof -
  have busy: "writer (rw s l) \<noteq> None \<or> readers (rw s l) \<noteq> 0"
  proof (rule ccontr)
    assume "\<not> ?thesis"
    with do_wlock_free [of s l block] r show False by simp
  qed
  have "block" using do_wlock_busy [of s l] busy r by (cases block) auto
  with do_wlock_wait [of s L t l] on_cpuD [OF t(1)] inv busy r
  have s': "waits_on (WWaiting l) L t s s'" by auto
  have "t \<notin> R \<union> W \<union> set (L (RWaiting l)) \<union> set (L (WWaiting l))"
    using t on_cpuD [OF t(1)] inv by (auto simp: queued_def)
  from rw_ok_wwait [OF _ this busy] inv s' rw_more [of s' s] show ?thesis
    by (simp add: waits_on_def)
qed

lemma rw_runlock_inv:
  assumes inv: "rw_at l s L R W" and t: "t \<in> R"
    and r: "runlock l s = Ret () s'" and q': "queues_ok s' L'"
  shows "rw_at l s' L' (R - {t} \<union> left (RWaiting l) L L') (W \<union> left (WWaiting l) L L')"
proof -
  let ?x = "(rw s l)\<lparr>readers := readers (rw s l) - 1\<rparr>"
  let ?s = "s\<lparr>rw := (rw s)(l := ?x)\<rparr>"
  have q: "queues_ok s L" and ok: "rw_ok (rw s l) (L (RWaiting l)) (L (WWaiting l)) R W"
    using inv by auto
  note post = runlock_spec [OF q, of l, unfolded runs_def r, simplified]
  show ?thesis
  proof (cases "readers (rw s l) = 1")
    case False
    with post have "s' = ?s" by (simp add: Let_def)
    moreover from this have "L' = L" using q q' queues_unique by fastforce
    ultimately show ?thesis
      using rw_ok_runlock [OF ok t False] q by (simp add: left_def)
  next
    case True
    with post have "readied l ?s (after_grant l L) s'" by (simp add: Let_def)
    then have rw': "rw s' l = snd (after_grant l L) ?x" and L': "L' = fst (after_grant l L)"
      using q' queues_unique by (auto simp: readied_def)
    note last = rw_ok_runlock_last [OF ok t True]
    show ?thesis
    proof (cases "L (WWaiting l)")
      case Nil
      then show ?thesis using q' rw' L' last by (simp add: after_grant_def left_def)
    next
      case (Cons u us)
      have "u \<notin> set us" using ok Cons by (simp add: rw_ok_def)
      then show ?thesis using q' rw' L' last Cons
        by (simp add: after_grant_def left_def insert_Diff_if)
    qed
  qed
qed

lemma rw_wunlock_inv:
  assumes inv: "rw_at l s L R W" and t: "t \<in> W" and f: "fresh_ok s"
    and r: "wunlock l s = Ret () s'" and q': "queues_ok s' L'"
  shows "rw_at l s' L' (R \<union> left (RWaiting l) L L') (W - {t} \<union> left (WWaiting l) L L')"
proof -
  let ?x = "(rw s l)\<lparr>writer := None\<rparr>"
  let ?s = "s\<lparr>rw := (rw s)(l := ?x)\<rparr>"
  have q: "queues_ok s L" and ok: "rw_ok (rw s l) (L (RWaiting l)) (L (WWaiting l)) R W"
    using inv by auto
  have w: "writer (rw s l) = Some t" using ok t by (auto simp: rw_ok_def)
  note rel = rw_ok_wunlock [OF ok w]
  have "length (L (RWaiting l)) \<le> 2 ^ 31"
    using ok card_mono [of "{..<2 ^ 31}" "set (L (RWaiting l))"]
    by (simp add: rw_ok_def distinct_card)
  then have "length (L (RWaiting l)) < 2 ^ 32" by simp
  moreover have "writer (rw s l) \<noteq> None" "readers (rw s l) = 0" using w rel by simp_all
  ultimately have post: "if L (RWaiting l) = [] then readied l ?s (after_grant l L) s'
    else readied l ?s (L(RWaiting l := [], RunQueue := L RunQueue @ L (RWaiting l)),
      \<lambda>x. x\<lparr>readers := of_nat (length (L (RWaiting l)))\<rparr>) s'"
    using runs_Ret [OF wunlock_spec [OF q f] r] by (simp add: Let_def split: if_splits)
  show ?thesis
  proof (cases "L (RWaiting l) = []")
    case False
    with post have "rw s' l = ?x\<lparr>readers := of_nat (length (L (RWaiting l)))\<rparr>"
      and L': "L' = L(RWaiting l := [], RunQueue := L RunQueue @ L (RWaiting l))"
      using q' queues_unique by (auto simp: readied_def)
    then show ?thesis using q' rel False by (simp add: left_def)
  next
    case True
    with post have rw': "rw s' l = snd (after_grant l L) ?x" and L': "L' = fst (after_grant l L)"
      using q' queues_unique by (auto simp: readied_def)
    show ?thesis
    proof (cases "L (WWaiting l)")
      case Nil
      then show ?thesis using q' rw' L' rel True by (simp add: after_grant_def left_def)
    next
      case (Cons u us)
      have "u \<notin> set us" using ok Cons by (simp add: rw_ok_def)
      then show ?thesis using q' rw' L' rel Cons True
        by (simp add: after_grant_def left_def insert_Diff_if)
    qed
  qed
qed

lemma rw_sys_inv: "rw_sys l s R W \<Longrightarrow> \<exists>L. rw_at l s L R W"
proof (induction rule: rw_sys.induct)
  case (init s L)
  then show ?case using rw_ok_init by auto
next
  case (read s R W t block r s')
  then show ?case using rw_read_inv by blast
next
  case (rwait s R W t block s' k)
  then obtain L where "rw_at l s L R W" by blast
  from rw_rwait_inv [OF this rwait.hyps(2-5)] show ?case by blast
next
  case (writes s R W t block r s')
  then show ?case using rw_write_inv by blast
next
  case (wwait s R W t block s' k)
  then obtain L where "rw_at l s L R W" by blast
  from rw_wwait_inv [OF this wwait.hyps(2-4)] show ?case by blast
next
  case (runlock s R W t s' L L')
  then have "rw_at l s L R W" using queues_unique by blast
  from rw_runlock_inv [OF this runlock.hyps(2,3,5)] show ?case by blast
next
  case (wunlock s R W t s' L L')
  then have "rw_at l s L R W" using queues_unique by blast
  from rw_wunlock_inv [OF this wunlock.hyps(2,3,4,6)] show ?case by blast
next
  case (other s R W s')
  then obtain L L' L1 where *: "rw_at l s L R W" "queues_ok s L1" "queues_ok s' L'"
    "L' (RWaiting l) = L1 (RWaiting l)" "L' (WWaiting l) = L1 (WWaiting l)" "rw s' l = rw s l"
    by (auto simp: elsewhere_rw_def)
  moreover from this have "L1 = L" by (blast intro: queues_unique)
  ultimately have "rw_at l s' L' R W" by simp
  then show ?case by blast
qed

section \<open>Safety\<close>

locale rwlock_client = qlock_client J Keep naps Pre
  for J :: "'z rwlocks_scheme \<Rightarrow> tptr set \<Rightarrow> bool"
    and Keep :: "tptr \<Rightarrow> 'z rwlocks_scheme \<Rightarrow> 'z rwlocks_scheme \<Rightarrow> bool"
    and naps :: "'z rwlocks_scheme \<Rightarrow> int"
    and Pre :: "'z rwlocks_scheme \<Rightarrow> nat \<Rightarrow> uint \<Rightarrow> bool" +
  assumes J_rw: "J s A \<Longrightarrow> J (s\<lparr>rw := w\<rparr>) A"
    and Keep_rw: "Keep t s (s\<lparr>rw := w\<rparr>)"
    and naps_rw: "naps (s\<lparr>rw := w\<rparr>) = naps s"
begin

lemma mod_rw_RunL:
  assumes r: "RunL t L s"
  shows "RunL t L (s\<lparr>rw := w\<rparr>)"
proof (rule calm_RunL [OF r])
  have "parked (s\<lparr>rw := w\<rparr>) L = parked s L" by (simp add: parked_def)
  then show "J (s\<lparr>rw := w\<rparr>) (parked (s\<lparr>rw := w\<rparr>) L)" using J_rw RunL_D(7) [OF r] by simp
  show "mild t L L s (s\<lparr>rw := w\<rparr>)"
    by (rule mildI) (use RunL_D(1) [OF r] in \<open>simp_all add: calm_def naps_rw Others_def Keep_rw\<close>)
qed (rule RunL_D(4) [OF r])

lemma OK_mod_rw: "OK t (mod_rw l f)"
  by (rule Safe_runs) (auto simp: Run_RunL Others_def Keep_rw intro: mod_rw_RunL)

lemma OK_do_rlock: "OK t (do_rlock l block)"
  unfolding do_rlock_def
  by (intro OK_bnd [OF OK_get] Safe_if OK_bnd [OF OK_mod_rw] OK_running OK_wait OK_ret) auto

lemma OK_do_wlock: "OK t (do_wlock l block)"
  unfolding do_wlock_def
  by (intro OK_bnd [OF OK_get] Safe_if OK_bnd [OF OK_mod_rw] OK_running OK_wait OK_ret) auto

lemma OK_rlock: "OK t (rlock l)" and OK_canrlock: "OK t (canrlock l)"
  and OK_wlock: "OK t (wlock l)" and OK_canwlock: "OK t (canwlock l)"
  unfolding rlock_def canrlock_def wlock_def canwlock_def
  by (intro OK_bnd OK_do_rlock OK_do_wlock OK_ret)+

text \<open>Every state these calls reach from a state of the running task is one too.\<close>

lemma readied_Run:
  assumes r: "RunL t L s" and p: "readied l s (L', f) s'"
    and sub: "\<And>p. queued L' p \<Longrightarrow> queued L p" and L': "L' Sleeping = L Sleeping"
  shows "Run t s' \<and> Others t s s'"
proof -
  have c: "calm s s'" "queues_ok s' L'" and m: "sched.more s' = sched.more (s\<lparr>rw := rw s'\<rparr>)"
    using p by (auto simp: readied_def)
  have "J (s\<lparr>rw := rw s'\<rparr>) (parked s L)" by (rule J_rw [OF RunL_D(7) [OF r]])
  then have "J s' (parked s' L')"
    using J_more [OF _ m] calm_parked [OF c(1) sub] J_mono by blast
  moreover have "naps s' = naps s" using naps_more [OF m] naps_rw by simp
  then have "mild t L L' s s'"
  proof (rule mildI [where L = L and L' = L', OF c L'])
    have "Keep u s s'" for u using Keep_rw Keep_more [OF m] Keep_trans by blast
    then show "Others t s s'" by (simp add: Others_def)
  qed
  moreover have "\<not> queued L' t" using sub RunL_D(4) [OF r] by blast
  ultimately have "RunL t L' s'" by (intro calm_RunL [OF r])
  then show ?thesis using \<open>mild t L L' s s'\<close> RunL_Run unfolding mild_def by blast
qed

lemma Safe_granted:
  assumes q: "q \<noteq> RunQueue" "q \<noteq> Sleeping"
  shows "Safe t (\<lambda>s. head (lists s q) = Some u)
    (bnd (deltask q u) (\<lambda>_. bnd (mod_rw l f) (\<lambda>_. taskready u))) (\<lambda>_ _. True)"
proof (rule Safe_runs)
  fix s
  assume "Run t s" and h: "head (lists s q) = Some u"
  then obtain L where r: "RunL t L s" by (auto simp: Run_RunL)
  then obtain us where us: "L q = u # us"
    using h head_hd [OF RunL_D(1) [OF r], of q] by (auto simp: hd_opt_Some)
  show "runs (bnd (deltask q u) (\<lambda>_. bnd (mod_rw l f) (\<lambda>_. taskready u))) s
      (\<lambda>_ s'. Run t s' \<and> Others t s s' \<and> True)"
  proof (rule runs_mono [OF granted [OF RunL_D(1) [OF r] us q(1), of l f]], elim conjE)
    fix s'
    assume "queues_ok s' (moved q u L)" "relinked (woken {u} (s\<lparr>rw := (rw s)(l := f (rw s l))\<rparr>)) s'"
    then have "readied l s (moved q u L, f) s'" by (rule ready_readied)
    from readied_Run [OF r this] show "Run t s' \<and> Others t s s' \<and> True"
      using queued_moved [of u L q] us q by simp
  qed
qed

lemma OK_grant_writer: "OK t (grant_writer l)"
  unfolding grant_writer_def
  by (rule Safe_bnd [where Q = "\<lambda>h s. head (lists s (WWaiting l)) = h"])
    (auto intro: Safe_get OK_pre Safe_granted split: option.split)

lemma OK_wake_readers: "OK t (wake_readers n l)"
proof (induction n)
  case 0
  then show ?case by (simp add: OK_halt)
next
  case (Suc n)
  have "Safe t (\<lambda>s. head (lists s (RWaiting l)) = Some u)
      (bnd (bnd (deltask (RWaiting l) u) (\<lambda>_. bnd (mod_rw l (\<lambda>x. x\<lparr>readers := readers x + 1\<rparr>))
        (\<lambda>_. taskready u))) (\<lambda>_. wake_readers n l)) (\<lambda>_ _. True)" for u
    by (rule Safe_bnd [OF Safe_granted Suc.IH]) simp_all
  then show ?case
    unfolding wake_readers.simps
    by (intro Safe_bnd [where m = "get _" and Q = "\<lambda>h s. head (lists s (RWaiting l)) = h"] Safe_get)
      (simp_all add: bnd_assoc OK_pre split: option.split)
qed

lemma OK_runlock: "OK t (runlock l)"
  unfolding runlock_def by (intro OK_bnd OK_mod_rw OK_get OK_whenp OK_grant_writer)

lemma OK_wunlock: "OK t (wunlock l)"
  unfolding wunlock_def
  by (intro OK_bnd OK_mod_rw OK_get Safe_if OK_halt OK_wake_readers OK_whenp OK_grant_writer) simp_all

lemmas OK_rwlocks = OK_rlock OK_canrlock OK_wlock OK_canwlock OK_runlock OK_wunlock

end

interpretation rwlocks: rwlock_client "\<lambda>_ _. True" "\<lambda>_ _ _. True" "\<lambda>_. 0" "\<lambda>_ _ _. True"
  by unfold_locales simp_all

section \<open>Properties of the reader-writer locks\<close>

text \<open>
  C4: the protocol. In every state that tasks reach which use one reader-writer lock, with \<open>R\<close> and
  \<open>W\<close> those who hold it: a writer excludes all readers and all other writers, the counter and the
  field \<open>writer\<close> tell who holds the lock, and no wakeup is lost: a writer waits only while somebody
  holds the lock, a reader only while a writer holds it or waits for it.
\<close>

theorem rwlock_protocol:
  assumes "rw_sys l s R W"
  shows "(W \<noteq> {} \<longrightarrow> R = {}) \<and> W = set_option (writer (rw s l)) \<and>
    readers (rw s l) = of_nat (card R) \<and> card R \<le> 2 ^ 31 \<and>
    (\<exists>L. queues_ok s L \<and> (L (WWaiting l) \<noteq> [] \<longrightarrow> R \<union> W \<noteq> {}) \<and>
       (L (RWaiting l) \<noteq> [] \<longrightarrow> W \<noteq> {} \<or> L (WWaiting l) \<noteq> []))"
proof -
  from rw_sys_inv [OF assms] obtain L where
    inv: "queues_ok s L" "rw_ok (rw s l) (L (RWaiting l)) (L (WWaiting l)) R W" by blast
  have "R \<subseteq> {..<2 ^ 31}" using inv(2) unfolding rw_ok_def by blast
  from card_mono [OF _ this] have "card R \<le> 2 ^ 31" by simp
  with inv show ?thesis unfolding rw_ok_def by blast
qed

lemma rwlock_demo:
  "\<exists>s' :: rwlocks. rw_sys 3 s' {} {0} \<and>
     s' = (demo RunQueue (qlocks_ext (\<lambda>_. None) (rwlocks_ext (\<lambda>_. \<lparr>readers = 0, writer = None\<rparr>) ())))
       \<lparr>rw := (\<lambda>_. \<lparr>readers = 0, writer = None\<rparr>)(3 := \<lparr>readers = 0, writer = Some 0\<rparr>)\<rparr>"
proof -
  let ?s = "demo RunQueue (qlocks_ext (\<lambda>_. None) (rwlocks_ext (\<lambda>_. \<lparr>readers = 0, writer = None\<rparr>) ()))"
  have o: "rw ?s = (\<lambda>_. \<lparr>readers = 0, writer = None\<rparr>)" by (simp add: demo_def)
  have sys: "rw_sys 3 ?s {} {}"
    by (rule rw_sys.init [OF demo_queues])
      (simp_all only: o demo_simps lptr.distinct not_False_eq_True)
  have "do_wlock 3 True ?s = Ret 1 (?s\<lparr>rw := (rw ?s)(3 := (rw ?s 3)\<lparr>writer := Some 0\<rparr>)\<rparr>)"
    using do_wlock_free [of ?s 3 True] by (simp only: o demo_simps rwlock.simps)
  from rw_sys.writes [OF sys demo_on_cpu _ this] show ?thesis by (simp add: o)
qed

theorem rwlock_protocol_witness:
  "\<exists>(s :: rwlocks) R W. rw_sys 3 s R W \<and> W = {0} \<and> R = {} \<and> writer (rw s 3) = Some 0"
  using rwlock_demo rwlock_protocol [of 3 _ "{}" "{0}"]
  by (metis option.set_intros option.simps(15) singleton_iff set_empty_eq elem_set)

text \<open>
  C25: \<open>wunlock\<close> ends in every state of the protocol in which the caller holds the lock: its loop
  stops within the fuel, all waiting readers get the lock together, and if there are none the
  writer that waited longest gets it. A lock without a writer is a fault.
\<close>

theorem wunlock_wakes:
  assumes "queues_ok s L" and "fresh_ok s" and "readers (rw s l) = 0"
    and "length (L (RWaiting l)) < 2 ^ 32"
  shows "(writer (rw s l) = None \<longrightarrow> wunlock l s = Halt Abort s) \<and>
    (writer (rw s l) \<noteq> None \<longrightarrow> runs (wunlock l) s (\<lambda>_ s'.
       if L (RWaiting l) \<noteq> [] then
         queues_ok s' (L(RWaiting l := [], RunQueue := L RunQueue @ L (RWaiting l))) \<and>
         rw s' l = \<lparr>readers = of_nat (length (L (RWaiting l))), writer = None\<rparr>
       else
         rw s' l = \<lparr>readers = 0, writer = hd_opt (L (WWaiting l))\<rparr> \<and>
         (\<exists>L'. queues_ok s' L' \<and> L' (WWaiting l) = tl (L (WWaiting l)) \<and>
            L' RunQueue = L RunQueue @ take 1 (L (WWaiting l)))))"
proof -
  have "runs (wunlock l) s (\<lambda>_ s'.
       if L (RWaiting l) \<noteq> [] then
         queues_ok s' (L(RWaiting l := [], RunQueue := L RunQueue @ L (RWaiting l))) \<and>
         rw s' l = \<lparr>readers = of_nat (length (L (RWaiting l))), writer = None\<rparr>
       else
         rw s' l = \<lparr>readers = 0, writer = hd_opt (L (WWaiting l))\<rparr> \<and>
         (\<exists>L'. queues_ok s' L' \<and> L' (WWaiting l) = tl (L (WWaiting l)) \<and>
            L' RunQueue = L RunQueue @ take 1 (L (WWaiting l))))"
    if w: "writer (rw s l) \<noteq> None"
  proof (rule runs_mono [OF wunlock_spec [OF assms(1,2) w assms(3,4)]])
    fix s'
    assume post: "(let s1 = s\<lparr>rw := (rw s)(l := (rw s l)\<lparr>writer := None\<rparr>)\<rparr> in
      if L (RWaiting l) = [] then readied l s1 (after_grant l L)
      else readied l s1 (L(RWaiting l := [], RunQueue := L RunQueue @ L (RWaiting l)),
        \<lambda>x. x\<lparr>readers := of_nat (length (L (RWaiting l)))\<rparr>)) s'"
    have eta: "x = \<lparr>readers = readers x, writer = writer x\<rparr>" for x :: rwlock by simp
    show "if L (RWaiting l) \<noteq> [] then
         queues_ok s' (L(RWaiting l := [], RunQueue := L RunQueue @ L (RWaiting l))) \<and>
         rw s' l = \<lparr>readers = of_nat (length (L (RWaiting l))), writer = None\<rparr>
       else
         rw s' l = \<lparr>readers = 0, writer = hd_opt (L (WWaiting l))\<rparr> \<and>
         (\<exists>L'. queues_ok s' L' \<and> L' (WWaiting l) = tl (L (WWaiting l)) \<and>
            L' RunQueue = L RunQueue @ take 1 (L (WWaiting l)))"
    proof (cases "L (RWaiting l) = []")
      case False
      with post show ?thesis
        by (cases "rw s l") (auto simp: readied_def)
    next
      case True
      with post have "rw s' l = snd (after_grant l L) ((rw s l)\<lparr>writer := None\<rparr>)"
        and "queues_ok s' (fst (after_grant l L))" by (auto simp: readied_def)
      with True assms(3) show ?thesis
        by (cases "L (WWaiting l)"; cases "rw s l") (auto simp: after_grant_def)
    qed
  qed
  then show ?thesis using wunlock_unlocked [of s l] by blast
qed

theorem wunlock_wakes_witness:
  "runs (wunlock 3) (demo (RWaiting 3) (qlocks_ext (\<lambda>_. None)
      (rwlocks_ext (\<lambda>_. \<lparr>readers = 0, writer = Some 0\<rparr>) ())))
     (\<lambda>_ s'. rw s' 3 = \<lparr>readers = 2, writer = None\<rparr>)"
proof -
  let ?z = "qlocks_ext (\<lambda>_. None) (rwlocks_ext (\<lambda>_. \<lparr>readers = 0, writer = Some 0\<rparr>) ())"
  have "rw (demo (RWaiting 3) ?z) = (\<lambda>_. \<lparr>readers = 0, writer = Some 0\<rparr>)" by (simp add: demo_def)
  then show ?thesis
    using wunlock_wakes [where s = "demo (RWaiting 3) ?z" and L = "demoL (RWaiting 3)" and l = 3]
    by (auto simp: demo_queues demo_fresh elim!: runs_mono)
qed

text \<open>
  \<open>runlock\<close> by the last reader passes the lock to the writer that waited longest, by another
  reader it only counts down.
\<close>

lemma runlock_passes_on:
  assumes "queues_ok s L"
  shows "runs (runlock l) s (\<lambda>_ s'.
    readers (rw s' l) = readers (rw s l) - 1 \<and>
    (if readers (rw s l) = 1 \<and> L (WWaiting l) \<noteq> []
     then writer (rw s' l) = Some (hd (L (WWaiting l))) \<and>
       queues_ok s' (moved (WWaiting l) (hd (L (WWaiting l))) L)
     else writer (rw s' l) = writer (rw s l) \<and> queues_ok s' L))"
proof (rule runs_mono [OF runlock_spec [OF assms, of l]])
  fix s'
  assume post: "(let s1 = s\<lparr>rw := (rw s)(l := (rw s l)\<lparr>readers := readers (rw s l) - 1\<rparr>)\<rparr> in
    if readers (rw s l) = 1 then readied l s1 (after_grant l L) else (\<lambda>s'. s' = s1)) s'"
  show "readers (rw s' l) = readers (rw s l) - 1 \<and>
    (if readers (rw s l) = 1 \<and> L (WWaiting l) \<noteq> []
     then writer (rw s' l) = Some (hd (L (WWaiting l))) \<and>
       queues_ok s' (moved (WWaiting l) (hd (L (WWaiting l))) L)
     else writer (rw s' l) = writer (rw s l) \<and> queues_ok s' L)"
    using post assms
    by (cases "L (WWaiting l)") (auto simp: readied_def after_grant_def Let_def split: if_splits)
qed

lemma runlock_passes_on_example:
  "runs (runlock 3) (demo (WWaiting 3) (qlocks_ext (\<lambda>_. None)
      (rwlocks_ext (\<lambda>_. \<lparr>readers = 1, writer = None\<rparr>) ())))
     (\<lambda>_ s'. rw s' 3 = \<lparr>readers = 0, writer = Some 1\<rparr>)"
proof -
  let ?z = "qlocks_ext (\<lambda>_. None) (rwlocks_ext (\<lambda>_. \<lparr>readers = 1, writer = None\<rparr>) ())"
  have "rw (demo (WWaiting 3) ?z) = (\<lambda>_. \<lparr>readers = 1, writer = None\<rparr>)" by (simp add: demo_def)
  then show ?thesis
    using runlock_passes_on [where s = "demo (WWaiting 3) ?z" and L = "demoL (WWaiting 3)" and l = 3]
    by (auto simp: demo_queues elim!: runs_mono intro: rwlock.equality)
qed

end
