(* ===== verification/Rendez.thy ===== *)
theory Rendez
  imports Rwlock
begin

text \<open>
  rendez.c, the rendezvous points. \<open>rlk r\<close> is the field \<open>l\<close> of the rendezvous point at \<open>r\<close> (the
  lock it protects, or nil), the list \<open>ZWaiting r\<close> its field \<open>waiting\<close>. \<open>do_taskwakeup\<close> is the
  static function \<open>_taskwakeup\<close>; its loop runs with a fuel that \<open>taskwakeup_spec\<close> and
  \<open>taskwakeupall_spec\<close> show to be enough.
\<close>

record rendezs = rwlocks +
  rlk :: "nat \<Rightarrow> nat option"

definition tasksleep :: "nat \<Rightarrow> ('z rendezs_scheme, unit) prog" where
  "tasksleep r =
     bnd running (\<lambda>t.
     bnd (addtask (ZWaiting r) t) (\<lambda>_.
     bnd (get (\<lambda>s. rlk s r)) (\<lambda>l.
     bnd (case l of None \<Rightarrow> ret () | Some l \<Rightarrow> qunlock l) (\<lambda>_.
     bnd (taskstate ''sleep'' []) (\<lambda>_.
     bnd taskswitch (\<lambda>_.
     bnd (get (\<lambda>s. rlk s r)) (\<lambda>l.
     case l of None \<Rightarrow> ret () | Some l \<Rightarrow> qlock l)))))))"

fun wakeup_loop :: "nat \<Rightarrow> nat \<Rightarrow> bool \<Rightarrow> cint \<Rightarrow> ('z rendezs_scheme, cint) prog" where
  "wakeup_loop 0 r every i = halt NoFuel"
| "wakeup_loop (Suc n) r every i =
     (if i = 1 \<and> \<not> every then ret i
      else
        bnd (get (\<lambda>s. head (lists s (ZWaiting r)))) (\<lambda>h.
        case h of
          None \<Rightarrow> ret i
        | Some t \<Rightarrow>
            bnd (deltask (ZWaiting r) t) (\<lambda>_.
            bnd (taskready t) (\<lambda>_.
            wakeup_loop n r every (i + 1)))))"

definition do_taskwakeup :: "nat \<Rightarrow> bool \<Rightarrow> ('z rendezs_scheme, cint) prog" where
  "do_taskwakeup r every = bnd (get (\<lambda>s. Suc (brk s))) (\<lambda>fuel. wakeup_loop fuel r every 0)"

definition taskwakeup :: "nat \<Rightarrow> ('z rendezs_scheme, cint) prog" where
  "taskwakeup r = do_taskwakeup r False"

definition taskwakeupall :: "nat \<Rightarrow> ('z rendezs_scheme, cint) prog" where
  "taskwakeupall r = do_taskwakeup r True"

section \<open>Waking\<close>

interpretation nothing: framed id
  by unfold_locales simp_all

interpretation sleepers: waking id "ZWaiting r" "\<lambda>i. i + 1" "hand_over (ZWaiting r)"
  "\<lambda>n i. wakeup_loop n r True i" for r
proof unfold_locales
  fix s :: "'z rendezs_scheme" and L t ts
  assume "queues_ok s L" "L (ZWaiting r) = t # ts"
  then show "runs (hand_over (ZWaiting r) t) s (\<lambda>_ s'. queues_ok s' (moved (ZWaiting r) t L) \<and>
      relinked (woken {t} (id s)) s')"
    using hand_over_spec [of s L t "ZWaiting r"] by (simp add: mark_ready_woken)
qed (simp_all add: bnd_def [of "get _"] sem_simps bnd_assoc hand_over_def)

lemma pow_succ: "((\<lambda>i :: cint. i + 1) ^^ n) i = i + of_nat n"
  by (induction n) (simp_all add: ac_simps)

lemma wakeupall_runs:
  assumes ok: "queues_ok s L" and f: "fresh_ok s"
  shows "runs (taskwakeupall r) s (\<lambda>n s'. n = of_nat (length (L (ZWaiting r))) \<and>
    queues_ok s' (L(ZWaiting r := [], RunQueue := L RunQueue @ L (ZWaiting r))) \<and>
    relinked (woken (set (L (ZWaiting r))) s) s')"
proof -
  have "length (L (ZWaiting r)) < Suc (brk s)" using queue_length [OF ok f, of "ZWaiting r"] by simp
  from sleepers.drains [OF ok this, of 0]
  show ?thesis
    by (simp add: taskwakeupall_def do_taskwakeup_def runs_bnd pow_succ id_def [symmetric]
        del: wakeup_loop.simps)
qed

lemma wakeup_nobody: "queues_ok s L \<Longrightarrow> L (ZWaiting r) = [] \<Longrightarrow> taskwakeup r s = Ret 0 s"
  by (simp add: taskwakeup_def do_taskwakeup_def bnd_def sem_simps head_hd)

lemma wakeup_first:
  assumes ok: "queues_ok s L" and f: "fresh_ok s" and w: "L (ZWaiting r) = t # ts"
  shows "runs (taskwakeup r) s (\<lambda>n s'. n = 1 \<and>
    queues_ok s' (moved (ZWaiting r) t L) \<and> relinked (woken {t} s) s')"
proof -
  obtain m where m: "brk s = Suc m"
    using queue_length [OF ok f, of "ZWaiting r"] w by (cases "brk s") auto
  have "runs (hand_over (ZWaiting r) t) s
      (\<lambda>_ s'. queues_ok s' (moved (ZWaiting r) t L) \<and> relinked (woken {t} s) s')"
    using hand_over_spec [of s L t "ZWaiting r"] ok w by (simp add: mark_ready_woken)
  then show ?thesis
    using w head_hd [OF ok, of "ZWaiting r"] m
    by (simp add: taskwakeup_def do_taskwakeup_def runs_bnd hand_over_def)
qed

section \<open>Sleeping\<close>

text \<open>What \<open>qunlock\<close> does to the queues: the first waiting task is readied.\<close>

definition released :: "nat \<Rightarrow> queues \<Rightarrow> queues" where
  "released l L = (case L (QWaiting l) of [] \<Rightarrow> L | t # ts \<Rightarrow> moved (QWaiting l) t L)"

lemma queued_released [simp]: "queued (released l L) p = queued L p"
  using queued_moved [of "hd (L (QWaiting l))" L "QWaiting l" p]
  by (cases "L (QWaiting l)") (simp_all add: released_def)

lemma qunlock_any:
  assumes ok: "queues_ok s L" and u: "qowner s l = Some u"
  shows "runs (qunlock l) s (\<lambda>_ s'. queues_ok s' (released l L) \<and> calm s s' \<and>
    sched.more s' = sched.more (s\<lparr>qowner := (qowner s)(l := hd_opt (L (QWaiting l)))\<rparr>))"
proof (cases "L (QWaiting l)")
  case Nil
  then show ?thesis using ok u by (simp add: runs_def qunlock_nobody released_def calm_def)
next
  case (Cons t ts)
  have c: "calm s (s\<lparr>qowner := (qowner s)(l \<mapsto> t)\<rparr>)" by (simp add: calm_def)
  show ?thesis
    by (rule runs_mono [OF qunlock_next [OF ok u Cons]], elim conjE)
      (simp add: Cons released_def ready_more calm_trans [OF c ready_calm])
qed

text \<open>The code of \<open>tasksleep\<close> before it gives up the CPU, and after it.\<close>

definition fall_asleep :: "nat \<Rightarrow> tptr \<Rightarrow> ('z rendezs_scheme, unit) prog" where
  "fall_asleep r t =
     bnd (addtask (ZWaiting r) t) (\<lambda>_.
     bnd (get (\<lambda>s. rlk s r)) (\<lambda>l.
     bnd (case l of None \<Rightarrow> ret () | Some l \<Rightarrow> qunlock l) (\<lambda>_.
     taskstate ''sleep'' [])))"

definition wake_up :: "nat \<Rightarrow> ('z rendezs_scheme, unit) prog" where
  "wake_up r = bnd (get (\<lambda>s. rlk s r)) (\<lambda>l. case l of None \<Rightarrow> ret () | Some l \<Rightarrow> qlock l)"

lemma tasksleep_parts:
  "tasksleep r = bnd running (\<lambda>t. bnd (bnd (fall_asleep r t) (\<lambda>_. taskswitch)) (\<lambda>_. wake_up r))"
  by (simp add: tasksleep_def fall_asleep_def wake_up_def bnd_assoc)

definition asleep :: "nat \<Rightarrow> queues \<Rightarrow> tptr \<Rightarrow> 'z rendezs_scheme \<Rightarrow> queues" where
  "asleep r L t s =
     (case rlk s r of
        None \<Rightarrow> L(ZWaiting r := L (ZWaiting r) @ [t])
      | Some l \<Rightarrow> released l (L(ZWaiting r := L (ZWaiting r) @ [t])))"

definition unlocked :: "nat \<Rightarrow> queues \<Rightarrow> 'z rendezs_scheme \<Rightarrow> nat \<Rightarrow> tptr option" where
  "unlocked r L s =
     (case rlk s r of
        None \<Rightarrow> qowner s
      | Some l \<Rightarrow> (qowner s)(l := hd_opt (L (QWaiting l))))"

lemma rlk_more: "sched.more s' = sched.more s \<Longrightarrow> rlk s' = rlk s"
  by (cases s, cases s') simp

lemma fall_asleep_runs:
  assumes q: "queues_ok s L" and t: "taskrunning s = Some t" "t \<in> dom (tasks s)" "\<not> queued L t"
    and own: "\<And>l. rlk s r = Some l \<Longrightarrow> qowner s l \<noteq> None"
  shows "runs (fall_asleep r t) s (\<lambda>_ s'. queues_ok s' (asleep r L t s) \<and> calm s s' \<and>
    sched.more s' = sched.more (s\<lparr>qowner := unlocked r L s\<rparr>))"
proof -
  let ?L = "L(ZWaiting r := L (ZWaiting r) @ [t])"
  have rest: "runs (bnd (case rlk s r of None \<Rightarrow> ret () | Some l \<Rightarrow> qunlock l)
      (\<lambda>_. taskstate ''sleep'' [])) s1 (\<lambda>_ s'. queues_ok s' (asleep r L t s) \<and> calm s s' \<and>
    sched.more s' = sched.more (s\<lparr>qowner := unlocked r L s\<rparr>))"
    if q1: "queues_ok s1 ?L" and rl: "relinked s s1" for s1
  proof -
    have m1: "sched.more s1 = sched.more s" by (rule relinked_more [OF rl])
    have "runs (case rlk s r of None \<Rightarrow> ret () | Some l \<Rightarrow> qunlock l) s1
        (\<lambda>_ s'. queues_ok s' (asleep r L t s) \<and> calm s s' \<and>
          sched.more s' = sched.more (s\<lparr>qowner := unlocked r L s\<rparr>))"
    proof (cases "rlk s r")
      case None
      then show ?thesis using q1 m1 relinked_calm [OF rl] by (simp add: asleep_def unlocked_def)
    next
      case (Some l)
      then obtain u where u: "qowner s1 l = Some u" using own qowner_more [OF m1] by auto
      have "sched.more (s1\<lparr>qowner := w\<rparr>) = sched.more (s\<lparr>qowner := w\<rparr>)" for w
        using m1 by (cases s, cases s1) simp
      then show ?thesis
        unfolding Some option.case
        by - (rule runs_mono [OF qunlock_any [OF q1 u]], elim conjE,
          simp add: Some asleep_def unlocked_def qowner_more [OF m1] calm_trans [OF relinked_calm [OF rl]])
    qed
    then show ?thesis
    proof (rule runs_bndI [OF runs_mono], elim conjE)
      fix s2
      assume q2: "queues_ok s2 (asleep r L t s)" and c: "calm s s2"
        and m2: "sched.more s2 = sched.more (s\<lparr>qowner := unlocked r L s\<rparr>)"
      have run: "taskrunning s2 = Some t" using t(1) c by (simp add: calm_def)
      obtain x where x: "tasks s2 t = Some x" using t(2) calm_dom [OF c] by (metis domD)
      show "runs (taskstate ''sleep'' []) s2 (\<lambda>_ s'. queues_ok s' (asleep r L t s) \<and> calm s s' \<and>
          sched.more s' = sched.more (s\<lparr>qowner := unlocked r L s\<rparr>))"
        using run x q2 m2 calm_tstate [OF c x] by simp
    qed
  qed
  show ?thesis
    unfolding fall_asleep_def
    by (rule runs_bndI, rule runs_mono [OF addtask_spec [OF q t(2,3), of "ZWaiting r"]], elim conjE,
      subst runs_bnd, simp only: runs_get rlk_more [OF relinked_more], rule rest)
qed

section \<open>Owning the lock afterwards\<close>

text \<open>
  Whatever the other tasks do, as long as they leave the pointer to the lock alone: where
  \<open>qlock\<close> and \<open>tasksleep\<close> return, the caller owns the lock.
\<close>

definition rlk_stable :: "nat \<Rightarrow> 'z rendezs_scheme \<Rightarrow> 'z rendezs_scheme \<Rightarrow> bool" where
  "rlk_stable r s s' \<longleftrightarrow> rlk s' r = rlk s r"

abbreviation always :: "('s \<Rightarrow> 's \<Rightarrow> bool) \<Rightarrow> ('s \<Rightarrow> bool) \<Rightarrow> ('s, 'a) res \<Rightarrow> bool" where
  "always R Q r \<equiv> \<forall>s0. safe R (\<lambda>_ _. True) (\<lambda>_. True) (\<lambda>_ _ s. Q s) r s0"

lemma always_bindr:
  "always R P r \<Longrightarrow> (\<And>a s. P s \<Longrightarrow> always R Q (f a s)) \<Longrightarrow> always R Q (bindr r f)"
  by (blast intro: safe_bindr safe_mono)

lemma always_True [simp]: "safe R (\<lambda>_ _. True) (\<lambda>_. True) (\<lambda>_ _ _. True) r s0"
  by (induction r arbitrary: s0) auto

lemma qlock_owning: "always R (\<lambda>s. qowner s l = taskrunning s) (qlock l s)"
proof -
  have "always R (\<lambda>s. qowner s l = taskrunning s) (do_qlock l True s)"
  proof (cases "qowner s l")
    case None
    then show ?thesis by (simp add: do_qlock_free)
  next
    case (Some u)
    have "do_qlock l True s = bindr
        (bnd running (\<lambda>t. bnd (addtask (QWaiting l) t) (\<lambda>_. bnd (taskstate ''qlock'' []) (\<lambda>_. taskswitch))) s)
        (\<lambda>_. qlock_check l)"
      using Some by (simp add: do_qlock_def bnd_assoc bnd_def [of "get _"] sem_simps flip: bnd_def)
    also have "always R (\<lambda>s. qowner s l = taskrunning s) \<dots>"
      by (rule always_bindr [where P = "\<lambda>_. True"]) (simp_all add: qlock_check_own)
    finally show ?thesis .
  qed
  then show ?thesis
    unfolding qlock_def bnd_def by (rule always_bindr) (simp add: ret_def)
qed

lemma wake_up_owning:
  "rlk s r = Some l \<Longrightarrow> always R (\<lambda>s. qowner s l = taskrunning s) (wake_up r s)"
  using qlock_owning by (simp add: wake_up_def bnd_def sem_simps)

lemma tasksleep_blocks:
  assumes "queues_ok s L" and "taskrunning s = Some t" "t \<in> dom (tasks s)" "\<not> queued L t"
    and "\<And>l. rlk s r = Some l \<Longrightarrow> qowner s l \<noteq> None"
  shows "(\<exists>s'. tasksleep r s = Switch s' (wake_up r) \<and> queues_ok s' (asleep r L t s) \<and> calm s s' \<and>
      sched.more s' = sched.more (s\<lparr>qowner := unlocked r L s\<rparr>)) \<or>
    (\<exists>s'. tasksleep r s = Halt Abort s')"
proof -
  from fall_asleep_runs [OF assms] obtain s' where s': "fall_asleep r t s = Ret () s'"
    "queues_ok s' (asleep r L t s)" "calm s s'"
    "sched.more s' = sched.more (s\<lparr>qowner := unlocked r L s\<rparr>)"
    by (auto simp: runs_def)
  then have run: "taskrunning s' = Some t" and "t \<in> dom (tasks s')"
    using assms(2,3) calm_dom [of s s'] by (auto simp: calm_def)
  then obtain x where "tasks s' t = Some x" by blast
  then have "taskswitch s' = Halt Abort s' \<or> taskswitch s' = Switch s' (ret ())"
    using run by (simp add: taskswitch_def needstack_def running_def bnd_def deref_def load_task_def
        sem_simps)
  then show ?thesis
    using s' assms(2)
    by (auto simp: tasksleep_parts running_def deref_def bnd_def [of "get _"] sem_simps
        bnd_def [of taskswitch] bnd_def [of "bnd _ _"] bnd_def [of "fall_asleep _ _"] ret_def)
qed

lemma fall_asleep_unlocked:
  assumes "queues_ok s L" and "taskrunning s = Some t" "t \<in> dom (tasks s)" "\<not> queued L t"
    and "rlk s r = Some l" and "qowner s l = None"
  shows "\<exists>s'. fall_asleep r t s = Halt Abort s'"
proof -
  from addtask_spec [OF assms(1,3,4), of "ZWaiting r"] obtain s' where
    s': "addtask (ZWaiting r) t s = Ret () s'" "relinked s s'" by (auto simp: runs_def)
  have "rlk s' = rlk s" "qowner s' = qowner s"
    using relinked_more [OF s'(2)] rlk_more qowner_more by blast+
  then show ?thesis
    using assms s'
    by (simp add: fall_asleep_def bnd_def sem_simps qunlock_free)
qed

lemma tasksleep_unlocked:
  assumes "queues_ok s L" and "taskrunning s = Some t" "t \<in> dom (tasks s)" "\<not> queued L t"
    and "rlk s r = Some l" and "qowner s l = None"
  shows "\<exists>s'. tasksleep r s = Halt Abort s'"
  using fall_asleep_unlocked [OF assms] assms(2)
  by (auto simp: tasksleep_parts running_def deref_def bnd_def sem_simps)

section \<open>Safety\<close>

locale rendez_client = rwlock_client J Keep naps Pre
  for J :: "'z rendezs_scheme \<Rightarrow> tptr set \<Rightarrow> bool"
    and Keep :: "tptr \<Rightarrow> 'z rendezs_scheme \<Rightarrow> 'z rendezs_scheme \<Rightarrow> bool"
    and naps :: "'z rendezs_scheme \<Rightarrow> int"
    and Pre :: "'z rendezs_scheme \<Rightarrow> nat \<Rightarrow> uint \<Rightarrow> bool"
begin

lemma asleep_Stop:
  assumes r: "RunL t L s" and q: "queues_ok s' (asleep z L t s)" and c: "calm s s'"
    and m: "sched.more s' = sched.more (s\<lparr>qowner := unlocked z L s\<rparr>)"
  shows "Stop t s' \<and> Others t s s'"
proof -
  have queued: "queued (asleep z L t s) p \<Longrightarrow> queued L p \<or> p = t" for p
    using queued_snoc [of L "ZWaiting z" t p] by (auto simp: asleep_def split: option.splits)
  let ?s = "s\<lparr>qowner := unlocked z L s\<rparr>"
  have "J ?s (parked s L)" by (rule J_qowner [OF RunL_D(7) [OF r]])
  moreover have "parked s L \<subseteq> parked s' (asleep z L t s)"
    using queued calm_dom [OF c] c RunL_D(2) [OF r] by (auto simp: parked_def calm_def)
  ultimately have "J s' (parked s' (asleep z L t s))" using J_more [OF _ m] J_mono by blast
  moreover have o: "Others t s s'"
    using Keep_qowner Keep_more [OF m] Keep_trans unfolding Others_def by blast
  moreover have "naps s' = naps s" using naps_more [OF m] naps_qowner by simp
  moreover have "asleep z L t s Sleeping = L Sleeping"
    by (simp add: asleep_def released_def split: option.splits list.splits)
  ultimately have "Stop t s'" by (intro calm_Stop [OF r mildI [OF c q]])
  then show ?thesis using o ..
qed

lemma OK_wake_up: "OK t (wake_up r)"
  unfolding wake_up_def by (intro OK_bnd OK_get) (auto intro: OK_qlock split: option.split)

lemma OK_tasksleep: "OK t (tasksleep r)"
proof -
  let ?locked = "\<lambda>s. \<forall>l. rlk s r = Some l \<longrightarrow> qowner s l \<noteq> None"
  let ?m = "bnd (fall_asleep r t) (\<lambda>_. taskswitch)"
  have "Safe t ?locked ?m (\<lambda>_ _. True)"
  proof (rule Safe_suspend [where S = "\<lambda>_. True"])
    fix s
    assume "Run t s" and own: "?locked s"
    then obtain L where l: "RunL t L s" by (auto simp: Run_RunL)
    show "runs (fall_asleep r t) s (\<lambda>_ s'. Stop t s' \<and> Others t s s' \<and> True)"
      by (rule runs_mono [OF fall_asleep_runs [OF RunL_D(1-4) [OF l]]])
        (use own asleep_Stop [OF l] in auto)
  qed simp
  moreover have "Safe t (\<lambda>s. \<not> ?locked s) ?m (\<lambda>_ _. True)"
    unfolding Safe_def
  proof (intro allI impI)
    fix s
    assume "Run t s" and "\<not> ?locked s"
    then obtain L l where l: "RunL t L s" and own: "rlk s r = Some l" "qowner s l = None"
      by (auto simp: Run_RunL)
    have "\<exists>s'. ?m s = Halt Abort s'"
      using fall_asleep_unlocked [OF RunL_D(1-4) [OF l] own] by (auto simp: bnd_def)
    then show "safe_for t (\<lambda>s0 a s'. Run t s' \<and> Others t s0 s' \<and> True) (?m s) s"
      by (auto simp: safe_for_def)
  qed
  ultimately have "Safe t (\<lambda>_. True) ?m (\<lambda>_ _. True)"
    by (auto simp: Safe_def)
  then show ?thesis
    unfolding tasksleep_parts by - (rule OK_running, erule OK_bnd, rule OK_wake_up)
qed

lemma OK_wakeup_loop: "OK t (wakeup_loop n r every i)"
proof (induction n arbitrary: i)
  case 0
  then show ?case by (simp add: OK_halt)
next
  case (Suc n)
  have "OK t (bnd (get (\<lambda>s. head (lists s (ZWaiting r)))) (\<lambda>h. case h of None \<Rightarrow> ret i
    | Some u \<Rightarrow> bnd (ret ()) (\<lambda>_. bnd (hand_over (ZWaiting r) u) (\<lambda>_. wakeup_loop n r every (i + 1)))))"
    by (rule OK_wake_head) (auto intro: Safe_ret Suc.IH)
  then show ?case by (simp add: hand_over_def bnd_assoc cong: option.case_cong)
qed

lemma OK_taskwakeup: "OK t (taskwakeup r)" and OK_taskwakeupall: "OK t (taskwakeupall r)"
  unfolding taskwakeup_def taskwakeupall_def do_taskwakeup_def
  by (intro OK_bnd OK_get OK_wakeup_loop)+

lemmas OK_rendezs = OK_tasksleep OK_taskwakeup OK_taskwakeupall

end

interpretation rendezs: rendez_client "\<lambda>_ _. True" "\<lambda>_ _ _. True" "\<lambda>_. 0" "\<lambda>_ _ _. True"
  by unfold_locales

section \<open>Properties of the rendezvous points\<close>

text \<open>
  C26: \<open>tasksleep\<close> with the lock held is atomic: in one turn the caller joins the sleepers and the
  lock passes to its next owner, so no wakeup can fall between; it then goes on with taking the
  lock again. Without its lock being held it is a fault.
\<close>

theorem tasksleep_atomic:
  assumes "queues_ok s L" and "taskrunning s = Some t" "t \<in> dom (tasks s)" "\<not> queued L t"
    and "rlk s r = Some l"
  shows "(qowner s l \<noteq> None \<longrightarrow>
      (\<exists>s'. tasksleep r s = Switch s' (wake_up r) \<and>
         qowner s' = (qowner s)(l := hd_opt (L (QWaiting l))) \<and>
         (\<exists>L'. queues_ok s' L' \<and> L' (ZWaiting r) = L (ZWaiting r) @ [t] \<and>
            L' (QWaiting l) = tl (L (QWaiting l)) \<and>
            L' RunQueue = L RunQueue @ take 1 (L (QWaiting l)))) \<or>
      (\<exists>s'. tasksleep r s = Halt Abort s')) \<and>
    (qowner s l = None \<longrightarrow> (\<exists>s'. tasksleep r s = Halt Abort s'))"
proof -
  have "qowner s' = unlocked r L s" if "sched.more s' = sched.more (s\<lparr>qowner := unlocked r L s\<rparr>)" for s'
    using qowner_more [OF that] by simp
  moreover have "asleep r L t s (ZWaiting r) = L (ZWaiting r) @ [t]"
    "asleep r L t s (QWaiting l) = tl (L (QWaiting l))"
    "asleep r L t s RunQueue = L RunQueue @ take 1 (L (QWaiting l))"
    using assms(5) by (auto simp: asleep_def released_def split: list.splits)
  moreover have "unlocked r L s = (qowner s)(l := hd_opt (L (QWaiting l)))"
    using assms(5) by (simp add: unlocked_def)
  ultimately show ?thesis
    using tasksleep_blocks [OF assms(1-4), of r] tasksleep_unlocked [OF assms(1-5)] assms(5)
    by (metis option.inject)
qed


text \<open>
  C28: \<open>taskwakeup\<close> readies the task that slept longest and returns 1, or returns 0 when nobody
  sleeps; \<open>taskwakeupall\<close> readies all in their order and returns their number. Both loops end.
\<close>

theorem taskwakeup_counts:
  assumes "queues_ok s L" and "fresh_ok s"
  shows "runs (taskwakeup r) s (\<lambda>n s'. n = of_nat (length (take 1 (L (ZWaiting r)))) \<and>
      queues_ok s' (L(ZWaiting r := tl (L (ZWaiting r)),
        RunQueue := L RunQueue @ take 1 (L (ZWaiting r))))) \<and>
    runs (taskwakeupall r) s (\<lambda>n s'. n = of_nat (length (L (ZWaiting r))) \<and>
      queues_ok s' (L(ZWaiting r := [], RunQueue := L RunQueue @ L (ZWaiting r))))"
proof -
  have "runs (taskwakeup r) s (\<lambda>n s'. n = of_nat (length (take 1 (L (ZWaiting r)))) \<and>
      queues_ok s' (L(ZWaiting r := tl (L (ZWaiting r)),
        RunQueue := L RunQueue @ take 1 (L (ZWaiting r)))))"
  proof (cases "L (ZWaiting r)")
    case Nil
    moreover from this have "L(ZWaiting r := [], RunQueue := L RunQueue) = L" by auto
    ultimately show ?thesis
      using wakeup_nobody [OF assms(1) Nil] assms(1) by (simp add: runs_def)
  next
    case (Cons t ts)
    show ?thesis
      by (rule runs_mono [OF wakeup_first [OF assms Cons]]) (simp add: Cons)
  qed
  then show ?thesis
    using wakeupall_runs [OF assms, of r] by (auto elim!: runs_mono)
qed

theorem tasksleep_atomic_witness:
  "(\<exists>s'. tasksleep 4 (demo (QWaiting 7) (qlocks_ext [7 \<mapsto> 0] (rwlocks_ext (\<lambda>_. \<lparr>readers = 0, writer = None\<rparr>)
        (rendezs_ext [4 \<mapsto> 7] ())))) = Switch s' (wake_up 4) \<and> qowner s' 7 = Some 1) \<or>
   (\<exists>s'. tasksleep 4 (demo (QWaiting 7) (qlocks_ext [7 \<mapsto> 0] (rwlocks_ext (\<lambda>_. \<lparr>readers = 0, writer = None\<rparr>)
        (rendezs_ext [4 \<mapsto> 7] ())))) = Halt Abort s')"
proof -
  let ?s = "demo (QWaiting 7) (qlocks_ext [7 \<mapsto> 0] (rwlocks_ext (\<lambda>_. \<lparr>readers = 0, writer = None\<rparr>)
        (rendezs_ext [4 \<mapsto> 7] ())))"
  have o: "qowner ?s = [7 \<mapsto> 0]" "rlk ?s 4 = Some 7" by (simp_all add: demo_def)
  show ?thesis
    using tasksleep_atomic [OF demo_queues demo_simps(1,3,4) o(2)] by (auto simp: o(1))
qed


theorem taskwakeup_counts_witness:
  "runs (taskwakeupall 4) (demo (ZWaiting 4) (qlocks_ext [7 \<mapsto> 0] (rwlocks_ext (\<lambda>_. \<lparr>readers = 0, writer = None\<rparr>)
        (rendezs_ext [4 \<mapsto> 7] ())))) (\<lambda>n s'. n = 2)"
proof -
  let ?s = "demo (ZWaiting 4) (qlocks_ext [7 \<mapsto> 0] (rwlocks_ext (\<lambda>_. \<lparr>readers = 0, writer = None\<rparr>)
        (rendezs_ext [4 \<mapsto> 7] ())))"
  show ?thesis
    using taskwakeup_counts [where s = ?s and L = "demoL (ZWaiting 4)" and r = 4]
    by (auto simp: demo_queues demo_fresh elim!: runs_mono)
qed

end
