(* ===== verification/Channel.thy ===== *)
theory Channel
  imports Rendez
begin

text \<open>
  channel.c: the data, the buffer of a channel and the arrays of the waiting operations. The calls
  of the client (\<open>chanalt\<close>, \<open>chansend\<close> and the others) are in \<open>Chanalt\<close>.
\<close>

section \<open>Data\<close>

text \<open>
  \<open>Alt\<close> structures are elements of an array in the client's memory or on its stack: a pointer to
  one is the number of the array and an index. Pointers to channels are numbers. \<open>void *\<close> points
  to the start of an object: one of the client, or the 4 bytes that \<open>chansendul\<close> and the like keep
  on the stack of the task that calls them.
\<close>

datatype obj = Object nat | Local tptr

type_synonym aptr = "nat \<times> nat"
type_synonym cptr = nat

abbreviation (input) CHANEND :: uint where "CHANEND \<equiv> 0"
abbreviation (input) CHANSND :: uint where "CHANSND \<equiv> 1"
abbreviation (input) CHANRCV :: uint where "CHANRCV \<equiv> 2"
abbreviation (input) CHANNOP :: uint where "CHANNOP \<equiv> 3"
abbreviation (input) CHANNOBLK :: uint where "CHANNOBLK \<equiv> 4"

record alt =
  ac :: cptr
  av :: "obj option"
  aop :: uint
  atask :: "tptr option"
  axalt :: "aptr option"

text \<open>
  \<open>aa\<close> is the allocated array, so that \<open>m\<close> is its length; \<^term>\<open>None\<close> is an entry that was never
  written. \<open>an\<close> is the field \<open>n\<close>.
\<close>

record altarray =
  aa :: "aptr option list"
  an :: nat

record chan =
  bufsize :: uint
  elemsize :: uint
  cbuf :: "uchar list"
  nbuf :: uint
  off :: uint
  asend :: altarray
  arecv :: altarray

text \<open>
  The state: the live channels, the arrays of \<open>Alt\<close>, the objects of the client, the numbers the
  next of them get, what \<open>rand\<close> returns and what fresh memory contains.
\<close>

record chans = rendezs +
  chan :: "cptr \<Rightarrow> chan option"
  cbrk :: cptr
  alts :: "nat \<Rightarrow> alt list option"
  abrk :: nat
  umem :: "obj \<Rightarrow> uchar list option"
  ubrk :: nat
  rnd :: "nat \<Rightarrow> nat"
  rnds :: nat
  junk :: "nat \<Rightarrow> uchar"

section \<open>Access\<close>

definition load_chan :: "cptr \<Rightarrow> ('z chans_scheme, chan) prog" where
  "load_chan c s = (case chan s c of None \<Rightarrow> Halt BadMem s | Some x \<Rightarrow> Ret x s)"

definition mod_chan :: "cptr \<Rightarrow> (chan \<Rightarrow> chan) \<Rightarrow> ('z chans_scheme, unit) prog" where
  "mod_chan c f s =
     (case chan s c of
        None \<Rightarrow> Halt BadMem s
      | Some x \<Rightarrow> Ret () (s\<lparr>chan := (chan s)(c \<mapsto> f x)\<rparr>))"

definition load_alt :: "aptr \<Rightarrow> ('z chans_scheme, alt) prog" where
  "load_alt a s =
     (case alts s (fst a) of
        None \<Rightarrow> Halt BadMem s
      | Some xs \<Rightarrow> if snd a < length xs then Ret (xs ! snd a) s else Halt BadMem s)"

definition mod_alt :: "aptr \<Rightarrow> (alt \<Rightarrow> alt) \<Rightarrow> ('z chans_scheme, unit) prog" where
  "mod_alt a f s =
     (case alts s (fst a) of
        None \<Rightarrow> Halt BadMem s
      | Some xs \<Rightarrow>
          if snd a < length xs
          then Ret () (s\<lparr>alts := (alts s)(fst a \<mapsto> xs[snd a := f (xs ! snd a)])\<rparr>)
          else Halt BadMem s)"

definition rand :: "('z chans_scheme, nat) prog" where
  "rand s = Ret (rnd s (rnds s)) (s\<lparr>rnds := Suc (rnds s)\<rparr>)"

text \<open>Memory an operand may lie in: nil, an object of the client, a place in a channel's buffer.\<close>

datatype mref = Nil_ref | Obj obj | Buf cptr nat

primrec read_mem :: "mref \<Rightarrow> nat \<Rightarrow> ('z chans_scheme, uchar list) prog" where
  "read_mem Nil_ref n = halt BadMem"
| "read_mem (Obj p) n = (\<lambda>s.
     case umem s p of
       None \<Rightarrow> Halt BadMem s
     | Some bs \<Rightarrow> if n \<le> length bs then Ret (take n bs) s else Halt BadMem s)"
| "read_mem (Buf c i) n = (\<lambda>s.
     case chan s c of
       None \<Rightarrow> Halt BadMem s
     | Some x \<Rightarrow>
         if i + n \<le> length (cbuf x) then Ret (take n (drop i (cbuf x))) s else Halt BadMem s)"

definition overwrite :: "nat \<Rightarrow> 'a list \<Rightarrow> 'a list \<Rightarrow> 'a list" where
  "overwrite i bs xs = take i xs @ bs @ drop (i + length bs) xs"

primrec write_mem :: "mref \<Rightarrow> uchar list \<Rightarrow> ('z chans_scheme, unit) prog" where
  "write_mem Nil_ref bs = halt BadMem"
| "write_mem (Obj p) bs = (\<lambda>s.
     case umem s p of
       None \<Rightarrow> Halt BadMem s
     | Some xs \<Rightarrow>
         if length bs \<le> length xs then Ret () (s\<lparr>umem := (umem s)(p \<mapsto> overwrite 0 bs xs)\<rparr>)
         else Halt BadMem s)"
| "write_mem (Buf c i) bs = (\<lambda>s.
     case chan s c of
       None \<Rightarrow> Halt BadMem s
     | Some x \<Rightarrow>
         if i + length bs \<le> length (cbuf x)
         then Ret () (s\<lparr>chan := (chan s)(c \<mapsto> x\<lparr>cbuf := overwrite i bs (cbuf x)\<rparr>)\<rparr>)
         else Halt BadMem s)"

definition ref :: "obj option \<Rightarrow> mref" where
  "ref v = (case v of None \<Rightarrow> Nil_ref | Some p \<Rightarrow> Obj p)"

section \<open>Channels\<close>

text \<open>\<open>sizeof(Channel)\<close> of the i386 build.\<close>

definition sizeof_Channel :: uint where
  "sizeof_Channel = 48"

definition no_alts :: altarray where
  "no_alts = \<lparr>aa = [], an = 0\<rparr>"

text \<open>
  The size given to \<open>malloc\<close> wraps around. If it comes out smaller than the structure, clearing
  the structure already writes beyond the object. Pointers to channels are numbered in the order of
  their creation; a pointer is a machine word, and \<open>malloc\<close> fails when there is none left.
\<close>

definition chancreate :: "uint \<Rightarrow> uint \<Rightarrow> ('z chans_scheme, cptr) prog" where
  "chancreate esize bsize =
     bnd try_alloc (\<lambda>ok.
     bnd (get cbrk) (\<lambda>c.
     let total = sizeof_Channel + bsize * esize in
     if \<not> ok \<or> 2 ^ 32 \<le> c then halt (Exit 1)
     else if total < sizeof_Channel then halt BadMem
     else
       bnd (get junk) (\<lambda>junk.
       bnd (upd (\<lambda>s. s\<lparr>cbrk := Suc c, chan := (chan s)(c \<mapsto>
         \<lparr>bufsize = bsize, elemsize = esize,
          cbuf = map junk [0..<unat (total - sizeof_Channel)],
          nbuf = 0, off = 0, asend = no_alts, arecv = no_alts\<rparr>)\<rparr>)) (\<lambda>_.
       ret c))))"

definition chanfree :: "cptr option \<Rightarrow> ('z chans_scheme, unit) prog" where
  "chanfree c =
     (case c of
        None \<Rightarrow> ret ()
      | Some c \<Rightarrow>
          bnd (load_chan c) (\<lambda>_.
          upd (\<lambda>s. s\<lparr>chan := (chan s)(c := None)\<rparr>)))"

section \<open>Arrays of waiting operations\<close>

datatype side = Snd | Rcv

definition otherop :: "uint \<Rightarrow> uint" where
  "otherop x = CHANSND + CHANRCV - x"

definition chanarray :: "uint \<Rightarrow> side option" where
  "chanarray x = (if x = CHANSND then Some Snd else if x = CHANRCV then Some Rcv else None)"

definition array :: "side \<Rightarrow> chan \<Rightarrow> altarray" where
  "array d c = (case d of Snd \<Rightarrow> asend c | Rcv \<Rightarrow> arecv c)"

definition mod_array :: "side \<Rightarrow> (altarray \<Rightarrow> altarray) \<Rightarrow> chan \<Rightarrow> chan" where
  "mod_array d f c =
     (case d of Snd \<Rightarrow> c\<lparr>asend := f (asend c)\<rparr> | Rcv \<Rightarrow> c\<lparr>arecv := f (arecv c)\<rparr>)"

definition grow_array :: "altarray \<Rightarrow> altarray" where
  "grow_array x = x\<lparr>aa := aa x @ replicate 16 None\<rparr>"

definition put_array :: "aptr \<Rightarrow> altarray \<Rightarrow> altarray" where
  "put_array a x = x\<lparr>aa := (aa x)[an x := Some a], an := Suc (an x)\<rparr>"

text \<open>A failed \<open>realloc\<close> is not checked: the entry is then written through nil.\<close>

definition addarray :: "cptr \<Rightarrow> side \<Rightarrow> aptr \<Rightarrow> ('z chans_scheme, unit) prog" where
  "addarray c d a =
     bnd (load_chan c) (\<lambda>x.
     bnd (whenp (an (array d x) = length (aa (array d x)))
           (bnd try_alloc (\<lambda>ok.
            if ok then mod_chan c (mod_array d grow_array) else halt NoMemory))) (\<lambda>_.
     mod_chan c (mod_array d (put_array a))))"

definition del_array :: "nat \<Rightarrow> altarray \<Rightarrow> altarray" where
  "del_array i x = x\<lparr>an := an x - 1, aa := (aa x)[i := aa x ! (an x - 1)]\<rparr>"

definition delarray :: "cptr \<Rightarrow> side \<Rightarrow> nat \<Rightarrow> ('z chans_scheme, unit) prog" where
  "delarray c d i =
     bnd (load_chan c) (\<lambda>x.
     if an (array d x) = 0 then halt BadMem
     else mod_chan c (mod_array d (del_array i)))"

text \<open>Whether the operation can be carried out now; \<^term>\<open>None\<close> is a channel that is not live.\<close>

definition altcanexec :: "'z chans_scheme \<Rightarrow> alt \<Rightarrow> bool option" where
  "altcanexec s a =
     (if aop a = CHANNOP then Some False
      else case chan s (ac a) of
        None \<Rightarrow> None
      | Some c \<Rightarrow>
          Some (if bufsize c = 0 then
                  (case chanarray (otherop (aop a)) of None \<Rightarrow> False | Some d \<Rightarrow> an (array d c) \<noteq> 0)
                else if aop a = CHANSND then nbuf c < bufsize c
                else if aop a = CHANRCV then 0 < nbuf c
                else False))"

definition altqueue :: "aptr \<Rightarrow> ('z chans_scheme, unit) prog" where
  "altqueue a =
     bnd (load_alt a) (\<lambda>x.
     case chanarray (aop x) of
       None \<Rightarrow> halt BadMem
     | Some d \<Rightarrow> addarray (ac x) d a)"

text \<open>The loop of \<open>altdequeue\<close>: the first index below \<open>n\<close> at which the array holds \<open>a\<close>.\<close>

fun find_entry :: "aptr \<Rightarrow> aptr option list \<Rightarrow> nat \<Rightarrow> nat \<Rightarrow> nat option" where
  "find_entry a xs 0 i = None"
| "find_entry a [] (Suc n) i = None"
| "find_entry a (x # xs) (Suc n) i = (if x = Some a then Some i else find_entry a xs n (Suc i))"

definition altdequeue :: "aptr \<Rightarrow> ('z chans_scheme, unit) prog" where
  "altdequeue a =
     bnd (load_alt a) (\<lambda>x.
     case chanarray (aop x) of
       None \<Rightarrow> halt Abort
     | Some d \<Rightarrow>
         bnd (load_chan (ac x)) (\<lambda>c.
         case find_entry a (aa (array d c)) (an (array d c)) 0 of
           None \<Rightarrow> halt Abort
         | Some i \<Rightarrow> delarray (ac x) d i))"

text \<open>The loop of \<open>altalldequeue\<close>; its fuel is the number of elements the array has left.\<close>

fun dequeue_from :: "nat \<Rightarrow> nat \<Rightarrow> nat \<Rightarrow> ('z chans_scheme, unit) prog" where
  "dequeue_from 0 b i = halt BadMem"
| "dequeue_from (Suc n) b i =
     bnd (load_alt (b, i)) (\<lambda>x.
     if aop x = CHANEND \<or> aop x = CHANNOBLK then ret ()
     else
       bnd (whenp (aop x \<noteq> CHANNOP) (altdequeue (b, i))) (\<lambda>_.
       dequeue_from n b (Suc i)))"

definition altalldequeue :: "aptr \<Rightarrow> ('z chans_scheme, unit) prog" where
  "altalldequeue a =
     bnd (get (\<lambda>s. case alts s (fst a) of None \<Rightarrow> 0 | Some xs \<Rightarrow> length xs)) (\<lambda>n.
     dequeue_from (n - snd a) (fst a) (snd a))"

section \<open>Moving data\<close>

definition amove :: "mref \<Rightarrow> mref \<Rightarrow> uint \<Rightarrow> ('z chans_scheme, unit) prog" where
  "amove dst src n =
     whenp (dst \<noteq> Nil_ref)
       (if src = Nil_ref then write_mem dst (replicate (unat n) 0)
        else bnd (read_mem src (unat n)) (write_mem dst))"

text \<open>The two halves of \<open>altcopy\<close>: taking an element out of the buffer, putting one in.\<close>

definition buf_recv :: "cptr \<Rightarrow> obj option \<Rightarrow> ('z chans_scheme, unit) prog" where
  "buf_recv c v =
     bnd (load_chan c) (\<lambda>x.
     bnd (amove (ref v) (Buf c (unat (off x * elemsize x))) (elemsize x)) (\<lambda>_.
     mod_chan c (\<lambda>x. x\<lparr>nbuf := nbuf x - 1,
       off := (if off x + 1 = bufsize x then 0 else off x + 1)\<rparr>)))"

definition buf_send :: "cptr \<Rightarrow> obj option \<Rightarrow> ('z chans_scheme, unit) prog" where
  "buf_send c v =
     bnd (load_chan c) (\<lambda>x.
     if bufsize x = 0 then halt BadMem
     else
       bnd (amove (Buf c (unat ((off x + nbuf x) mod bufsize x * elemsize x))) (ref v) (elemsize x)) (\<lambda>_.
       mod_chan c (\<lambda>x. x\<lparr>nbuf := nbuf x + 1\<rparr>)))"

definition load_opt :: "aptr option \<Rightarrow> ('z chans_scheme, alt option) prog" where
  "load_opt a = (case a of None \<Rightarrow> ret None | Some a \<Rightarrow> bnd (load_alt a) (\<lambda>x. ret (Some x)))"

definition transfer :: "cptr \<Rightarrow> alt option \<Rightarrow> alt option \<Rightarrow> ('z chans_scheme, unit) prog" where
  "transfer c sx rx =
     bnd (load_chan c) (\<lambda>cx.
     case (sx, rx) of
       (Some sa, Some ra) \<Rightarrow>
         (if nbuf cx = 0 then amove (ref (av ra)) (ref (av sa)) (elemsize cx)
          else bnd (buf_recv c (av ra)) (\<lambda>_. buf_send c (av sa)))
     | (None, Some ra) \<Rightarrow> buf_recv c (av ra)
     | (Some sa, None) \<Rightarrow> buf_send c (av sa)
     | (None, None) \<Rightarrow> ret ())"

definition altcopy :: "aptr option \<Rightarrow> aptr option \<Rightarrow> ('z chans_scheme, unit) prog" where
  "altcopy s r =
     (case s of
        None \<Rightarrow> (if r = None then ret () else halt AssertFail)
      | Some p \<Rightarrow>
          bnd (load_alt p) (\<lambda>x.
          let c = ac x;
              s' = (if aop x = CHANRCV then r else s);
              r' = (if aop x = CHANRCV then s else r)
          in
          bnd (load_opt s') (\<lambda>sx.
          bnd (load_opt r') (\<lambda>rx.
          if (case sx of None \<Rightarrow> False | Some sa \<Rightarrow> aop sa \<noteq> CHANSND) then halt AssertFail
          else if (case rx of None \<Rightarrow> False | Some ra \<Rightarrow> aop ra \<noteq> CHANRCV) then halt AssertFail
          else transfer c sx rx))))"

definition altexec :: "aptr \<Rightarrow> ('z chans_scheme, unit) prog" where
  "altexec a =
     bnd (load_alt a) (\<lambda>x.
     bnd (load_chan (ac x)) (\<lambda>c.
     case chanarray (otherop (aop x)) of
       None \<Rightarrow> altcopy (Some a) None
     | Some d \<Rightarrow>
         if an (array d c) = 0 then altcopy (Some a) None
         else
           bnd rand (\<lambda>r.
           bnd (deref (aa (array d c) ! (r mod an (array d c)))) (\<lambda>other.
           bnd (altcopy (Some a) (Some other)) (\<lambda>_.
           bnd (load_alt other) (\<lambda>y.
           bnd (deref (axalt y)) (\<lambda>base.
           bnd (altalldequeue base) (\<lambda>_.
           bnd (mod_alt base (\<lambda>z. z\<lparr>axalt := Some other\<rparr>)) (\<lambda>_.
           bnd (deref (atask y)) (\<lambda>t.
           taskready t))))))))))"

section \<open>The buffer is a queue\<close>

text \<open>
  The representation: a channel whose \<open>int\<close> arguments were not negative and whose product did not
  wrap around, the counters within their bounds. \<open>contents\<close> is the queue it represents.
\<close>

definition chan_ok :: "chan \<Rightarrow> bool" where
  "chan_ok c \<longleftrightarrow>
     unat (bufsize c) < 2 ^ 31 \<and> unat (bufsize c) * unat (elemsize c) < 2 ^ 32 \<and>
     length (cbuf c) = unat (bufsize c) * unat (elemsize c) \<and>
     nbuf c \<le> bufsize c \<and> (if bufsize c = 0 then off c = 0 else off c < bufsize c)"

definition elem :: "chan \<Rightarrow> nat \<Rightarrow> uchar list" where
  "elem c k = take (unat (elemsize c)) (drop (k * unat (elemsize c)) (cbuf c))"

definition slot_of :: "chan \<Rightarrow> nat \<Rightarrow> nat" where
  "slot_of c k = (unat (off c) + k) mod unat (bufsize c)"

definition contents :: "chan \<Rightarrow> uchar list list" where
  "contents c = map (\<lambda>k. elem c (slot_of c k)) [0..<unat (nbuf c)]"

lemma slot_bound: "i < n \<Longrightarrow> i * e + e \<le> n * (e :: nat)"
proof -
  assume "i < n"
  then have "Suc i * e \<le> n * e" by (intro mult_le_mono1) simp
  then show ?thesis by simp
qed

lemma slots_apart: "i < j \<Longrightarrow> i * e + e \<le> j * (e :: nat)"
  by (rule slot_bound)

lemma length_overwrite: "i + length bs \<le> length xs \<Longrightarrow> length (overwrite i bs xs) = length xs"
  by (simp add: overwrite_def)

lemma read_overwrite_same:
  "i + length bs \<le> length xs \<Longrightarrow> take (length bs) (drop i (overwrite i bs xs)) = bs"
  by (simp add: overwrite_def)

lemma read_overwrite_below:
  assumes "j + n \<le> i" and "i + length bs \<le> length xs"
  shows "take n (drop j (overwrite i bs xs)) = take n (drop j xs)"
proof -
  have "n \<le> i - j" "j \<le> i" "i \<le> length xs" using assms by simp_all
  then show ?thesis by (simp add: overwrite_def drop_take min_absorb1)
qed

lemma read_overwrite_above:
  "i + length bs \<le> j \<Longrightarrow> i + length bs \<le> length xs \<Longrightarrow>
   take n (drop j (overwrite i bs xs)) = take n (drop j xs)"
  by (simp add: overwrite_def)

definition ring_take :: "chan \<Rightarrow> chan" where
  "ring_take x = x\<lparr>nbuf := nbuf x - 1, off := (if off x + 1 = bufsize x then 0 else off x + 1)\<rparr>"

definition ring_put :: "uchar list \<Rightarrow> chan \<Rightarrow> chan" where
  "ring_put v x = x\<lparr>cbuf := overwrite (slot_of x (unat (nbuf x)) * unat (elemsize x)) v (cbuf x),
     nbuf := nbuf x + 1\<rparr>"

lemma slot_lt: "chan_ok c \<Longrightarrow> bufsize c \<noteq> 0 \<Longrightarrow> slot_of c k < unat (bufsize c)"
  by (simp add: slot_of_def unat_gt_0)

lemma elem_length:
  assumes "chan_ok c" and "k < unat (bufsize c)"
  shows "length (elem c k) = unat (elemsize c)"
  using assms slot_bound [OF assms(2), of "unat (elemsize c)"] by (simp add: elem_def chan_ok_def)

lemma unat_succ: "unat (x :: uint) < 2 ^ 32 - 1 \<Longrightarrow> unat (x + 1) = unat x + 1"
  by (simp add: unat_word_ariths)

lemma ring_take_ok:
  assumes ok: "chan_ok c" and n: "nbuf c \<noteq> 0"
  shows "chan_ok (ring_take c)" and "contents c = elem c (unat (off c)) # contents (ring_take c)"
proof -
  have b: "bufsize c \<noteq> 0" "unat (off c) < unat (bufsize c)" "unat (bufsize c) < 2 ^ 31"
    using ok n by (auto simp: chan_ok_def word_less_nat_alt split: if_splits)
  have n1: "unat (nbuf c - 1) = unat (nbuf c) - 1" "0 < unat (nbuf c)"
    using n by (auto simp: unat_sub_if' unat_gt_0 word_le_nat_alt Suc_le_eq)
  have o1: "unat (off c + 1) = unat (off c) + 1" using b by (intro unat_succ) simp
  have eq: "off c + 1 = bufsize c \<longleftrightarrow> unat (off c) + 1 = unat (bufsize c)"
    using o1 by (metis unsigned_word_eqI)
  define o' where "o' = (if off c + 1 = bufsize c then 0 else off c + 1)"
  have o': "unat o' = (unat (off c) + 1) mod unat (bufsize c)"
    using b o1 eq by (auto simp: o'_def)
  have "unat (nbuf c) \<le> unat (bufsize c)" using ok by (simp add: chan_ok_def word_le_nat_alt)
  then show "chan_ok (ring_take c)"
    using ok b n1 o' by (auto simp: chan_ok_def ring_take_def o'_def [symmetric] word_le_nat_alt word_less_nat_alt)
  have "slot_of (ring_take c) k = slot_of c (Suc k)" for k
    using o' by (simp add: slot_of_def ring_take_def o'_def [symmetric] mod_add_left_eq)
  moreover have "elem (ring_take c) k = elem c k" for k by (simp add: elem_def ring_take_def)
  moreover have "unat (nbuf (ring_take c)) = unat (nbuf c) - 1" using n1 by (simp add: ring_take_def)
  moreover have "[0..<unat (nbuf c)] = 0 # map Suc [0..<unat (nbuf c) - 1]"
    using n1(2) by (simp add: map_Suc_upt upt_conv_Cons)
  moreover have "slot_of c 0 = unat (off c)" using b by (simp add: slot_of_def)
  ultimately show "contents c = elem c (unat (off c)) # contents (ring_take c)"
    by (simp add: contents_def)
qed

lemma ring_put_ok:
  assumes ok: "chan_ok c" and n: "nbuf c < bufsize c" and v: "length v = unat (elemsize c)"
  shows "chan_ok (ring_put v c)" and "contents (ring_put v c) = contents c @ [v]"
proof -
  let ?B = "unat (bufsize c)" and ?e = "unat (elemsize c)" and ?n = "unat (nbuf c)"
  let ?i = "slot_of c ?n"
  have lt: "?n < ?B" and b: "bufsize c \<noteq> 0" using n by (auto simp: word_less_nat_alt)
  have B: "?B < 2 ^ 31" "length (cbuf c) = ?B * ?e" using ok by (auto simp: chan_ok_def)
  have i: "?i < ?B" by (rule slot_lt [OF ok b])
  have room: "?i * ?e + length v \<le> length (cbuf c)" using slot_bound [OF i] v B(2) by simp
  have n1: "unat (nbuf c + 1) = ?n + 1" using lt B(1) by (intro unat_succ) simp
  show "chan_ok (ring_put v c)"
    using ok n1 lt length_overwrite [OF room] by (simp add: chan_ok_def ring_put_def word_le_nat_alt)
  have same: "slot_of (ring_put v c) k = slot_of c k" for k by (simp add: slot_of_def ring_put_def)
  have "elem (ring_put v c) ?i = v"
    using read_overwrite_same [OF room] v by (simp add: elem_def ring_put_def)
  moreover have "elem (ring_put v c) (slot_of c k) = elem c (slot_of c k)" if k: "k < ?n" for k
  proof -
    have "slot_of c k \<noteq> ?i"
    proof
      assume "slot_of c k = ?i"
      then have "(unat (off c) + ?n) mod ?B = (unat (off c) + k) mod ?B" by (simp add: slot_of_def)
      then have "?B dvd ?n - k" using k by (metis add_diff_cancel_left add_le_cancel_left less_imp_le mod_eq_dvd_iff_nat)
      then show False using k lt by (auto dest: dvd_imp_le)
    qed
    then have "slot_of c k < ?i \<or> ?i < slot_of c k" by (rule nat_neq_iff [THEN iffD1])
    then show ?thesis
      using read_overwrite_below [of "slot_of c k * ?e" ?e "?i * ?e" v "cbuf c"]
        read_overwrite_above [of "?i * ?e" v "slot_of c k * ?e" "cbuf c" ?e]
        slots_apart [of "slot_of c k" ?i ?e] slots_apart [of ?i "slot_of c k" ?e] room v
      by (auto simp: elem_def ring_put_def)
  qed
  ultimately show "contents (ring_put v c) = contents c @ [v]"
    using n1 by (simp add: contents_def same ring_put_def [of v c, THEN arg_cong [where f = nbuf]])
qed

section \<open>Moving data refines the queue\<close>

lemma runs_load_chan [simp]: "runs (load_chan c) s P \<longleftrightarrow> (\<exists>x. chan s c = Some x \<and> P x s)"
  by (auto simp: runs_def load_chan_def split: option.splits)

lemma runs_mod_chan [simp]:
  "runs (mod_chan c f) s P \<longleftrightarrow> (\<exists>x. chan s c = Some x \<and> P () (s\<lparr>chan := (chan s)(c \<mapsto> f x)\<rparr>))"
  by (auto simp: runs_def mod_chan_def split: option.splits)

lemma runs_load_alt [simp]:
  "runs (load_alt a) s P \<longleftrightarrow> (\<exists>xs. alts s (fst a) = Some xs \<and> snd a < length xs \<and> P (xs ! snd a) s)"
  by (auto simp: runs_def load_alt_def split: option.splits)

lemma runs_mod_alt [simp]:
  "runs (mod_alt a f) s P \<longleftrightarrow> (\<exists>xs. alts s (fst a) = Some xs \<and> snd a < length xs \<and>
     P () (s\<lparr>alts := (alts s)(fst a \<mapsto> xs[snd a := f (xs ! snd a)])\<rparr>))"
  by (auto simp: runs_def mod_alt_def split: option.splits)

lemma runs_rand [simp]: "runs rand s P \<longleftrightarrow> P (rnd s (rnds s)) (s\<lparr>rnds := Suc (rnds s)\<rparr>)"
  by (simp add: runs_def rand_def)

declare read_mem.simps [simp del] write_mem.simps [simp del]

lemma runs_read_mem [simp]:
  "\<not> runs (read_mem Nil_ref n) s P"
  "runs (read_mem (Obj p) n) s P \<longleftrightarrow> (\<exists>xs. umem s p = Some xs \<and> n \<le> length xs \<and> P (take n xs) s)"
  "runs (read_mem (Buf c i) n) s P \<longleftrightarrow> (\<exists>x. chan s c = Some x \<and> i + n \<le> length (cbuf x) \<and>
     P (take n (drop i (cbuf x))) s)"
  by (auto simp: read_mem.simps runs_def halt_def split: option.splits)

lemma runs_write_mem [simp]:
  "\<not> runs (write_mem Nil_ref bs) s P"
  "runs (write_mem (Obj p) bs) s P \<longleftrightarrow> (\<exists>xs. umem s p = Some xs \<and> length bs \<le> length xs \<and>
     P () (s\<lparr>umem := (umem s)(p \<mapsto> overwrite 0 bs xs)\<rparr>))"
  "runs (write_mem (Buf c i) bs) s P \<longleftrightarrow> (\<exists>x. chan s c = Some x \<and> i + length bs \<le> length (cbuf x) \<and>
     P () (s\<lparr>chan := (chan s)(c \<mapsto> x\<lparr>cbuf := overwrite i bs (cbuf x)\<rparr>)\<rparr>))"
  by (auto simp: write_mem.simps runs_def halt_def split: option.splits)

text \<open>What an operand supplies, and what delivering an element to it does to the memory.\<close>

definition supplies :: "'z chans_scheme \<Rightarrow> obj option \<Rightarrow> nat \<Rightarrow> uchar list \<Rightarrow> bool" where
  "supplies s v n bs \<longleftrightarrow>
     (case v of
        None \<Rightarrow> bs = replicate n 0
      | Some p \<Rightarrow> (\<exists>xs. umem s p = Some xs \<and> n \<le> length xs \<and> bs = take n xs))"

definition accepts :: "'z chans_scheme \<Rightarrow> obj option \<Rightarrow> nat \<Rightarrow> bool" where
  "accepts s v n \<longleftrightarrow> (\<forall>p. v = Some p \<longrightarrow> (\<exists>xs. umem s p = Some xs \<and> n \<le> length xs))"

definition deliver :: "obj option \<Rightarrow> uchar list \<Rightarrow> (obj \<Rightarrow> uchar list option) \<Rightarrow> obj \<Rightarrow> uchar list option" where
  "deliver v bs m = (case v of None \<Rightarrow> m | Some p \<Rightarrow> m(p := map_option (overwrite 0 bs) (m p)))"

lemma supplies_length: "supplies s v n bs \<Longrightarrow> length bs = n"
  by (auto simp: supplies_def split: option.splits)

lemma ref_simps [simp]: "ref None = Nil_ref" "ref (Some p) = Obj p"
  by (simp_all add: ref_def)

lemma supplies_cong: "umem s' = umem s \<Longrightarrow> supplies s' v n b = supplies s v n b"
  by (simp add: supplies_def split: option.split)

lemma acceptsE:
  assumes "accepts s v n"
  obtains "v = None" | p xs where "v = Some p" "umem s p = Some xs" "n \<le> length xs"
  using assms by (cases v) (auto simp: accepts_def)

lemma suppliesE:
  assumes "supplies s v n bs"
  obtains "v = None" "bs = replicate n 0"
  | p xs where "v = Some p" "umem s p = Some xs" "n \<le> length xs" "bs = take n xs"
  using assms by (cases v) (auto simp: supplies_def)

lemma amove_runs:
  assumes "supplies s sv (unat n) bs" and "accepts s rv (unat n)"
  shows "runs (amove (ref rv) (ref sv) n) s (\<lambda>_ s'. s' = s\<lparr>umem := deliver rv bs (umem s)\<rparr>)"
  using assms(2)
proof (cases rule: acceptsE)
  case 1
  then show ?thesis by (simp add: amove_def deliver_def)
next
  case (2 p xs)
  from assms(1) show ?thesis
    by (cases rule: suppliesE) (simp_all add: 2 amove_def runs_bnd deliver_def)
qed

lemma buf_recv_runs:
  assumes c: "chan s c = Some x" and ok: "chan_ok x" and n: "nbuf x \<noteq> 0"
    and v: "accepts s v (unat (elemsize x))"
  shows "runs (buf_recv c v) s (\<lambda>_ s'. s' = s\<lparr>chan := (chan s)(c \<mapsto> ring_take x),
    umem := deliver v (hd (contents x)) (umem s)\<rparr>)"
proof -
  have b: "bufsize x \<noteq> 0" "unat (off x) < unat (bufsize x)"
    using ok n by (auto simp: chan_ok_def word_less_nat_alt split: if_splits)
  then have room: "unat (off x) * unat (elemsize x) + unat (elemsize x) \<le> length (cbuf x)"
    using slot_bound [OF b(2), of "unat (elemsize x)"] ok by (simp add: chan_ok_def)
  then have i: "unat (off x * elemsize x) = unat (off x) * unat (elemsize x)"
    using ok by (subst unat_mult_lem [THEN iffD1]) (auto simp: chan_ok_def)
  have h: "hd (contents x) = elem x (unat (off x))"
    by (simp add: ring_take_ok(2) [OF ok n])
  have l: "length (elem x (unat (off x))) = unat (elemsize x)" by (rule elem_length [OF ok b(2)])
  have e: "take (unat (elemsize x)) (drop (unat (off x) * unat (elemsize x)) (cbuf x)) = elem x (unat (off x))"
    by (simp add: elem_def)
  from v show ?thesis
  proof (cases rule: acceptsE)
    case 1
    then show ?thesis
      using c by (simp add: buf_recv_def amove_def runs_bnd deliver_def ring_take_def)
  next
    case (2 p xs)
    show ?thesis
      unfolding h
      by (simp add: buf_recv_def amove_def runs_bnd deliver_def ring_take_def c 2 i room e l min.coboundedI2)
  qed
qed

lemma buf_send_runs:
  assumes c: "chan s c = Some x" and ok: "chan_ok x" and n: "nbuf x < bufsize x"
    and v: "supplies s v (unat (elemsize x)) bs"
  shows "runs (buf_send c v) s (\<lambda>_ s'. s' = s\<lparr>chan := (chan s)(c \<mapsto> ring_put bs x)\<rparr>)"
proof -
  let ?B = "unat (bufsize x)" and ?e = "unat (elemsize x)"
  have b: "bufsize x \<noteq> 0" and len: "length bs = ?e" and B: "?B < 2 ^ 31"
    using n supplies_length [OF v] ok by (auto simp: word_less_nat_alt chan_ok_def)
  have "unat (off x) < ?B" "unat (nbuf x) < ?B"
    using ok b n by (auto simp: chan_ok_def word_less_nat_alt)
  then have "unat (off x + nbuf x) = unat (off x) + unat (nbuf x)"
    using B by (subst unat_add_lem [THEN iffD1]) auto
  then have i: "unat ((off x + nbuf x) mod bufsize x) = slot_of x (unat (nbuf x))"
    by (simp add: slot_of_def unat_mod)
  have room: "slot_of x (unat (nbuf x)) * ?e + ?e \<le> length (cbuf x)"
    using slot_bound [OF slot_lt [OF ok b], of "unat (nbuf x)" ?e] ok by (simp add: chan_ok_def)
  then have j: "unat ((off x + nbuf x) mod bufsize x * elemsize x) = slot_of x (unat (nbuf x)) * ?e"
    using ok i by (subst unat_mult_lem [THEN iffD1]) (auto simp: chan_ok_def)
  from v show ?thesis
    by (cases rule: suppliesE)
      (simp_all add: buf_send_def amove_def runs_bnd ring_put_def c b j room)
qed

text \<open>
  What the data does, seen from outside: the sender's element goes to the end of the queue, the
  receiver gets the first of the queue.
\<close>

definition moved_data :: "cptr \<Rightarrow> chan \<Rightarrow> uchar list option \<Rightarrow> obj option option \<Rightarrow>
    'z chans_scheme \<Rightarrow> 'z chans_scheme \<Rightarrow> bool" where
  "moved_data c x bs rv s s' \<longleftrightarrow>
     (let q = contents x @ (case bs of None \<Rightarrow> [] | Some b \<Rightarrow> [b]) in
      \<exists>x'. s' = s\<lparr>chan := (chan s)(c \<mapsto> x'),
             umem := (case rv of None \<Rightarrow> umem s | Some v \<Rightarrow> deliver v (hd q) (umem s))\<rparr> \<and>
        chan_ok x' \<and> contents x' = (if rv = None then q else tl q) \<and>
        bufsize x' = bufsize x \<and> elemsize x' = elemsize x \<and> asend x' = asend x \<and> arecv x' = arecv x)"

lemma ring_fields [simp]:
  "bufsize (ring_take x) = bufsize x" "elemsize (ring_take x) = elemsize x"
  "asend (ring_take x) = asend x" "arecv (ring_take x) = arecv x"
  "bufsize (ring_put v x) = bufsize x" "elemsize (ring_put v x) = elemsize x"
  "asend (ring_put v x) = asend x" "arecv (ring_put v x) = arecv x"
  by (simp_all add: ring_take_def ring_put_def)

lemma contents_length [simp]: "length (contents x) = unat (nbuf x)"
  by (simp add: contents_def)

lemma moved_dataI:
  assumes "s' = s\<lparr>chan := (chan s)(c \<mapsto> x'), umem := m\<rparr>"
    and "m = (case rv of None \<Rightarrow> umem s | Some v \<Rightarrow> deliver v (hd (contents x @ (case bs of None \<Rightarrow> [] | Some b \<Rightarrow> [b]))) (umem s))"
    and "chan_ok x'"
    and "contents x' = (if rv = None then contents x @ (case bs of None \<Rightarrow> [] | Some b \<Rightarrow> [b])
      else tl (contents x @ (case bs of None \<Rightarrow> [] | Some b \<Rightarrow> [b])))"
    and "bufsize x' = bufsize x" "elemsize x' = elemsize x" "asend x' = asend x" "arecv x' = arecv x"
  shows "moved_data c x bs rv s s'"
  unfolding moved_data_def Let_def
  by (rule exI [of _ x'], intro conjI) (simp_all add: assms(1,3,5-8) assms(2) [symmetric] assms(4))

lemma recv_data:
  assumes c: "chan s c = Some x" and ok: "chan_ok x" and n: "nbuf x \<noteq> 0"
    and v: "accepts s v (unat (elemsize x))"
  shows "runs (buf_recv c v) s (\<lambda>_. moved_data c x None (Some v) s)"
proof (rule runs_mono [OF buf_recv_runs [OF assms]])
  fix u s'
  assume "s' = s\<lparr>chan := (chan s)(c \<mapsto> ring_take x), umem := deliver v (hd (contents x)) (umem s)\<rparr>"
  then show "moved_data c x None (Some v) s s'"
    by (rule moved_dataI) (simp_all add: ring_take_ok(1) [OF ok n] ring_take_ok(2) [OF ok n])
qed

lemma send_data:
  assumes c: "chan s c = Some x" and ok: "chan_ok x" and n: "nbuf x < bufsize x"
    and v: "supplies s v (unat (elemsize x)) b"
  shows "runs (buf_send c v) s (\<lambda>_. moved_data c x (Some b) None s)"
proof (rule runs_mono [OF buf_send_runs [OF assms]])
  fix u s'
  assume "s' = s\<lparr>chan := (chan s)(c \<mapsto> ring_put b x)\<rparr>"
  then have "s' = s\<lparr>chan := (chan s)(c \<mapsto> ring_put b x), umem := umem s\<rparr>" by simp
  then show "moved_data c x (Some b) None s s'"
    by (rule moved_dataI) (simp_all add: ring_put_ok [OF ok n supplies_length [OF v]])
qed

lemma direct_data:
  assumes c: "chan s c = Some x" and ok: "chan_ok x" and n: "nbuf x = 0"
    and v: "supplies s v (unat (elemsize x)) b" and w: "accepts s w (unat (elemsize x))"
  shows "runs (amove (ref w) (ref v) (elemsize x)) s (\<lambda>_. moved_data c x (Some b) (Some w) s)"
proof (rule runs_mono [OF amove_runs [OF v w]])
  have e: "contents x = []" using n by (simp add: contents_def)
  fix u s'
  assume "s' = s\<lparr>umem := deliver w b (umem s)\<rparr>"
  then have "s' = s\<lparr>chan := (chan s)(c \<mapsto> x), umem := deliver w b (umem s)\<rparr>"
    using c by (simp add: fun_upd_idem)
  then show "moved_data c x (Some b) (Some w) s s'"
    by (rule moved_dataI) (simp_all add: ok e)
qed

lemma through_data:
  assumes c: "chan s c = Some x" and ok: "chan_ok x" and n: "nbuf x \<noteq> 0"
    and w: "accepts s w (unat (elemsize x))"
    and v: "supplies (s\<lparr>umem := deliver w (hd (contents x)) (umem s)\<rparr>) v (unat (elemsize x)) b"
  shows "runs (bnd (buf_recv c w) (\<lambda>_. buf_send c v)) s (\<lambda>_. moved_data c x (Some b) (Some w) s)"
proof (rule runs_bndI, rule runs_mono [OF buf_recv_runs [OF c ok n w]])
  let ?y = "ring_take x"
  let ?s = "s\<lparr>chan := (chan s)(c \<mapsto> ?y), umem := deliver w (hd (contents x)) (umem s)\<rparr>"
  note y = ring_take_ok [OF ok n]
  have "nbuf x \<le> bufsize x" using ok by (simp add: chan_ok_def)
  moreover have "nbuf ?y < nbuf x"
    using n by (simp add: ring_take_def word_less_nat_alt unat_sub_if' unat_gt_0 word_le_nat_alt Suc_le_eq)
  ultimately have room: "nbuf ?y < bufsize ?y" by simp
  have v': "supplies ?s v (unat (elemsize ?y)) b"
    using v supplies_cong [of ?s "s\<lparr>umem := deliver w (hd (contents x)) (umem s)\<rparr>"] by simp
  fix u t
  assume t: "t = ?s"
  have "runs (buf_send c v) ?s (\<lambda>_ s'. s' = ?s\<lparr>chan := (chan ?s)(c \<mapsto> ring_put b ?y)\<rparr>)"
    by (rule buf_send_runs [OF _ y(1) room v']) simp
  then show "runs (buf_send c v) t (\<lambda>_. moved_data c x (Some b) (Some w) s)"
    unfolding t
  proof (rule runs_mono)
    fix u s'
    assume "s' = ?s\<lparr>chan := (chan ?s)(c \<mapsto> ring_put b ?y)\<rparr>"
    then have "s' = s\<lparr>chan := (chan s)(c \<mapsto> ring_put b ?y), umem := deliver w (hd (contents x)) (umem s)\<rparr>"
      by simp
    moreover have "length b = unat (elemsize ?y)" using supplies_length [OF v] by simp
    ultimately show "moved_data c x (Some b) (Some w) s s'"
      by (elim moved_dataI) (simp_all add: ring_put_ok [OF y(1) room] y(2))
  qed
qed

text \<open>
  Every case of the copy. With the same memory as source and destination the element that is sent
  is the one just received.
\<close>

definition operands :: "'z chans_scheme \<Rightarrow> chan \<Rightarrow> alt option \<Rightarrow> alt option \<Rightarrow> uchar list option \<Rightarrow> bool" where
  "operands s x sx rx bs \<longleftrightarrow>
     (case sx of
        None \<Rightarrow> bs = None \<and> (rx \<noteq> None \<longrightarrow> nbuf x \<noteq> 0)
      | Some a \<Rightarrow> (\<exists>b. bs = Some b \<and>
          supplies (case rx of Some r \<Rightarrow> if nbuf x = 0 then s else s\<lparr>umem := deliver (av r) (hd (contents x)) (umem s)\<rparr>
            | None \<Rightarrow> s) (av a) (unat (elemsize x)) b) \<and>
          (rx = None \<longrightarrow> nbuf x < bufsize x)) \<and>
     (case rx of None \<Rightarrow> True | Some r \<Rightarrow> accepts s (av r) (unat (elemsize x)))"

lemma supplies_apart:
  assumes "supplies s v n b" and "v = None \<or> v \<noteq> w"
  shows "supplies (s\<lparr>umem := deliver w bs (umem s)\<rparr>) v n b"
  using assms(1)
proof (cases rule: suppliesE)
  case 1
  then show ?thesis by (simp add: supplies_def)
next
  case (2 p xs)
  then have "deliver w bs (umem s) p = umem s p"
    using assms(2) by (auto simp: deliver_def split: option.splits)
  then show ?thesis using 2 by (simp add: supplies_def)
qed

lemma transfer_runs:
  assumes c: "chan s c = Some x" and ok: "chan_ok x" and o: "operands s x sx rx bs"
  shows "runs (transfer c sx rx) s (\<lambda>_. moved_data c x bs (map_option av rx) s)"
proof (cases sx; cases rx)
  assume e: "sx = None" "rx = None"
  have "s = s\<lparr>chan := (chan s)(c \<mapsto> x), umem := umem s\<rparr>" using c by (simp add: fun_upd_idem)
  then have "moved_data c x None None s s" by (rule moved_dataI) (simp_all add: ok)
  then show ?thesis using c e o by (simp add: transfer_def runs_bnd operands_def)
next
  fix r
  assume e: "sx = None" "rx = Some r"
  then show ?thesis
    using recv_data [OF c ok, of "av r"] o c by (simp add: transfer_def runs_bnd operands_def)
next
  fix a
  assume e: "sx = Some a" "rx = None"
  then obtain b where "bs = Some b" "supplies s (av a) (unat (elemsize x)) b" "nbuf x < bufsize x"
    using o by (auto simp: operands_def)
  then show ?thesis
    using send_data [OF c ok, of "av a" b] c e by (simp add: transfer_def runs_bnd)
next
  fix a r
  assume e: "sx = Some a" "rx = Some r"
  let ?s = "s\<lparr>umem := deliver (av r) (hd (contents x)) (umem s)\<rparr>"
  obtain b where b: "bs = Some b" "accepts s (av r) (unat (elemsize x))"
      "supplies (if nbuf x = 0 then s else ?s) (av a) (unat (elemsize x)) b"
    using o e by (auto simp: operands_def)
  show ?thesis
  proof (cases "nbuf x = 0")
    case True
    then show ?thesis
      using direct_data [OF c ok True _ b(2), of "av a" b] b c e by (simp add: transfer_def runs_bnd)
  next
    case False
    then show ?thesis
      using through_data [OF c ok False b(2), of "av a" b] b c e by (simp add: transfer_def runs_bnd)
  qed
qed

end
