(* ===== verification/Chanalt.thy ===== *)
theory Chanalt
  imports Channel
begin

text \<open>
  channel.c: \<open>chanalt\<close>, which carries out one of several channel operations, and the calls built
  on it. The \<open>for\<close> loops over the entries of the array are recursions over their indices.
\<close>

section \<open>chanalt\<close>

definition alt_ptr :: "aptr \<Rightarrow> nat \<Rightarrow> aptr" where
  "alt_ptr a i = (fst a, snd a + i)"

primrec find_end :: "alt list \<Rightarrow> nat option" where
  "find_end [] = None"
| "find_end (x # xs) =
     (if aop x = CHANEND \<or> aop x = CHANNOBLK then Some 0 else map_option Suc (find_end xs))"

definition mark_alt :: "aptr \<Rightarrow> tptr option \<Rightarrow> nat \<Rightarrow> ('z chans_scheme, unit) prog" where
  "mark_alt a t i = mod_alt (alt_ptr a i) (\<lambda>x. x\<lparr>atask := t, axalt := Some a\<rparr>)"

definition can_alt :: "aptr \<Rightarrow> ('z chans_scheme, bool) prog" where
  "can_alt a =
     bnd (load_alt a) (\<lambda>x.
     bnd (get (\<lambda>s. altcanexec s x)) (\<lambda>r.
     case r of None \<Rightarrow> halt BadMem | Some b \<Rightarrow> ret b))"

primrec count_can :: "aptr \<Rightarrow> nat list \<Rightarrow> nat \<Rightarrow> ('z chans_scheme, nat) prog" where
  "count_can a [] k = ret k"
| "count_can a (i # is) k =
     bnd (can_alt (alt_ptr a i)) (\<lambda>b. count_can a is (if b then Suc k else k))"

text \<open>The loop that carries out the \<open>j\<close>-th of the operations that can be carried out.\<close>

primrec exec_nth :: "aptr \<Rightarrow> nat list \<Rightarrow> nat \<Rightarrow> ('z chans_scheme, nat option) prog" where
  "exec_nth a [] j = ret None"
| "exec_nth a (i # is) j =
     bnd (can_alt (alt_ptr a i)) (\<lambda>b.
     if b then
       (if j = 0 then bnd (altexec (alt_ptr a i)) (\<lambda>_. ret (Some i)) else exec_nth a is (j - 1))
     else exec_nth a is j)"

definition queue_alt :: "aptr \<Rightarrow> nat \<Rightarrow> ('z chans_scheme, unit) prog" where
  "queue_alt a i =
     bnd (load_alt (alt_ptr a i)) (\<lambda>x.
     whenp (aop x \<noteq> CHANNOP) (altqueue (alt_ptr a i)))"

text \<open>The difference of two pointers into the array.\<close>

definition alt_index :: "aptr \<Rightarrow> ('z chans_scheme, cint) prog" where
  "alt_index a =
     bnd (load_alt a) (\<lambda>x.
     bnd (deref (axalt x)) (\<lambda>p.
     if fst p = fst a then ret (word_of_int (int (snd p) - int (snd a))) else halt BadMem))"

definition chanalt :: "aptr \<Rightarrow> ('z chans_scheme, cint) prog" where
  "chanalt a =
     bnd (needstack 512) (\<lambda>_.
     bnd (get (\<lambda>s. alts s (fst a))) (\<lambda>blk.
     bnd (deref blk) (\<lambda>xs.
     bnd (deref (find_end (drop (snd a) xs))) (\<lambda>n.
     let canblock = aop (xs ! (snd a + n)) = CHANEND in
     bnd (get taskrunning) (\<lambda>t.
     bnd (seqp (mark_alt a t) [0..<n]) (\<lambda>_.
     bnd (count_can a [0..<n] 0) (\<lambda>ncan.
     bnd (if ncan = 0 then ret None else bnd rand (\<lambda>r. exec_nth a [0..<n] (r mod ncan))) (\<lambda>found.
     case found of
       Some i \<Rightarrow> ret (of_nat i)
     | None \<Rightarrow>
         if \<not> canblock then ret (- 1)
         else
           bnd (seqp (queue_alt a) [0..<n]) (\<lambda>_.
           bnd taskswitch (\<lambda>_.
           alt_index a))))))))))"

section \<open>The calls on one channel\<close>

text \<open>An array of \<open>Alt\<close> on the stack of the caller comes to life and goes away.\<close>

definition new_alts :: "alt list \<Rightarrow> ('z chans_scheme, nat) prog" where
  "new_alts xs s = Ret (abrk s) (s\<lparr>abrk := Suc (abrk s), alts := (alts s)(abrk s \<mapsto> xs)\<rparr>)"

definition free_alts :: "nat \<Rightarrow> ('z chans_scheme, unit) prog" where
  "free_alts b = upd (\<lambda>s. s\<lparr>alts := (alts s)(b := None)\<rparr>)"

text \<open>
  The array \<open>a[2]\<close> of \<open>_chanop\<close>: the fields that the code leaves uninitialised are never read.
\<close>

definition chanop_alts :: "cptr \<Rightarrow> uint \<Rightarrow> obj option \<Rightarrow> bool \<Rightarrow> alt list" where
  "chanop_alts c oper p canblock =
     [\<lparr>ac = c, av = p, aop = oper, atask = None, axalt = None\<rparr>,
      \<lparr>ac = c, av = None, aop = (if canblock then CHANEND else CHANNOBLK), atask = None, axalt = None\<rparr>]"

definition chanop :: "cptr \<Rightarrow> uint \<Rightarrow> obj option \<Rightarrow> bool \<Rightarrow> ('z chans_scheme, cint) prog" where
  "chanop c oper p canblock =
     bnd (new_alts (chanop_alts c oper p canblock)) (\<lambda>b.
     bnd (chanalt (b, 0)) (\<lambda>r.
     bnd (free_alts b) (\<lambda>_.
     ret (if sint r < 0 then - 1 else 1))))"

definition chansend :: "cptr \<Rightarrow> obj option \<Rightarrow> ('z chans_scheme, cint) prog" where
  "chansend c v = chanop c CHANSND v True"

definition channbsend :: "cptr \<Rightarrow> obj option \<Rightarrow> ('z chans_scheme, cint) prog" where
  "channbsend c v = chanop c CHANSND v False"

definition chanrecv :: "cptr \<Rightarrow> obj option \<Rightarrow> ('z chans_scheme, cint) prog" where
  "chanrecv c v = chanop c CHANRCV v True"

definition channbrecv :: "cptr \<Rightarrow> obj option \<Rightarrow> ('z chans_scheme, cint) prog" where
  "channbrecv c v = chanop c CHANRCV v False"

text \<open>Words in memory: 4 bytes, the least significant first.\<close>

definition bytes_of :: "uint \<Rightarrow> uchar list" where
  "bytes_of w = map (\<lambda>i. ucast (drop_bit (8 * i) w)) [0..<4]"

definition of_bytes :: "uchar list \<Rightarrow> uint" where
  "of_bytes bs = foldr (\<lambda>b w. push_bit 8 w + ucast b) (take 4 bs) 0"

lemma bytes_length [simp]: "length (bytes_of w) = 4"
  by (simp add: bytes_of_def)

lemma low_byte: "ucast (ucast v :: uchar) = take_bit 8 (v :: uint)"
  by (rule bit_word_eqI) (auto simp: bit_simps)

lemma top_byte: "take_bit 8 (drop_bit 24 v) = drop_bit 24 (v :: uint)"
  by (rule bit_word_eqI) (auto simp: bit_simps dest: bit_imp_le_length)

lemma byte_step: "push_bit 8 (drop_bit (k + 8) v) + take_bit 8 (drop_bit k v) = drop_bit k (v :: uint)"
  using bits_ident [of 8 "drop_bit k v"] by (simp add: add.commute)

lemma of_bytes_of: "of_bytes (bytes_of w) = w"
proof -
  have l: "[0..<4] = [0, 1, 2, 3 :: nat]" by (simp add: upt_rec)
  have "of_bytes (bytes_of w) = push_bit 8 (push_bit 8 (push_bit 8 (take_bit 8 (drop_bit 24 w)) +
      take_bit 8 (drop_bit 16 w)) + take_bit 8 (drop_bit 8 w)) + take_bit 8 w"
    by (simp add: of_bytes_def bytes_of_def l low_byte)
  also have "\<dots> = w"
    using byte_step [of 16 w] byte_step [of 8 w] byte_step [of 0 w] by (simp add: top_byte)
  finally show ?thesis .
qed

text \<open>A word on the stack of the caller: what \<open>f\<close> returns, and the word afterwards.\<close>

definition with_local ::
    "uchar list \<Rightarrow> (obj \<Rightarrow> ('z chans_scheme, 'a) prog) \<Rightarrow> ('z chans_scheme, 'a \<times> uchar list) prog" where
  "with_local bs f =
     bnd running (\<lambda>t.
     bnd (upd (\<lambda>s. s\<lparr>umem := (umem s)(Local t \<mapsto> bs)\<rparr>)) (\<lambda>_.
     bnd (f (Local t)) (\<lambda>r.
     bnd (get (\<lambda>s. umem s (Local t))) (\<lambda>v.
     bnd (deref v) (\<lambda>bs'.
     bnd (upd (\<lambda>s. s\<lparr>umem := (umem s)(Local t := None)\<rparr>)) (\<lambda>_.
     ret (r, bs')))))))"

definition send_word :: "cptr \<Rightarrow> uint \<Rightarrow> bool \<Rightarrow> ('z chans_scheme, cint) prog" where
  "send_word c w canblock =
     bnd (with_local (bytes_of w) (\<lambda>p. chanop c CHANSND (Some p) canblock)) (\<lambda>r. ret (fst r))"

text \<open>The word is uninitialised before, and still after a call that failed.\<close>

definition recv_word :: "cptr \<Rightarrow> bool \<Rightarrow> ('z chans_scheme, uint) prog" where
  "recv_word c canblock =
     bnd (get junk) (\<lambda>j.
     bnd (with_local (map j [0..<4]) (\<lambda>p. chanop c CHANRCV (Some p) canblock)) (\<lambda>r.
     ret (of_bytes (snd r))))"

definition chansendp :: "cptr \<Rightarrow> uint \<Rightarrow> ('z chans_scheme, cint) prog" where
  "chansendp c v = send_word c v True"

definition chanrecvp :: "cptr \<Rightarrow> ('z chans_scheme, uint) prog" where
  "chanrecvp c = recv_word c True"

definition channbsendp :: "cptr \<Rightarrow> uint \<Rightarrow> ('z chans_scheme, cint) prog" where
  "channbsendp c v = send_word c v False"

definition channbrecvp :: "cptr \<Rightarrow> ('z chans_scheme, uint) prog" where
  "channbrecvp c = recv_word c False"

definition chansendul :: "cptr \<Rightarrow> uint \<Rightarrow> ('z chans_scheme, cint) prog" where
  "chansendul c w = send_word c w True"

definition chanrecvul :: "cptr \<Rightarrow> ('z chans_scheme, uint) prog" where
  "chanrecvul c = recv_word c True"

definition channbsendul :: "cptr \<Rightarrow> uint \<Rightarrow> ('z chans_scheme, cint) prog" where
  "channbsendul c w = send_word c w False"

definition channbrecvul :: "cptr \<Rightarrow> ('z chans_scheme, uint) prog" where
  "channbrecvul c = recv_word c False"

end
