(* ===== verification/Chaninv.thy ===== *)
theory Chaninv
  imports Chanalt "HOL-Library.Multiset"
begin

text \<open>
  The invariant of the channels: which operations wait, that each of them belongs to a task that is
  parked and to an array that is wholly queued, and that none of them could be carried out. The
  static functions of channel.c keep it.
\<close>

section \<open>The arrays are sets of waiting operations\<close>

definition entries :: "altarray \<Rightarrow> aptr option list" where
  "entries x = take (an x) (aa x)"

definition array_ok :: "altarray \<Rightarrow> bool" where
  "array_ok x \<longleftrightarrow> an x \<le> length (aa x) \<and> distinct (entries x) \<and> None \<notin> set (entries x)"

lemma no_alts_ok [simp]: "array_ok no_alts" "entries no_alts = []"
  by (simp_all add: array_ok_def entries_def no_alts_def)

lemma array_mod_array [simp]:
  "array d (mod_array d' f x) = (if d = d' then f (array d x) else array d x)"
  by (cases d; cases d') (simp_all add: array_def mod_array_def)

lemma mod_array_fields [simp]:
  "bufsize (mod_array d f x) = bufsize x" "elemsize (mod_array d f x) = elemsize x"
  "cbuf (mod_array d f x) = cbuf x" "nbuf (mod_array d f x) = nbuf x" "off (mod_array d f x) = off x"
  by (cases d; simp add: mod_array_def)+

lemma entries_grow [simp]: "an x \<le> length (aa x) \<Longrightarrow> entries (grow_array x) = entries x"
  by (simp add: entries_def grow_array_def)

lemma entries_put: "an x < length (aa x) \<Longrightarrow> entries (put_array a x) = entries x @ [Some a]"
  by (simp add: entries_def put_array_def take_Suc_conv_app_nth)

lemma entries_length: "array_ok x \<Longrightarrow> length (entries x) = an x"
  by (simp add: array_ok_def entries_def)

lemma find_entry_found: "find_entry a xs n i = Some k \<Longrightarrow> i \<le> k \<and> k < i + n \<and> k < i + length xs \<and> xs ! (k - i) = Some a"
proof (induction a xs n i rule: find_entry.induct)
  case (3 a x xs n i)
  then show ?case by (cases "x = Some a") (auto simp: nth_Cons' Suc_diff_le dest: le_SucE)
qed simp_all

lemma find_entry_exists: "Some a \<in> set (take n xs) \<Longrightarrow> find_entry a xs n i \<noteq> None"
  by (induction a xs n i rule: find_entry.induct) (auto split: if_splits)

lemma find_entry_absent: "Some a \<notin> set (take n xs) \<Longrightarrow> find_entry a xs n i = None"
  by (induction a xs n i rule: find_entry.induct) (auto split: if_splits)

text \<open>The last entry takes the place of the removed one.\<close>

lemma mset_swap_remove:
  assumes "i \<le> length xs"
  shows "mset (butlast ((xs @ [y])[i := y])) = mset (xs @ [y]) - {# (xs @ [y]) ! i #}"
  using assms by (cases "i = length xs")
    (auto simp: list_update_append nth_append mset_update multiset_eq_iff in_diff_count not_in_iff split: if_splits)

lemma entries_del:
  assumes "i < an x" and "an x \<le> length (aa x)"
  shows "mset (entries (del_array i x)) = mset (entries x) - {# entries x ! i #}"
proof -
  have len: "length (entries x) = an x" using assms by (simp add: entries_def)
  then obtain ys y where e: "entries x = ys @ [y]"
    using assms(1) by (cases "entries x" rule: rev_cases) auto
  have k: "an x - 1 = length ys" using e len by simp
  have "take (an x) (aa x) ! (an x - 1) = y" using e k by (simp add: entries_def)
  then have y: "aa x ! (an x - 1) = y" using assms(1) by simp
  have "entries (del_array i x) = butlast (take (an x) ((aa x)[i := y]))"
    using assms y by (simp add: entries_def del_array_def butlast_take)
  also have "\<dots> = butlast ((ys @ [y])[i := y])"
    by (simp add: take_update_swap entries_def [symmetric] e)
  finally show ?thesis
    using mset_swap_remove [of i ys y] len assms(1) by (simp add: e)
qed

lemma array_ok_grow [simp]: "array_ok x \<Longrightarrow> array_ok (grow_array x)"
  by (simp add: array_ok_def) (simp add: grow_array_def)

lemma array_ok_put:
  "array_ok x \<Longrightarrow> an x < length (aa x) \<Longrightarrow> Some a \<notin> set (entries x) \<Longrightarrow> array_ok (put_array a x)"
  by (simp add: array_ok_def entries_put) (simp add: put_array_def)

lemma array_ok_del:
  assumes ok: "array_ok x" and i: "i < an x"
  shows "array_ok (del_array i x)" and "set (entries (del_array i x)) = set (entries x) - {entries x ! i}"
proof -
  have n: "an x \<le> length (aa x)" and d: "distinct (entries x)" and s: "None \<notin> set (entries x)"
    using ok by (simp_all add: array_ok_def)
  have m: "mset (entries (del_array i x)) = mset (entries x) - {# entries x ! i #}"
    by (rule entries_del [OF i n])
  have count: "count (mset (entries (del_array i x))) e =
      (if e \<in> set (entries x) - {entries x ! i} then 1 else 0)" for e
    using d by (auto simp: m distinct_count_atmost_1)
  show set: "set (entries (del_array i x)) = set (entries x) - {entries x ! i}"
  proof (rule set_eqI)
    fix e
    show "e \<in> set (entries (del_array i x)) \<longleftrightarrow> e \<in> set (entries x) - {entries x ! i}"
      using count [of e] count_mset_0_iff [of "entries (del_array i x)" e] by (simp split: if_splits)
  qed
  have "distinct (entries (del_array i x))"
    using count by (simp add: distinct_count_atmost_1 set)
  then show "array_ok (del_array i x)"
    using n s set by (auto simp: array_ok_def del_array_def)
qed

section \<open>Waiting operations\<close>

definition at :: "'z chans_scheme \<Rightarrow> aptr \<Rightarrow> alt \<Rightarrow> bool" where
  "at s a y \<longleftrightarrow> (\<exists>xs. alts s (fst a) = Some xs \<and> snd a < length xs \<and> y = xs ! snd a)"

definition waits :: "'z chans_scheme \<Rightarrow> cptr \<Rightarrow> side \<Rightarrow> aptr set" where
  "waits s c d = {p. \<exists>x. chan s c = Some x \<and> Some p \<in> set (entries (array d x))}"

definition arrays_ok :: "'z chans_scheme \<Rightarrow> bool" where
  "arrays_ok s \<longleftrightarrow> (\<forall>c x d. chan s c = Some x \<longrightarrow> array_ok (array d x))"

text \<open>The queued operations know where they are queued.\<close>

definition consistent :: "'z chans_scheme \<Rightarrow> bool" where
  "consistent s \<longleftrightarrow>
     (\<forall>c d p. p \<in> waits s c d \<longrightarrow> (\<exists>y. at s p y \<and> ac y = c \<and> chanarray (aop y) = Some d))"

lemma at_unique: "at s a y \<Longrightarrow> at s a z \<Longrightarrow> y = z"
  by (auto simp: at_def)

lemma load_alt_at: "at s a y \<Longrightarrow> load_alt a s = Ret y s"
  by (auto simp: at_def load_alt_def)

lemma load_chan_live: "chan s c = Some x \<Longrightarrow> load_chan c s = Ret x s"
  by (simp add: load_chan_def)

lemma waits_live: "chan s c = Some x \<Longrightarrow> waits s c d = {p. Some p \<in> set (entries (array d x))}"
  by (simp add: waits_def)

lemma consistentD:
  "consistent s \<Longrightarrow> p \<in> waits s c d \<Longrightarrow> at s p y \<Longrightarrow> ac y = c \<and> chanarray (aop y) = Some d"
  unfolding consistent_def using at_unique by blast

definition same_data :: "chan \<Rightarrow> chan \<Rightarrow> bool" where
  "same_data x x' \<longleftrightarrow> bufsize x' = bufsize x \<and> elemsize x' = elemsize x \<and> cbuf x' = cbuf x \<and>
     nbuf x' = nbuf x \<and> off x' = off x"

lemma same_data_refl [simp]: "same_data x x"
  by (simp add: same_data_def)

lemma same_data_mod_array [simp]: "same_data x (mod_array d f x)"
  by (simp add: same_data_def)

text \<open>The operations \<open>D\<close> were taken out of the arrays; nothing else changed.\<close>

definition chan_drop :: "aptr set \<Rightarrow> chan \<Rightarrow> chan \<Rightarrow> bool" where
  "chan_drop D x x' \<longleftrightarrow> same_data x x' \<and>
     (\<forall>d. array_ok (array d x') \<and> set (entries (array d x')) = set (entries (array d x)) - Some ` D)"

definition dropped :: "aptr set \<Rightarrow> 'z chans_scheme \<Rightarrow> 'z chans_scheme \<Rightarrow> bool" where
  "dropped D s s' \<longleftrightarrow>
     (\<exists>f. s' = s\<lparr>chan := f\<rparr> \<and> (\<forall>c. rel_option (chan_drop D) (chan s c) (f c)))"

lemma dropped_chan: "dropped D s s' \<Longrightarrow> rel_option (chan_drop D) (chan s c) (chan s' c)"
  unfolding dropped_def by (elim exE conjE) simp

lemma dropped_alts: "dropped D s s' \<Longrightarrow> alts s' = alts s"
  unfolding dropped_def by (elim exE conjE) simp

lemma droppedE:
  assumes "dropped D s s'" and "chan s c = Some x"
  obtains x' where "chan s' c = Some x'" "chan_drop D x x'"
  using dropped_chan [OF assms(1), of c] assms(2) by (cases "chan s' c") simp_all

lemma chan_drop_none: "(\<And>d. array_ok (array d x)) \<Longrightarrow> chan_drop {} x x"
  by (simp add: chan_drop_def)

lemma dropped_none:
  assumes "arrays_ok s"
  shows "dropped {} s s"
proof -
  have "rel_option (chan_drop {}) (chan s c) (chan s c)" for c
    by (cases "chan s c") (use assms in \<open>simp_all add: arrays_ok_def chan_drop_none\<close>)
  then show ?thesis unfolding dropped_def by (intro exI [of _ "chan s"]) simp
qed

lemma dropped_arrays: "dropped D s s' \<Longrightarrow> arrays_ok s'"
  unfolding arrays_ok_def
proof (intro allI impI)
  fix c x d
  assume "dropped D s s'" "chan s' c = Some x"
  then show "array_ok (array d x)"
    using dropped_chan [of D s s' c] by (cases "chan s c") (simp_all add: chan_drop_def)
qed

lemma dropped_waits:
  assumes "dropped D s s'"
  shows "waits s' c d = waits s c d - D"
  using dropped_chan [OF assms, of c]
  by (cases "chan s c"; cases "chan s' c") (auto simp: waits_def chan_drop_def)

lemma dropped_trans:
  assumes 1: "dropped D s s'" and 2: "dropped E s' s''"
  shows "dropped (D \<union> E) s s''"
proof -
  obtain f where f: "s' = s\<lparr>chan := f\<rparr>" using 1 unfolding dropped_def by blast
  obtain g where g: "s'' = s'\<lparr>chan := g\<rparr>" using 2 unfolding dropped_def by blast
  have "rel_option (chan_drop (D \<union> E)) (chan s c) (chan s'' c)" for c
  proof (cases "chan s c")
    case None
    then show ?thesis using dropped_chan [OF 1, of c] dropped_chan [OF 2, of c] by simp
  next
    case (Some x)
    then obtain y where y: "chan s' c = Some y" "chan_drop D x y" using 1 by (blast elim: droppedE)
    then obtain z where z: "chan s'' c = Some z" "chan_drop E y z" using 2 by (blast elim: droppedE)
    have "chan_drop (D \<union> E) x z"
      using y(2) z(2) by (simp add: chan_drop_def same_data_def) blast
    then show ?thesis using Some z(1) by simp
  qed
  moreover have "s'' = s\<lparr>chan := g\<rparr>" "chan s'' = g" using f g by simp_all
  ultimately show ?thesis unfolding dropped_def by (intro exI [of _ g]) simp
qed

lemma dropped_at: "dropped D s s' \<Longrightarrow> at s' p y = at s p y"
  by (simp add: at_def dropped_alts)

lemma dropped_consistent: "dropped D s s' \<Longrightarrow> consistent s \<Longrightarrow> consistent s'"
  by (simp add: consistent_def dropped_at dropped_waits)

lemma altdequeue_runs:
  assumes ok: "arrays_ok s" and con: "consistent s" and y: "at s p y" "chanarray (aop y) = Some d"
    and p: "p \<in> waits s (ac y) d"
  shows "runs (altdequeue p) s (\<lambda>_. dropped {p} s)"
proof -
  obtain x where x: "chan s (ac y) = Some x" "Some p \<in> set (entries (array d x))"
    using p by (auto simp: waits_def)
  have aok: "array_ok (array d' x')" if "chan s c' = Some x'" for c' x' d'
    using ok that by (simp add: arrays_ok_def)
  obtain i where i: "find_entry p (aa (array d x)) (an (array d x)) 0 = Some i"
    using x(2) find_entry_exists [of p "an (array d x)" "aa (array d x)" 0] by (auto simp: entries_def)
  then have i': "i < an (array d x)" "entries (array d x) ! i = Some p"
    using find_entry_found [OF i] by (simp_all add: entries_def)
  let ?x = "mod_array d (del_array i) x"
  let ?s = "s\<lparr>chan := (chan s)(ac y \<mapsto> ?x)\<rparr>"
  note del = array_ok_del [OF aok [OF x(1), of d] i'(1)]
  have only: "Some p \<notin> set (entries (array d' x'))" if "chan s c' = Some x'" "c' \<noteq> ac y \<or> d' \<noteq> d" for c' x' d'
  proof
    assume "Some p \<in> set (entries (array d' x'))"
    then have "p \<in> waits s c' d'" using that(1) by (simp add: waits_def)
    with consistentD [OF con this y(1)] y(2) that(2) show False by simp
  qed
  have "chan_drop {p} x ?x"
    using del i'(2) aok [OF x(1)] only [OF x(1)] by (simp add: chan_drop_def)
  moreover have "chan_drop {p} x' x'" if "chan s c' = Some x'" "c' \<noteq> ac y" for c' x'
    using aok [OF that(1)] only [OF that(1)] that(2) by (simp add: chan_drop_def)
  ultimately have "rel_option (chan_drop {p}) (chan s c) (chan ?s c)" for c
    using x(1) by (cases "c = ac y"; cases "chan s c") simp_all
  then have "dropped {p} s ?s"
    unfolding dropped_def by (intro exI [of _ "(chan s)(ac y \<mapsto> ?x)"]) simp
  moreover have "altdequeue p s = Ret () ?s"
    using y x(1) i i'(1)
    by (simp add: altdequeue_def delarray_def bnd_def load_alt_at load_chan_live mod_chan_def)
  ultimately show ?thesis by (simp add: runs_def)
qed

lemma find_end_Some:
  "find_end xs = Some n \<Longrightarrow> n < length xs \<and> (aop (xs ! n) = CHANEND \<or> aop (xs ! n) = CHANNOBLK) \<and>
     (\<forall>i < n. aop (xs ! i) \<noteq> CHANEND \<and> aop (xs ! i) \<noteq> CHANNOBLK)"
proof (induction xs arbitrary: n)
  case (Cons x xs)
  show ?case
  proof (cases "aop x = CHANEND \<or> aop x = CHANNOBLK")
    case True
    then show ?thesis using Cons.prems by auto
  next
    case False
    then obtain k where "find_end xs = Some k" "n = Suc k" using Cons.prems by auto
    then show ?thesis using Cons.IH [of k] False by (auto simp: nth_Cons split: nat.splits)
  qed
qed simp

text \<open>The entries of an array of \<open>Alt\<close> from the \<open>i\<close>-th on that are no \<open>CHANNOP\<close>.\<close>

definition ops_of :: "nat \<Rightarrow> alt list \<Rightarrow> nat \<Rightarrow> nat \<Rightarrow> aptr set" where
  "ops_of b xs i n = {(b, j) | j. i \<le> j \<and> j < n \<and> aop (xs ! j) \<noteq> CHANNOP}"

lemma ops_of_step:
  "i < n \<Longrightarrow> ops_of b xs i n = (if aop (xs ! i) = CHANNOP then {} else {(b, i)}) \<union> ops_of b xs (Suc i) n"
  by (auto simp: ops_of_def Suc_le_eq le_less)

definition placed :: "'z chans_scheme \<Rightarrow> nat \<Rightarrow> alt list \<Rightarrow> nat \<Rightarrow> bool" where
  "placed s b xs j \<longleftrightarrow>
     (\<exists>d. chanarray (aop (xs ! j)) = Some d \<and> (b, j) \<in> waits s (ac (xs ! j)) d)"

lemma dequeue_from_runs:
  assumes "alts s b = Some xs" and "find_end xs = Some n" and "i \<le> n" and "n - i < m"
    and "arrays_ok s" and "consistent s"
    and "\<And>j. i \<le> j \<Longrightarrow> j < n \<Longrightarrow> aop (xs ! j) \<noteq> CHANNOP \<Longrightarrow> placed s b xs j"
  shows "runs (dequeue_from m b i) s (\<lambda>_. dropped (ops_of b xs i n) s)"
  using assms
proof (induction m arbitrary: i s)
  case (Suc m)
  note fe = find_end_Some [OF Suc.prems(2)]
  have at: "at s (b, i) (xs ! i)" using Suc.prems(1,3) fe by (simp add: at_def)
  show ?case
  proof (cases "i = n")
    case True
    then have "dequeue_from (Suc m) b i s = Ret () s"
      using fe load_alt_at [OF at] by (auto simp: bnd_def ret_def)
    moreover have "ops_of b xs i n = {}" using True by (simp add: ops_of_def)
    ultimately show ?thesis using dropped_none [OF Suc.prems(5)] by (simp add: runs_def)
  next
    case False
    then have i: "i < n" using Suc.prems(3) by simp
    then have op: "\<not> (aop (xs ! i) = CHANEND \<or> aop (xs ! i) = CHANNOBLK)" using fe by simp
    let ?D = "if aop (xs ! i) = CHANNOP then {} else {(b, i)}"
    have first: "runs (whenp (aop (xs ! i) \<noteq> CHANNOP) (altdequeue (b, i))) s (\<lambda>_. dropped ?D s)"
    proof (cases "aop (xs ! i) = CHANNOP")
      case True
      then show ?thesis using dropped_none [OF Suc.prems(5)] by simp
    next
      case nop: False
      then obtain d where "chanarray (aop (xs ! i)) = Some d" "(b, i) \<in> waits s (ac (xs ! i)) d"
        using Suc.prems(7) [of i] i by (auto simp: placed_def)
      from altdequeue_runs [OF Suc.prems(5,6) at this] show ?thesis using nop by simp
    qed
    have rest: "runs (dequeue_from m b (Suc i)) t (\<lambda>_. dropped (ops_of b xs i n) s)" if t: "dropped ?D s t" for t
    proof -
      have "placed t b xs j" if j: "Suc i \<le> j" "j < n" "aop (xs ! j) \<noteq> CHANNOP" for j
        using Suc.prems(7) [of j] j by (auto simp: placed_def dropped_waits [OF t])
      then have "runs (dequeue_from m b (Suc i)) t (\<lambda>_. dropped (ops_of b xs (Suc i) n) t)"
        using i Suc.prems(2,4) dropped_alts [OF t] Suc.prems(1)
        by (intro Suc.IH dropped_arrays [OF t] dropped_consistent [OF t Suc.prems(6)]) auto
      then show ?thesis
        by (rule runs_mono) (simp add: ops_of_step [OF i] dropped_trans [OF t])
    qed
    have "runs (bnd (whenp (aop (xs ! i) \<noteq> CHANNOP) (altdequeue (b, i))) (\<lambda>_. dequeue_from m b (Suc i))) s
        (\<lambda>_. dropped (ops_of b xs i n) s)"
      by (rule runs_bndI, rule runs_mono [OF first rest])
    then show ?thesis
      using op at Suc.prems(1) by (simp add: runs_bnd at_def)
  qed
qed simp

lemma altalldequeue_runs:
  assumes "alts s b = Some xs" and "find_end xs = Some n" and "arrays_ok s" and "consistent s"
    and "\<And>j. j < n \<Longrightarrow> aop (xs ! j) \<noteq> CHANNOP \<Longrightarrow> placed s b xs j"
  shows "runs (altalldequeue (b, 0)) s (\<lambda>_. dropped (ops_of b xs 0 n) s)"
  using dequeue_from_runs [OF assms(1,2), of 0 "length xs"] assms find_end_Some [OF assms(2)]
  by (simp add: altalldequeue_def runs_bnd)

section \<open>The invariant\<close>

text \<open>
  A waiting operation \<open>p\<close> of a task in \<open>B\<close>: it lies in an array of \<open>Alt\<close> whose operations are all
  queued, marked with the task and the array, and its operand may be accessed.
\<close>

definition operand_ok :: "'z chans_scheme \<Rightarrow> tptr \<Rightarrow> obj option \<Rightarrow> uint \<Rightarrow> bool" where
  "operand_ok s t v e \<longleftrightarrow> accepts s v (unat e) \<and> (\<forall>u. v = Some (Local u) \<longrightarrow> u = t)"

definition entry_ok :: "'z chans_scheme \<Rightarrow> tptr set \<Rightarrow> aptr \<Rightarrow> bool" where
  "entry_ok s B p \<longleftrightarrow>
     (\<exists>xs n t. alts s (fst p) = Some xs \<and> find_end xs = Some n \<and> snd p < n \<and>
        atask (xs ! snd p) = Some t \<and> t \<in> B \<and> axalt (xs ! snd p) = Some (fst p, 0) \<and>
        (\<forall>x. chan s (ac (xs ! snd p)) = Some x \<longrightarrow> operand_ok s t (av (xs ! snd p)) (elemsize x)) \<and>
        (\<forall>j < n. aop (xs ! j) \<noteq> CHANNOP \<longrightarrow> placed s (fst p) xs j))"

definition owner :: "'z chans_scheme \<Rightarrow> aptr \<Rightarrow> tptr option" where
  "owner s p = (case alts s (fst p) of None \<Rightarrow> None | Some xs \<Rightarrow> atask (xs ! snd p))"

primrec opposite :: "side \<Rightarrow> side" where
  "opposite Snd = Rcv"
| "opposite Rcv = Snd"

text \<open>The operation could not be carried out now, except by the task that waits itself.\<close>

definition stuck :: "'z chans_scheme \<Rightarrow> cptr \<Rightarrow> side \<Rightarrow> aptr \<Rightarrow> bool" where
  "stuck s c d p \<longleftrightarrow>
     (\<forall>x. chan s c = Some x \<longrightarrow>
        (if bufsize x = 0 then \<forall>q \<in> waits s c (opposite d). owner s q = owner s p
         else nbuf x = (if d = Snd then bufsize x else 0)))"

definition chan_inv :: "'z chans_scheme \<Rightarrow> tptr set \<Rightarrow> bool" where
  "chan_inv s B \<longleftrightarrow>
     (\<forall>c x. chan s c = Some x \<longrightarrow> chan_ok x) \<and> arrays_ok s \<and> consistent s \<and>
     (\<forall>c d p. p \<in> waits s c d \<longrightarrow> entry_ok s B p \<and> stuck s c d p) \<and>
     (\<forall>c d p c' d' q. p \<in> waits s c d \<longrightarrow> q \<in> waits s c' d' \<longrightarrow> owner s p = owner s q \<longrightarrow> fst p = fst q)"

lemma chan_invD:
  assumes "chan_inv s B"
  shows "\<And>c x. chan s c = Some x \<Longrightarrow> chan_ok x" and "arrays_ok s" and "consistent s"
    and "\<And>c d p. p \<in> waits s c d \<Longrightarrow> entry_ok s B p" and "\<And>c d p. p \<in> waits s c d \<Longrightarrow> stuck s c d p"
    and "\<And>c d p c' d' q. p \<in> waits s c d \<Longrightarrow> q \<in> waits s c' d' \<Longrightarrow> owner s p = owner s q \<Longrightarrow> fst p = fst q"
  using assms unfolding chan_inv_def by blast+

lemma entry_at: "alts s (fst p) = Some xs \<Longrightarrow> find_end xs = Some n \<Longrightarrow> snd p < n \<Longrightarrow> at s p (xs ! snd p)"
  using find_end_Some [of xs n] by (auto simp: at_def)

text \<open>
  Steps that keep the invariant: the arrays \<open>X\<close> of \<open>Alt\<close> leave the queues, data moves, and what a
  channel counts changes only where nobody waits.
\<close>

definition chan_moved :: "'z chans_scheme \<Rightarrow> cptr \<Rightarrow> chan \<Rightarrow> chan \<Rightarrow> bool" where
  "chan_moved s c x x' \<longleftrightarrow> chan_ok x' \<and> (\<forall>d. array_ok (array d x')) \<and> bufsize x' = bufsize x \<and>
     elemsize x' = elemsize x \<and> (nbuf x' = nbuf x \<or> (\<forall>d. waits s c d = {}))"

lemma chan_inv_sub:
  assumes inv: "chan_inv s B"
    and ch: "\<And>c. rel_option (chan_moved s c) (chan s c) (chan s' c)"
    and w: "\<And>c d. waits s' c d = {p \<in> waits s c d. fst p \<notin> X}"
    and a: "\<And>b. b \<notin> X \<Longrightarrow> alts s' b = alts s b"
    and m: "\<And>v n. (\<And>u. v = Local u \<Longrightarrow> u \<in> B) \<Longrightarrow> accepts s (Some v) n \<Longrightarrow> accepts s' (Some v) n"
    and B': "\<And>c d p t. p \<in> waits s c d \<Longrightarrow> fst p \<notin> X \<Longrightarrow> owner s p = Some t \<Longrightarrow> t \<in> B \<Longrightarrow> t \<in> B'"
  shows "chan_inv s' B'"
proof -
  note D = chan_invD [OF inv]
  have before: "\<exists>x. chan s c = Some x \<and> chan_moved s c x x'" if "chan s' c = Some x'" for c x'
    using ch [of c] that by (cases "chan s c") simp_all
  have own: "owner s' p = owner s p" if "fst p \<notin> X" for p
    using a [OF that] by (simp add: owner_def)
  have entry: "entry_ok s' B' p" if p: "p \<in> waits s' c d" for p c d
  proof -
    have p': "p \<in> waits s c d" "fst p \<notin> X" using p w by auto
    obtain xs n t where e: "alts s (fst p) = Some xs" "find_end xs = Some n" "snd p < n"
        "atask (xs ! snd p) = Some t" "t \<in> B" "axalt (xs ! snd p) = Some (fst p, 0)"
      and o: "\<And>x. chan s (ac (xs ! snd p)) = Some x \<Longrightarrow> operand_ok s t (av (xs ! snd p)) (elemsize x)"
      and pl: "\<And>j. j < n \<Longrightarrow> aop (xs ! j) \<noteq> CHANNOP \<Longrightarrow> placed s (fst p) xs j"
      using D(4) [OF p'(1)] unfolding entry_ok_def by blast
    have "t \<in> B'" using B' [OF p'] e by (simp add: owner_def)
    moreover have "operand_ok s' t (av (xs ! snd p)) (elemsize x')"
      if x': "chan s' (ac (xs ! snd p)) = Some x'" for x'
    proof -
      obtain x where x: "chan s (ac (xs ! snd p)) = Some x" "elemsize x' = elemsize x"
        using before [OF x'] by (auto simp: chan_moved_def)
      from o [OF x(1)] e(5) show ?thesis
        by (cases "av (xs ! snd p)") (auto simp: operand_ok_def x(2) accepts_def [of _ None] intro: m)
    qed
    moreover have "placed s' (fst p) xs j" if "j < n" "aop (xs ! j) \<noteq> CHANNOP" for j
      using pl [OF that] p'(2) by (auto simp: placed_def w)
    ultimately show ?thesis
      unfolding entry_ok_def using e a [OF p'(2)] by (intro exI [of _ xs] exI [of _ n] exI [of _ t]) simp
  qed
  moreover have "stuck s' c d p" if p: "p \<in> waits s' c d" for p c d
    unfolding stuck_def
  proof (intro allI impI)
    fix x'
    assume "chan s' c = Some x'"
    then obtain x where x: "chan s c = Some x" "chan_moved s c x x'" using before by blast
    have p': "p \<in> waits s c d" "fst p \<notin> X" using p w by auto
    then have "nbuf x' = nbuf x" "bufsize x' = bufsize x" using x(2) by (auto simp: chan_moved_def)
    then show "if bufsize x' = 0 then \<forall>q \<in> waits s' c (opposite d). owner s' q = owner s' p
         else nbuf x' = (if d = Snd then bufsize x' else 0)"
      using D(5) [OF p'(1)] x(1) by (auto simp: stuck_def w own p'(2))
  qed
  moreover have "consistent s'"
    unfolding consistent_def
  proof (intro allI impI)
    fix c d p
    assume "p \<in> waits s' c d"
    then have p': "p \<in> waits s c d" "fst p \<notin> X" using w by auto
    with D(3) obtain y where "at s p y" "ac y = c" "chanarray (aop y) = Some d"
      unfolding consistent_def by blast
    then show "\<exists>y. at s' p y \<and> ac y = c \<and> chanarray (aop y) = Some d"
      using a [OF p'(2)] by (auto simp: at_def)
  qed
  moreover have "chan_ok x'" if "chan s' c = Some x'" for c x'
    using before [OF that] by (auto simp: chan_moved_def)
  moreover have "arrays_ok s'"
    unfolding arrays_ok_def using before by (fastforce simp: chan_moved_def)
  moreover have "fst p = fst q"
    if pq: "p \<in> waits s' c d" "q \<in> waits s' c' d'" "owner s' p = owner s' q" for p q c d c' d'
  proof -
    have "p \<in> waits s c d" "q \<in> waits s c' d'" "fst p \<notin> X" "fst q \<notin> X" using pq w by auto
    then show ?thesis using D(6) pq(3) own by metis
  qed
  ultimately show ?thesis unfolding chan_inv_def by blast
qed

section \<open>Carrying out an operation keeps the invariant\<close>

definition same_room :: "'z chans_scheme \<Rightarrow> (obj \<Rightarrow> uchar list option) \<Rightarrow> bool" where
  "same_room s m \<longleftrightarrow> (\<forall>v. map_option length (m v) = map_option length (umem s v))"

lemma same_room_refl [simp]: "same_room s (umem s)"
  by (simp add: same_room_def)

lemma accepts_Some: "accepts s (Some v) n \<longleftrightarrow> (\<exists>k. map_option length (umem s v) = Some k \<and> n \<le> k)"
  by (auto simp: accepts_def)

lemma same_room_accepts:
  assumes "same_room s (umem s')"
  shows "accepts s' v n = accepts s v n"
proof (cases v)
  case (Some p)
  then show ?thesis
    using assms [unfolded same_room_def, THEN spec, of p] by (simp only: accepts_Some)
qed (simp add: accepts_def)

lemma deliver_room:
  assumes "accepts s v (length bs)"
  shows "same_room s (deliver v bs (umem s))"
  using assms
proof (cases rule: acceptsE)
  case 1
  then show ?thesis by (simp add: deliver_def same_room_def)
next
  case (2 p xs)
  then show ?thesis by (simp add: deliver_def same_room_def length_overwrite)
qed

lemma accepts_supplies: "accepts s v n \<Longrightarrow> \<exists>b. supplies s v n b"
  by (cases v) (auto simp: accepts_def supplies_def)

text \<open>The copy, seen only as far as the invariant needs it.\<close>

definition room_for :: "chan \<Rightarrow> alt option \<Rightarrow> alt option \<Rightarrow> bool" where
  "room_for x sx rx \<longleftrightarrow> (sx \<noteq> None \<longrightarrow> rx = None \<longrightarrow> nbuf x < bufsize x) \<and>
     (sx = None \<longrightarrow> rx \<noteq> None \<longrightarrow> nbuf x \<noteq> 0)"

lemma operands_exist:
  assumes ok: "chan_ok x" and room: "room_for x sx rx"
    and s: "\<And>a. sx = Some a \<Longrightarrow> accepts s (av a) (unat (elemsize x))"
    and r: "\<And>a. rx = Some a \<Longrightarrow> accepts s (av a) (unat (elemsize x))"
  shows "\<exists>bs. operands s x sx rx bs"
proof (cases sx)
  case None
  then show ?thesis using room r by (auto simp: operands_def room_for_def split: option.split)
next
  case (Some a)
  let ?t = "case rx of Some r \<Rightarrow> if nbuf x = 0 then s else s\<lparr>umem := deliver (av r) (hd (contents x)) (umem s)\<rparr>
            | None \<Rightarrow> s"
  have "same_room s (umem ?t)"
  proof (cases "rx = None \<or> nbuf x = 0")
    case False
    then obtain z where z: "rx = Some z" "nbuf x \<noteq> 0" by auto
    have "off x < bufsize x" using z(2) ok by (auto simp: chan_ok_def split: if_splits)
    then have "length (hd (contents x)) = unat (elemsize x)"
      using ring_take_ok(2) [OF ok z(2)] elem_length [OF ok] by (simp add: word_less_nat_alt)
    with z r [OF z(1)] show ?thesis by (simp add: deliver_room)
  qed (auto split: option.split)
  then have "accepts ?t (av a) (unat (elemsize x))"
    using s [OF Some] same_room_accepts by blast
  then obtain b where "supplies ?t (av a) (unat (elemsize x)) b" using accepts_supplies by blast
  then have "operands s x sx rx (Some b)"
    using Some room r by (simp add: operands_def room_for_def split: option.split)
  then show ?thesis ..
qed

lemma contents_elems:
  assumes ok: "chan_ok x" and v: "v \<in> set (contents x)"
  shows "length v = unat (elemsize x)"
proof -
  obtain k where "v = elem x (slot_of x k)" "k < unat (nbuf x)" using v by (auto simp: contents_def)
  moreover from this have "bufsize x \<noteq> 0" using ok by (auto simp: chan_ok_def)
  ultimately show ?thesis using elem_length [OF ok slot_lt [OF ok]] by simp
qed

definition copied :: "cptr \<Rightarrow> chan \<Rightarrow> 'z chans_scheme \<Rightarrow> 'z chans_scheme \<Rightarrow> bool \<Rightarrow> bool" where
  "copied c x s s' both \<longleftrightarrow>
     (\<exists>x' m. s' = s\<lparr>chan := (chan s)(c \<mapsto> x'), umem := m\<rparr> \<and> same_room s m \<and> chan_ok x' \<and>
        bufsize x' = bufsize x \<and> elemsize x' = elemsize x \<and> asend x' = asend x \<and> arecv x' = arecv x \<and>
        (both \<longrightarrow> nbuf x' = nbuf x))"

lemma moved_copied:
  assumes ok: "chan_ok x" and o: "operands s x sx rx bs" and m: "moved_data c x bs (map_option av rx) s s'"
  shows "copied c x s s' (sx \<noteq> None \<and> rx \<noteq> None)"
proof -
  have bs: "bs = None \<longleftrightarrow> sx = None" "\<And>b. bs = Some b \<Longrightarrow> length b = unat (elemsize x)"
    using o by (auto simp: operands_def dest: supplies_length split: option.splits)
  let ?q = "contents x @ (case bs of None \<Rightarrow> [] | Some b \<Rightarrow> [b])"
  have q: "length v = unat (elemsize x)" if "v \<in> set ?q" for v
    using that contents_elems [OF ok] bs(2) by (auto split: option.splits)
  obtain x' m where s': "s' = s\<lparr>chan := (chan s)(c \<mapsto> x'), umem := m\<rparr>"
    and m: "m = (case map_option av rx of None \<Rightarrow> umem s | Some v \<Rightarrow> deliver v (hd ?q) (umem s))"
    and x': "chan_ok x'" "contents x' = (if map_option av rx = None then ?q else tl ?q)"
      "bufsize x' = bufsize x" "elemsize x' = elemsize x" "asend x' = asend x" "arecv x' = arecv x"
    using m unfolding moved_data_def Let_def by blast
  have "same_room s m"
  proof (cases rx)
    case None
    then show ?thesis by (simp add: m)
  next
    case (Some a)
    have "?q \<noteq> []"
    proof (cases bs)
      case None
      then have "nbuf x \<noteq> 0" using o bs(1) Some by (simp add: operands_def)
      then have "contents x \<noteq> []" using ring_take_ok(2) [OF ok] by simp
      then show ?thesis by simp
    qed simp
    then have "length (hd ?q) = unat (elemsize x)" by (intro q hd_in_set)
    moreover have "accepts s (av a) (unat (elemsize x))" using o Some by (simp add: operands_def)
    ultimately show ?thesis using Some by (simp add: m deliver_room)
  qed
  moreover have "nbuf x' = nbuf x" if two: "sx \<noteq> None" "rx \<noteq> None"
  proof -
    obtain b where "bs = Some b" using two(1) bs(1) by blast
    then have "unat (nbuf x') = unat (nbuf x)"
      using arg_cong [OF x'(2), of length] two(2) by simp
    then show ?thesis by (rule unsigned_word_eqI)
  qed
  ultimately show ?thesis
    unfolding copied_def using s' x' by (intro exI [of _ x'] exI [of _ m]) simp
qed

lemma transfer_keeps:
  assumes c: "chan s c = Some x" and ok: "chan_ok x" and room: "room_for x sx rx"
    and s: "\<And>a. sx = Some a \<Longrightarrow> accepts s (av a) (unat (elemsize x))"
    and r: "\<And>a. rx = Some a \<Longrightarrow> accepts s (av a) (unat (elemsize x))"
  shows "runs (transfer c sx rx) s (\<lambda>_ s'. copied c x s s' (sx \<noteq> None \<and> rx \<noteq> None))"
proof -
  obtain bs where o: "operands s x sx rx bs" using operands_exist [OF ok room s r] by blast
  show ?thesis by (rule runs_mono [OF transfer_runs [OF c ok o]]) (rule moved_copied [OF ok o])
qed

text \<open>The three ways in which \<open>altexec\<close> calls \<open>altcopy\<close>.\<close>

lemma op_of_side: "chanarray w = Some d \<longleftrightarrow> w = (if d = Snd then CHANSND else CHANRCV)"
  by (cases d) (auto simp: chanarray_def)

lemma altcopy_one:
  assumes "at s a y"
  shows "aop y = CHANSND \<Longrightarrow> altcopy (Some a) None s = transfer (ac y) (Some y) None s"
    and "aop y = CHANRCV \<Longrightarrow> altcopy (Some a) None s = transfer (ac y) None (Some y) s"
  using load_alt_at [OF assms]
  by (simp_all add: altcopy_def bnd_def load_opt_def ret_def)

lemma altcopy_two:
  assumes "at s a y" and "at s b z"
  shows "aop y = CHANSND \<Longrightarrow> aop z = CHANRCV \<Longrightarrow>
      altcopy (Some a) (Some b) s = transfer (ac y) (Some y) (Some z) s"
    and "aop y = CHANRCV \<Longrightarrow> aop z = CHANSND \<Longrightarrow>
      altcopy (Some a) (Some b) s = transfer (ac y) (Some z) (Some y) s"
  using load_alt_at [OF assms(1)] load_alt_at [OF assms(2)]
  by (simp_all add: altcopy_def bnd_def load_opt_def ret_def)

section \<open>Exchanging data with a waiting task\<close>

text \<open>What \<open>altexec\<close> does with its partner after the copy.\<close>

definition finish :: "aptr \<Rightarrow> ('z chans_scheme, unit) prog" where
  "finish other =
     bnd (load_alt other) (\<lambda>y.
     bnd (deref (axalt y)) (\<lambda>base.
     bnd (altalldequeue base) (\<lambda>_.
     bnd (mod_alt base (\<lambda>z. z\<lparr>axalt := Some other\<rparr>)) (\<lambda>_.
     bnd (deref (atask y)) (\<lambda>t.
     taskready t)))))"

definition partners :: "alt \<Rightarrow> chan \<Rightarrow> altarray option" where
  "partners y c = map_option (\<lambda>d. array d c) (chanarray (otherop (aop y)))"

text \<open>The waiting operation that \<open>altexec\<close> picks.\<close>

definition partner_of :: "'z chans_scheme \<Rightarrow> alt \<Rightarrow> chan \<Rightarrow> aptr option" where
  "partner_of s y x =
     (case partners y x of
        None \<Rightarrow> None
      | Some r \<Rightarrow> if an r = 0 then None else aa r ! (rnd s (rnds s) mod an r))"

lemma altexec_alone:
  assumes "at s a y" and "chan s (ac y) = Some x"
    and "\<And>d. chanarray (otherop (aop y)) = Some d \<Longrightarrow> an (array d x) = 0"
  shows "altexec a s = altcopy (Some a) None s"
  using assms by (simp add: altexec_def bnd_def load_alt_at load_chan_live split: option.split)

lemma altexec_partner:
  assumes "at s a y" and "chan s (ac y) = Some x" and "chanarray (otherop (aop y)) = Some d"
    and "an (array d x) \<noteq> 0" and "array_ok (array d x)"
  obtains p where "p \<in> waits s (ac y) d" and "partner_of s y x = Some p"
    and "altexec a s = bnd (altcopy (Some a) (Some p)) (\<lambda>_. finish p) (s\<lparr>rnds := Suc (rnds s)\<rparr>)"
proof -
  let ?i = "rnd s (rnds s) mod an (array d x)"
  have i: "?i < an (array d x)" using assms(4) by simp
  then have "aa (array d x) ! ?i = entries (array d x) ! ?i" by (simp add: entries_def)
  moreover have e: "entries (array d x) ! ?i \<in> set (entries (array d x))"
    using i assms(5) by (intro nth_mem) (simp add: entries_length)
  moreover from e have "entries (array d x) ! ?i \<noteq> None"
    using assms(5) unfolding array_ok_def by metis
  then obtain p where p: "entries (array d x) ! ?i = Some p" unfolding not_None_eq by blast
  ultimately have "altexec a s = bnd (altcopy (Some a) (Some p)) (\<lambda>_. finish p) (s\<lparr>rnds := Suc (rnds s)\<rparr>)"
    using assms
    by (simp add: altexec_def finish_def bnd_def [of "load_alt _"] bnd_def [of "load_chan _"] load_alt_at
        load_chan_live bnd_def [of rand] rand_def bnd_def [of "deref _"] deref_def ret_def)
  moreover have "p \<in> waits s (ac y) d" using e p assms(2) by (simp add: waits_def)
  moreover have "partner_of s y x = Some p"
    using assms(3,4) i p by (simp add: partner_of_def partners_def entries_def)
  ultimately show ?thesis using that by blast
qed

text \<open>A copy leaves the queues of the channels alone.\<close>

lemma copied_chan:
  assumes "copied c x s s1 b" and "chan s c = Some x"
  obtains x' m where "s1 = s\<lparr>chan := (chan s)(c \<mapsto> x'), umem := m\<rparr>" "same_room s m" "chan_ok x'"
    "bufsize x' = bufsize x" "elemsize x' = elemsize x" "\<And>d. array d x' = array d x"
    "b \<Longrightarrow> nbuf x' = nbuf x"
proof -
  from assms(1) obtain x' m where *: "s1 = s\<lparr>chan := (chan s)(c \<mapsto> x'), umem := m\<rparr>" "same_room s m" "chan_ok x'"
    "bufsize x' = bufsize x" "elemsize x' = elemsize x" "asend x' = asend x" "arecv x' = arecv x"
    "b \<longrightarrow> nbuf x' = nbuf x"
    unfolding copied_def by blast
  then have "array d x' = array d x" for d by (cases d) (simp_all add: array_def)
  with * show ?thesis using that by blast
qed

lemma copied_queues:
  assumes "copied c x s s1 b" and "chan s c = Some x"
  shows "waits s1 c' d = waits s c' d" and "arrays_ok s \<Longrightarrow> arrays_ok s1" and "alts s1 = alts s"
proof -
  from copied_chan [OF assms] obtain x' m where s1: "s1 = s\<lparr>chan := (chan s)(c \<mapsto> x'), umem := m\<rparr>"
    and a: "\<And>d. array d x' = array d x" by blast
  show "waits s1 c' d = waits s c' d" using assms(2) by (simp add: s1 a waits_def)
  show "arrays_ok s \<Longrightarrow> arrays_ok s1" using assms(2) by (simp add: s1 a arrays_ok_def)
  show "alts s1 = alts s" by (simp add: s1)
qed

lemma copied_core:
  "copied c x s s1 b \<Longrightarrow> tasks s1 = tasks s \<and> lists s1 = lists s \<and> calm s s1"
  unfolding copied_def by (elim exE conjE) (simp add: calm_def)

lemma consistent_cong:
  "consistent s \<Longrightarrow> (\<And>c d. waits s' c d = waits s c d) \<Longrightarrow> alts s' = alts s \<Longrightarrow> consistent s'"
  by (simp add: consistent_def at_def)

lemma chans_more:
  assumes "sched.more s' = sched.more s"
  shows "chan s' = chan s" "alts s' = alts s" "umem s' = umem s" "cbrk s' = cbrk s" "abrk s' = abrk s"
    "ubrk s' = ubrk s" "rnds s' = rnds s" "junk s' = junk s"
  using assms by (cases s, cases s', simp)+

definition finished :: "aptr \<Rightarrow> alt list \<Rightarrow> nat \<Rightarrow> 'z chans_scheme \<Rightarrow> 'z chans_scheme \<Rightarrow> bool" where
  "finished p xs n s s' \<longleftrightarrow>
     (\<exists>f. (\<forall>c. rel_option (chan_drop (ops_of (fst p) xs 0 n)) (chan s c) (f c)) \<and>
        sched.more s' = sched.more (s\<lparr>chan := f,
          alts := (alts s)(fst p \<mapsto> xs[0 := (xs ! 0)\<lparr>axalt := Some p\<rparr>])\<rparr>))"

lemma finish_runs:
  assumes xs: "alts s (fst p) = Some xs" "find_end xs = Some n" "snd p < n"
    and t: "atask (xs ! snd p) = Some t" and base: "axalt (xs ! snd p) = Some (fst p, 0)"
    and ok: "arrays_ok s" "consistent s"
    and placed: "\<And>j. j < n \<Longrightarrow> aop (xs ! j) \<noteq> CHANNOP \<Longrightarrow> placed s (fst p) xs j"
    and q: "queues_ok s L" "t \<in> dom (tasks s)" "\<not> queued L t"
  shows "runs (finish p) s (\<lambda>_ s'. finished p xs n s s' \<and> calm s s' \<and>
    queues_ok s' (L(RunQueue := L RunQueue @ [t])))"
proof -
  have at: "at s p (xs ! snd p)" by (rule entry_at [OF xs])
  have n: "0 < length xs" using find_end_Some [OF xs(2)] by linarith
  have "runs (bnd (mod_alt (fst p, 0) (\<lambda>z. z\<lparr>axalt := Some p\<rparr>)) (\<lambda>_. taskready t)) s2
      (\<lambda>_ s'. finished p xs n s s' \<and> calm s s' \<and> queues_ok s' (L(RunQueue := L RunQueue @ [t])))"
    if d: "dropped (ops_of (fst p) xs 0 n) s s2" for s2
  proof -
    obtain f where s2: "s2 = s\<lparr>chan := f\<rparr>" and f: "\<And>c. rel_option (chan_drop (ops_of (fst p) xs 0 n)) (chan s c) (f c)"
      using d unfolding dropped_def by blast
    let ?s = "s\<lparr>chan := f, alts := (alts s)(fst p \<mapsto> xs[0 := (xs ! 0)\<lparr>axalt := Some p\<rparr>])\<rparr>"
    have "queues_ok ?s L" using q(1) by (simp add: queues_ok_def)
    moreover have "t \<in> dom (tasks ?s)" using q(2) by simp
    ultimately have "runs (taskready t) ?s
        (\<lambda>_ s'. queues_ok s' (L(RunQueue := L RunQueue @ [t])) \<and> relinked (mark_ready t ?s) s')"
      using taskready_spec q(3) by blast
    then have "runs (taskready t) ?s (\<lambda>_ s'. finished p xs n s s' \<and> calm s s' \<and>
        queues_ok s' (L(RunQueue := L RunQueue @ [t])))"
    proof (rule runs_mono, elim conjE, intro conjI)
      fix s'
      assume r: "relinked (mark_ready t ?s) s'"
      show "finished p xs n s s'"
        unfolding finished_def using f ready_more [OF r] by blast
      have "calm s ?s" by (simp add: calm_def)
      then show "calm s s'" using ready_calm [OF r] by (rule calm_trans)
    qed
    then show ?thesis using xs(1) n by (simp add: s2 runs_bnd)
  qed
  note rest = this
  have all: "runs (altalldequeue (fst p, 0)) s (\<lambda>_. dropped (ops_of (fst p) xs 0 n) s)"
    by (rule altalldequeue_runs [OF xs(1,2) ok placed])
  let ?rest = "bnd (altalldequeue (fst p, 0)) (\<lambda>_.
    bnd (mod_alt (fst p, 0) (\<lambda>z. z\<lparr>axalt := Some p\<rparr>)) (\<lambda>_. taskready t))"
  have "runs ?rest s
      (\<lambda>_ s'. finished p xs n s s' \<and> calm s s' \<and> queues_ok s' (L(RunQueue := L RunQueue @ [t])))"
    by (rule runs_bndI, rule runs_mono [OF all], rule rest)
  moreover have "finish p s = ?rest s"
    using load_alt_at [OF at] t base by (simp add: finish_def deref_def)
  ultimately show ?thesis by (simp only: runs_def)
qed

lemma otherop_side: "chanarray w = Some d \<Longrightarrow> chanarray (otherop w) = Some (opposite d)"
  by (cases d) (auto simp: op_of_side otherop_def)

abbreviation drawn :: "'z chans_scheme \<Rightarrow> 'z chans_scheme" where
  "drawn s \<equiv> s\<lparr>rnds := Suc (rnds s)\<rparr>"

text \<open>Everything that is known after an exchange with the waiting operation \<open>p\<close> of task \<open>t\<close>.\<close>

definition exchanged :: "'z chans_scheme \<Rightarrow> tptr set \<Rightarrow> queues \<Rightarrow> (aptr \<Rightarrow> 'z chans_scheme \<Rightarrow> bool) \<Rightarrow>
    aptr \<Rightarrow> tptr \<Rightarrow> 'z chans_scheme \<Rightarrow> bool" where
  "exchanged s B L R p t s' \<longleftrightarrow>
     (\<exists>xs n s1. alts s (fst p) = Some xs \<and> find_end xs = Some n \<and> snd p < n \<and>
        atask (xs ! snd p) = Some t \<and> t \<in> B \<and> R p s1 \<and> finished p xs n s1 s') \<and>
     calm s s' \<and> queues_ok s' (L(RunQueue := L RunQueue @ [t]))"

lemma queued_snoc_iff: "queued (L(q := L q @ [t])) p \<longleftrightarrow> queued L p \<or> p = t"
proof
  show "queued (L(q := L q @ [t])) p \<Longrightarrow> queued L p \<or> p = t" by (rule queued_snoc)
  assume "queued L p \<or> p = t"
  then show "queued (L(q := L q @ [t])) p"
    unfolding queued_upd unfolding queued_def by (metis UnCI list.set_intros(1) set_append)
qed

lemma exchangedD:
  assumes "exchanged s B L R p t s'"
  shows "queues_ok s' (L(RunQueue := L RunQueue @ [t]))" and "calm s s'"
  using assms unfolding exchanged_def by blast+

lemma altexec_picked:
  assumes inv: "chan_inv s B" and a: "at s a y" and c: "chan s (ac y) = Some x"
    and d: "chanarray (aop y) = Some d" and n: "an (array (opposite d) x) \<noteq> 0"
    and q: "queues_ok s L" and live: "\<And>t. t \<in> B \<Longrightarrow> t \<in> dom (tasks s) \<and> \<not> queued L t"
    and copy: "\<And>p. p \<in> waits s (ac y) (opposite d) \<Longrightarrow> partner_of s y x = Some p \<Longrightarrow> runs (altcopy (Some a) (Some p)) (drawn s) (\<lambda>_. R p)"
    and R: "\<And>p s1. R p s1 \<Longrightarrow> copied (ac y) x (drawn s) s1 True"
  shows "runs (altexec a) s (\<lambda>_ s'. \<exists>p t. p \<in> waits s (ac y) (opposite d) \<and> partner_of s y x = Some p \<and> exchanged s B L R p t s')"
proof -
  note D = chan_invD [OF inv]
  have "array_ok (array (opposite d) x)" using D(2) c by (simp add: arrays_ok_def)
  from altexec_partner [OF a c otherop_side [OF d] n this] obtain p where p: "p \<in> waits s (ac y) (opposite d)"
    and pp: "partner_of s y x = Some p" and eq: "altexec a s = bnd (altcopy (Some a) (Some p)) (\<lambda>_. finish p) (drawn s)" by blast
  obtain xs n t where e: "alts s (fst p) = Some xs" "find_end xs = Some n" "snd p < n"
      "atask (xs ! snd p) = Some t" "t \<in> B" "axalt (xs ! snd p) = Some (fst p, 0)"
    and pl: "\<And>j. j < n \<Longrightarrow> aop (xs ! j) \<noteq> CHANNOP \<Longrightarrow> placed s (fst p) xs j"
    using D(4) [OF p] unfolding entry_ok_def by blast
  have c': "chan (drawn s) (ac y) = Some x" using c by simp
  have "runs (finish p) s1 (\<lambda>_. exchanged s B L R p t)" if r: "R p s1" for s1
  proof -
    note cp = R [OF r]
    note cq = copied_queues [OF cp c']
    have w: "waits s1 c d = waits s c d" for c d by (simp add: cq(1)) (simp add: waits_def)
    have al: "alts s1 = alts s" using cq(3) by simp
    have core: "tasks s1 = tasks s" "lists s1 = lists s" "calm s s1"
      using copied_core [OF cp] by (simp_all add: calm_def)
    have "runs (finish p) s1 (\<lambda>_ s'. finished p xs n s1 s' \<and> calm s1 s' \<and>
        queues_ok s' (L(RunQueue := L RunQueue @ [t])))"
    proof (rule finish_runs)
      show "arrays_ok s1" using cq(2) D(2) by (simp add: arrays_ok_def)
      show "consistent s1" by (rule consistent_cong [OF D(3)]) (simp_all add: w al)
      show "placed s1 (fst p) xs j" if "j < n" "aop (xs ! j) \<noteq> CHANNOP" for j
        using pl [OF that] by (simp add: placed_def w)
      show "queues_ok s1 L" using q core by (simp add: queues_ok_def)
    qed (use e al live [OF e(5)] core in simp_all)
    then show ?thesis
      by (rule runs_mono) (use e r calm_trans [OF core(3)] in \<open>auto simp: exchanged_def\<close>)
  qed
  then have "runs (bnd (altcopy (Some a) (Some p)) (\<lambda>_. finish p)) (drawn s) (\<lambda>_. exchanged s B L R p t)"
    by (intro runs_bndI runs_mono [OF copy [OF p pp]])
  then have "runs (altexec a) s (\<lambda>_. exchanged s B L R p t)" by (simp only: runs_def eq)
  then show ?thesis by (rule runs_mono) (use p pp in blast)
qed

lemma altexec_paired:
  assumes inv: "chan_inv s B" and a: "at s a y" and c: "chan s (ac y) = Some x"
    and d: "chanarray (aop y) = Some d" and n: "an (array (opposite d) x) \<noteq> 0"
    and q: "queues_ok s L" and live: "\<And>t. t \<in> B \<Longrightarrow> t \<in> dom (tasks s) \<and> \<not> queued L t"
    and copy: "\<And>p. p \<in> waits s (ac y) (opposite d) \<Longrightarrow> runs (altcopy (Some a) (Some p)) (drawn s) (\<lambda>_. R p)"
    and R: "\<And>p s1. R p s1 \<Longrightarrow> copied (ac y) x (drawn s) s1 True"
  shows "runs (altexec a) s (\<lambda>_ s'. \<exists>p t. p \<in> waits s (ac y) (opposite d) \<and> exchanged s B L R p t s')"
  by (rule runs_mono [OF altexec_picked [OF inv a c d n q live copy R]]) auto

section \<open>What other tasks may rely on\<close>

text \<open>Live channels stay live, memory stays where it is, and so do the arrays a task waits on.\<close>

definition env_grows :: "'z chans_scheme \<Rightarrow> 'z chans_scheme \<Rightarrow> bool" where
  "env_grows s s' \<longleftrightarrow>
     (\<forall>c x. chan s c = Some x \<longrightarrow> (\<exists>x'. chan s' c = Some x' \<and> elemsize x' = elemsize x)) \<and>
     (\<forall>v n. accepts s (Some (Object v)) n \<longrightarrow> accepts s' (Some (Object v)) n)"

definition own_kept :: "tptr \<Rightarrow> 'z chans_scheme \<Rightarrow> 'z chans_scheme \<Rightarrow> bool" where
  "own_kept u s s' \<longleftrightarrow>
     (\<forall>n. accepts s (Some (Local u)) n \<longrightarrow> accepts s' (Some (Local u)) n) \<and>
     (\<forall>b x xs. alts s b = Some (x # xs) \<longrightarrow> atask x = Some u \<longrightarrow>
        (\<exists>z. alts s' b = Some (x\<lparr>axalt := z\<rparr> # xs) \<and>
           ((\<exists>k. axalt x = Some (b, k)) \<longrightarrow> (\<exists>k. z = Some (b, k)))))"

definition chan_keep :: "tptr \<Rightarrow> 'z chans_scheme \<Rightarrow> 'z chans_scheme \<Rightarrow> bool" where
  "chan_keep u s s' \<longleftrightarrow> env_grows s s' \<and> own_kept u s s'"

lemma env_grows_refl [simp]: "env_grows s s"
  by (simp add: env_grows_def)

lemma own_kept_same:
  assumes "alts s' = alts s" and "\<And>n. accepts s (Some (Local u)) n \<Longrightarrow> accepts s' (Some (Local u)) n"
  shows "own_kept u s s'"
  unfolding own_kept_def assms(1)
proof (intro conjI allI impI)
  fix b x xs
  assume "alts s b = Some (x # xs)"
  then show "\<exists>z. alts s b = Some (x\<lparr>axalt := z\<rparr> # xs) \<and>
      ((\<exists>k. axalt x = Some (b, k)) \<longrightarrow> (\<exists>k. z = Some (b, k)))"
    by (intro exI [of _ "axalt x"]) simp
qed (rule assms(2))

lemma own_kept_refl [simp]: "own_kept u s s"
  by (rule own_kept_same) simp_all

lemma env_grows_trans: "env_grows s s' \<Longrightarrow> env_grows s' s'' \<Longrightarrow> env_grows s s''"
  unfolding env_grows_def by fastforce

lemma own_kept_trans:
  assumes 1: "own_kept u s s'" and 2: "own_kept u s' s''"
  shows "own_kept u s s''"
  unfolding own_kept_def
proof (intro conjI allI impI)
  show "accepts s'' (Some (Local u)) n" if "accepts s (Some (Local u)) n" for n
    using 1 2 that by (simp add: own_kept_def)
  fix b x xs
  assume x: "alts s b = Some (x # xs)" "atask x = Some u"
  obtain y where y: "alts s' b = Some (x\<lparr>axalt := y\<rparr> # xs)"
      "(\<exists>k. axalt x = Some (b, k)) \<longrightarrow> (\<exists>k. y = Some (b, k))"
    using 1 x unfolding own_kept_def by blast
  moreover have "atask (x\<lparr>axalt := y\<rparr>) = Some u" using x(2) by simp
  ultimately obtain z where "alts s'' b = Some (x\<lparr>axalt := y, axalt := z\<rparr> # xs)"
      "(\<exists>k. axalt (x\<lparr>axalt := y\<rparr>) = Some (b, k)) \<longrightarrow> (\<exists>k. z = Some (b, k))"
    using 2 unfolding own_kept_def by blast
  then show "\<exists>z. alts s'' b = Some (x\<lparr>axalt := z\<rparr> # xs) \<and>
      ((\<exists>k. axalt x = Some (b, k)) \<longrightarrow> (\<exists>k. z = Some (b, k)))"
    using y(2) by (intro exI [of _ z]) simp
qed

lemma chan_keep_trans: "chan_keep u s s' \<Longrightarrow> chan_keep u s' s'' \<Longrightarrow> chan_keep u s s''"
  unfolding chan_keep_def using env_grows_trans own_kept_trans by blast

lemma keep_cong:
  assumes e: "chan s' = chan s" "alts s' = alts s" "umem s' = umem s"
  shows "chan_keep u s s'"
proof -
  have "env_grows s s'" by (simp add: e env_grows_def accepts_def)
  moreover have "own_kept u s s'"
    by (rule own_kept_same) (simp_all add: accepts_def e(2,3))
  ultimately show ?thesis by (simp add: chan_keep_def)
qed

lemma chan_keep_more: "sched.more s' = sched.more s \<Longrightarrow> chan_keep u s s'"
  using keep_cong chans_more by blast

text \<open>Nothing but the fields of the channels.\<close>

definition only_chans :: "'z chans_scheme \<Rightarrow> 'z chans_scheme \<Rightarrow> bool" where
  "only_chans s s' \<longleftrightarrow>
     (\<exists>f cb g ab m ub k. sched.more s' = sched.more (s\<lparr>chan := f, cbrk := cb, alts := g, abrk := ab,
        umem := m, ubrk := ub, rnds := k\<rparr>))"

definition objs_below :: "(obj \<Rightarrow> uchar list option) \<Rightarrow> nat \<Rightarrow> bool" where
  "objs_below m k \<longleftrightarrow> (\<forall>q. m (Object q) \<noteq> None \<longrightarrow> q < k)"

lemma same_room_below: "same_room s m \<Longrightarrow> objs_below m k = objs_below (umem s) k"
  unfolding same_room_def objs_below_def by (metis option.map_disc_iff)

definition chan_fresh :: "'z chans_scheme \<Rightarrow> bool" where
  "chan_fresh s \<longleftrightarrow> (\<forall>c. chan s c \<noteq> None \<longrightarrow> c < cbrk s) \<and> (\<forall>b. alts s b \<noteq> None \<longrightarrow> b < abrk s) \<and>
     objs_below (umem s) (ubrk s)"

definition chan_step :: "'z chans_scheme \<Rightarrow> 'z chans_scheme \<Rightarrow> bool" where
  "chan_step s s' \<longleftrightarrow> only_chans s s' \<and> (\<forall>u. chan_keep u s s') \<and> (chan_fresh s \<longrightarrow> chan_fresh s')"

lemma only_chansI:
  "sched.more s' = sched.more (s\<lparr>chan := f, cbrk := cb, alts := g, abrk := ab, umem := m, ubrk := ub, rnds := k\<rparr>)
   \<Longrightarrow> only_chans s s'"
  unfolding only_chans_def by blast

lemma copied_moved:
  assumes cp: "copied c x s s1 b" and c: "chan s c = Some x"
    and ok: "\<And>c x. chan s c = Some x \<Longrightarrow> chan_ok x" "arrays_ok s"
    and n: "b \<or> (\<forall>d. waits s c d = {})"
  shows "rel_option (chan_moved s c') (chan s c') (chan s1 c')"
proof -
  from copied_chan [OF cp c] obtain x' m where s1: "s1 = s\<lparr>chan := (chan s)(c \<mapsto> x'), umem := m\<rparr>"
    and x': "chan_ok x'" "bufsize x' = bufsize x" "elemsize x' = elemsize x" "\<And>d. array d x' = array d x"
    "b \<Longrightarrow> nbuf x' = nbuf x" by blast
  have "chan_moved s c x x'" using x' n ok(2) c by (auto simp: chan_moved_def arrays_ok_def)
  moreover have "chan_moved s c' y y" if "chan s c' = Some y" for y
    using ok that by (auto simp: chan_moved_def arrays_ok_def)
  ultimately show ?thesis using c by (cases "chan s c'") (auto simp: s1)
qed

lemma same_data_ok: "same_data x y \<Longrightarrow> chan_ok y = chan_ok x"
  by (simp add: same_data_def chan_ok_def)

lemma chan_moved_drop:
  assumes "chan_moved s c x y" and "chan_drop D y z"
  shows "chan_moved s c x z"
proof -
  have sd: "same_data y z" using assms(2) by (simp add: chan_drop_def)
  then show ?thesis
    using assms same_data_ok [OF sd] by (simp add: chan_moved_def chan_drop_def same_data_def)
qed

lemma chan_moved_grows:
  assumes "\<And>c. rel_option (chan_moved s c) (chan s c) (chan s' c)" and "same_room s (umem s')"
  shows "env_grows s s'"
proof -
  have "\<exists>x'. chan s' c = Some x' \<and> elemsize x' = elemsize x" if "chan s c = Some x" for c x
    using assms(1) [of c] that by (cases "chan s' c") (simp_all add: chan_moved_def)
  then show ?thesis unfolding env_grows_def using same_room_accepts [OF assms(2)] by blast
qed

lemma rel_option_dom: "(\<And>c. rel_option (R c) (f c) (g c)) \<Longrightarrow> g c = None \<longleftrightarrow> f c = None"
  by (metis option.rel_distinct option.exhaust)

lemma exchanged_keeps:
  assumes inv: "chan_inv s B" and c: "chan s c0 = Some x" and p: "p \<in> waits s c0 d0"
    and ex: "exchanged s B L R p t s'" and R: "\<And>p s1. R p s1 \<Longrightarrow> copied c0 x (drawn s) s1 True"
  shows "chan_inv s' (B - {t})" and "t \<in> B" and "chan_step s s'"
    and "waits s' c d = {q \<in> waits s c d. fst q \<noteq> fst p}" and "owner s p = Some t"
    and "\<exists>s1. R p s1 \<and> umem s' = umem s1"
proof -
  note D = chan_invD [OF inv]
  obtain xs n s1 where e: "alts s (fst p) = Some xs" "find_end xs = Some n" "snd p < n"
      "atask (xs ! snd p) = Some t" "t \<in> B" and Rp: "R p s1"
    and fin: "finished p xs n s1 s'"
    using ex unfolding exchanged_def by blast
  have cp: "copied c0 x (drawn s) s1 True" by (rule R [OF Rp])
  show "t \<in> B" by (rule e(5))
  show "owner s p = Some t" using e by (simp add: owner_def)
  let ?D = "ops_of (fst p) xs 0 n" and ?xs = "xs[0 := (xs ! 0)\<lparr>axalt := Some p\<rparr>]"
  have c': "chan (drawn s) c0 = Some x" using c by simp
  obtain x' m where 1: "s1 = (drawn s)\<lparr>chan := (chan (drawn s))(c0 \<mapsto> x'), umem := m\<rparr>" "same_room (drawn s) m"
    using copied_chan [OF cp c'] by blast
  then have s1: "s1 = s\<lparr>rnds := Suc (rnds s), chan := (chan s)(c0 \<mapsto> x'), umem := m\<rparr>"
    and m: "same_room s m" by (simp_all add: same_room_def)
  obtain f where f: "\<And>c. rel_option (chan_drop ?D) (chan s1 c) (f c)"
    and more: "sched.more s' = sched.more (s1\<lparr>chan := f, alts := (alts s1)(fst p \<mapsto> ?xs)\<rparr>)"
    using fin unfolding finished_def by blast
  have s': "chan s' = f" "alts s' = (alts s)(fst p \<mapsto> ?xs)" "umem s' = m" "cbrk s' = cbrk s" "abrk s' = abrk s"
    using chans_more [OF more] by (simp_all add: s1)
  have moved: "rel_option (chan_moved s c) (chan s c) (chan s' c)" for c
  proof -
    have *: "waits (drawn s) c d = waits s c d" for c d by (simp add: waits_def)
    have "rel_option (chan_moved (drawn s) c) (chan (drawn s) c) (chan s1 c)"
      by (rule copied_moved [OF cp c']) (use D(1,2) in \<open>simp_all add: arrays_ok_def\<close>)
    then have "rel_option (chan_moved s c) (chan s c) (chan s1 c)"
      by (cases "chan s c"; cases "chan s1 c") (simp_all add: chan_moved_def *)
    then show ?thesis
      using f [of c] unfolding s'(1)
      by (cases "chan s c"; cases "chan s1 c"; cases "f c") (auto intro: chan_moved_drop)
  qed
  have w1: "waits s1 c d = waits s c d" for c d
    using copied_queues(1) [OF cp c', of c d] by (simp add: waits_def)
  have inD: "q \<in> ?D \<longleftrightarrow> fst q = fst p" if q: "q \<in> waits s c d" for q c d
  proof
    show "fst q = fst p" if "q \<in> ?D" using that by (auto simp: ops_of_def)
    assume eq: "fst q = fst p"
    then have n: "snd q < n" using D(4) [OF q] e(1,2) by (auto simp: entry_ok_def)
    have "at s q (xs ! snd q)" using e(1,2) n eq by (intro entry_at) simp_all
    then have "chanarray (aop (xs ! snd q)) = Some d" using consistentD [OF D(3) q] by blast
    then have "aop (xs ! snd q) \<noteq> CHANNOP" by (auto simp: op_of_side split: if_splits)
    then show "q \<in> ?D" using n eq by (cases q) (auto simp: ops_of_def)
  qed
  have w: "waits s' c d = {q \<in> waits s c d. fst q \<notin> {fst p}}" for c d
  proof -
    have "waits s' c d = waits s1 c d - ?D"
      using f [of c] unfolding waits_def s'(1)
      by (cases "chan s1 c"; cases "f c") (auto simp: chan_drop_def)
    then show ?thesis using inD by (auto simp: w1)
  qed
  then show "waits s' c d = {q \<in> waits s c d. fst q \<noteq> fst p}" by simp
  show "\<exists>s1. R p s1 \<and> umem s' = umem s1"
  proof (intro exI conjI)
    show "R p s1" by (rule Rp)
    show "umem s' = umem s1" by (simp add: s'(3) s1)
  qed
  have room: "same_room s (umem s')" using m by (simp add: s')
  show "chan_inv s' (B - {t})"
  proof (rule chan_inv_sub [OF inv moved w])
    show "alts s' b = alts s b" if "b \<notin> {fst p}" for b using that by (simp add: s')
    show "accepts s' (Some v) n" if "accepts s (Some v) n" for v n
      using that same_room_accepts [OF room] by simp
    fix c d q u
    assume q: "q \<in> waits s c d" "fst q \<notin> {fst p}" "owner s q = Some u" "u \<in> B"
    have "owner s p = Some t" using e by (simp add: owner_def)
    then have "u \<noteq> t" using D(6) [OF q(1) p] q(2,3) by auto
    then show "u \<in> B - {t}" using q(4) by simp
  qed
  have "only_chans s s'"
  proof (rule only_chansI)
    show "sched.more s' = sched.more (s\<lparr>chan := f, cbrk := cbrk s, alts := (alts s)(fst p \<mapsto> ?xs),
        abrk := abrk s, umem := m, ubrk := ubrk s, rnds := Suc (rnds s)\<rparr>)"
      unfolding more by (cases s) (simp add: s1)
  qed
  moreover have "own_kept u s s'" for u
  proof -
    have "0 < length xs" using find_end_Some [OF e(2)] by linarith
    then have "?xs = (hd xs)\<lparr>axalt := Some p\<rparr> # tl xs" by (cases xs) simp_all
    then show ?thesis
      unfolding own_kept_def
    proof (intro conjI allI impI)
      show "accepts s (Some (Local u)) n \<Longrightarrow> accepts s' (Some (Local u)) n" for n
        using same_room_accepts [OF room] by simp
      fix b x xs'
      assume x: "alts s b = Some (x # xs')"
      show "\<exists>z. alts s' b = Some (x\<lparr>axalt := z\<rparr> # xs') \<and>
          ((\<exists>k. axalt x = Some (b, k)) \<longrightarrow> (\<exists>k. z = Some (b, k)))"
      proof (cases "b = fst p")
        case True
        then show ?thesis
          using x e(1) by (intro exI [of _ "Some p"]) (simp add: s'(2) prod_eq_iff)
      next
        case False
        then show ?thesis using x by (intro exI [of _ "axalt x"]) (simp add: s'(2))
      qed
    qed
  qed
  moreover have "chan_fresh s'" if "chan_fresh s"
    using that rel_option_dom [of "chan_moved s", OF moved] e(1) same_room_below [OF room]
      chans_more(6) [OF more]
    by (simp add: chan_fresh_def s'(2,4,5) s1)
  ultimately show "chan_step s s'"
    using chan_moved_grows [OF moved room] by (simp add: chan_step_def chan_keep_def)
qed

text \<open>Carrying out an operation that can be carried out.\<close>

definition exec_done :: "'z chans_scheme \<Rightarrow> tptr set \<Rightarrow> queues \<Rightarrow> 'z chans_scheme \<Rightarrow> bool" where
  "exec_done s B L s' \<longleftrightarrow>
     (\<exists>B' L'. chan_inv s' B' \<and> B' \<subseteq> B \<and> queues_ok s' L' \<and> calm s s' \<and> chan_step s s' \<and>
        (\<forall>p. queued L' p \<longleftrightarrow> queued L p \<or> p \<in> B - B') \<and> L' Sleeping = L Sleeping)"

lemma canexec_cases:
  assumes "altcanexec s y = Some True" and "chan s (ac y) = Some x" and "chanarray (aop y) = Some d"
  shows "if bufsize x = 0 then an (array (opposite d) x) \<noteq> 0
    else if d = Snd then nbuf x < bufsize x else 0 < nbuf x"
  using assms otherop_side [OF assms(3)]
  by (cases d) (auto simp: altcanexec_def op_of_side chanarray_def split: if_splits)

lemma no_waits:
  assumes "chan s c = Some x" and ok: "array_ok (array d x)"
  shows "waits s c d = {} \<longleftrightarrow> an (array d x) = 0"
proof -
  have "waits s c d = {} \<longleftrightarrow> entries (array d x) = []"
  proof (cases "entries (array d x)")
    case Nil
    then show ?thesis using assms(1) by (simp add: waits_live)
  next
    case (Cons e es)
    then obtain p where "e = Some p" using ok by (cases e) (simp_all add: array_ok_def)
    then have "p \<in> waits s c d" using assms(1) Cons by (simp add: waits_live)
    then show ?thesis using Cons by auto
  qed
  then show ?thesis using entries_length [OF ok] by auto
qed

lemma copied_step:
  assumes cp: "copied c x s s1 b" and c: "chan s c = Some x"
    and ok: "\<And>c x. chan s c = Some x \<Longrightarrow> chan_ok x" "arrays_ok s"
    and n: "b \<or> (\<forall>d. waits s c d = {})"
  shows "chan_step s s1"
proof -
  obtain x' m where s1: "s1 = s\<lparr>chan := (chan s)(c \<mapsto> x'), umem := m\<rparr>" and m: "same_room s m"
    using copied_chan [OF cp c] by blast
  have room: "same_room s (umem s1)" using m by (simp add: s1)
  have "only_chans s s1"
  proof (rule only_chansI)
    show "sched.more s1 = sched.more (s\<lparr>chan := (chan s)(c \<mapsto> x'), cbrk := cbrk s, alts := alts s,
        abrk := abrk s, umem := m, ubrk := ubrk s, rnds := rnds s\<rparr>)"
      by (cases s) (simp add: s1)
  qed
  moreover have "env_grows s s1"
    by (rule chan_moved_grows [OF copied_moved [OF cp c ok n] room])
  moreover have "own_kept u s s1" for u
    by (rule own_kept_same) (simp_all add: same_room_accepts [OF room], simp add: s1)
  moreover have "chan_fresh s \<Longrightarrow> chan_fresh s1"
    using c same_room_below [OF m] by (simp add: chan_fresh_def s1)
  ultimately show ?thesis by (simp add: chan_step_def chan_keep_def)
qed

lemma altexec_keeps:
  assumes inv: "chan_inv s B" and a: "at s a y" and c: "chan s (ac y) = Some x"
    and d: "chanarray (aop y) = Some d" and can: "altcanexec s y = Some True"
    and acc: "accepts s (av y) (unat (elemsize x))"
    and q: "queues_ok s L" and live: "\<And>t. t \<in> B \<Longrightarrow> t \<in> dom (tasks s) \<and> \<not> queued L t"
  shows "runs (altexec a) s (\<lambda>_. exec_done s B L)"
proof (cases "an (array (opposite d) x) = 0")
  case alone: True
  note D = chan_invD [OF inv]
  note can' = canexec_cases [OF can c d]
  have ex: "altexec a s = altcopy (Some a) None s"
    by (rule altexec_alone [OF a c]) (use alone otherop_side [OF d] in simp)
  have aok: "array_ok (array d' x)" for d' using D(2) c by (simp add: arrays_ok_def)
  have "waits s (ac y) (opposite d) = {}" using no_waits [OF c aok] alone by simp
  moreover have "waits s (ac y) d = {}"
  proof (rule ccontr)
    assume "waits s (ac y) d \<noteq> {}"
    then obtain p where "p \<in> waits s (ac y) d" by blast
    with D(5) c have "if bufsize x = 0 then \<forall>q \<in> waits s (ac y) (opposite d). owner s q = owner s p
         else nbuf x = (if d = Snd then bufsize x else 0)"
      unfolding stuck_def by blast
    then show False using can' alone by (cases d) (auto split: if_splits)
  qed
  ultimately have none: "waits s (ac y) d' = {}" for d' by (cases d; cases d') auto
  let ?sx = "if d = Snd then Some y else None" and ?rx = "if d = Snd then None else Some y"
  have "room_for x ?sx ?rx" using can' alone by (auto simp: room_for_def split: if_splits)
  then have "runs (transfer (ac y) ?sx ?rx) s (\<lambda>_ s'. copied (ac y) x s s' False)"
    using transfer_keeps [OF c D(1) [OF c], of ?sx ?rx] acc by (auto split: if_splits)
  moreover have "altexec a s = transfer (ac y) ?sx ?rx s"
    using altcopy_one [OF a] d ex by (cases d) (simp_all add: op_of_side)
  ultimately have "runs (altexec a) s (\<lambda>_ s'. copied (ac y) x s s' False)" by (simp add: runs_def)
  then show ?thesis
  proof (rule runs_mono)
    fix u s'
    assume cp: "copied (ac y) x s s' False"
    note cq = copied_queues [OF cp c]
    have "chan_inv s' B"
    proof (rule chan_inv_sub [OF inv, where X = "{}"])
      show "rel_option (chan_moved s c) (chan s c) (chan s' c)" for c
        by (rule copied_moved [OF cp c D(1,2)]) (use none in simp_all)
      obtain x' m where "s' = s\<lparr>chan := (chan s)(ac y \<mapsto> x'), umem := m\<rparr>" "same_room s m"
        using copied_chan [OF cp c] by blast
      then have "same_room s (umem s')" by simp
      then show "accepts s (Some v) n \<Longrightarrow> accepts s' (Some v) n" for v n
        using same_room_accepts by blast
    qed (use cq in auto)
    moreover have "chan_step s s'" by (rule copied_step [OF cp c D(1,2)]) (use none in simp_all)
    moreover have "queues_ok s' L" "calm s s'" using copied_core [OF cp] q by (simp_all add: queues_ok_def)
    ultimately show "exec_done s B L s'"
      unfolding exec_done_def by (intro exI [of _ B] exI [of _ L]) simp
  qed
next
  case partner: False
  note D = chan_invD [OF inv]
  let ?R = "\<lambda>p s1. copied (ac y) x (drawn s) s1 True"
  have copy: "runs (altcopy (Some a) (Some p)) (drawn s) (\<lambda>_. ?R p)" if p: "p \<in> waits s (ac y) (opposite d)" for p
  proof -
    obtain z where z: "at s p z" "ac z = ac y" "chanarray (aop z) = Some (opposite d)"
      using D(3) p unfolding consistent_def by blast
    obtain t where "operand_ok s t (av z) (elemsize x)"
      using D(4) [OF p] z(1,2) c unfolding entry_ok_def at_def by auto
    then have accz: "accepts (drawn s) (av z) (unat (elemsize x))" by (simp add: operand_ok_def accepts_def)
    have accy: "accepts (drawn s) (av y) (unat (elemsize x))" using acc by (simp add: accepts_def)
    have c': "chan (drawn s) (ac y) = Some x" using c by simp
    have at: "at (drawn s) a y" "at (drawn s) p z" using a z(1) by (simp_all add: at_def)
    let ?sx = "if d = Snd then y else z" and ?rx = "if d = Snd then z else y"
    have "altcopy (Some a) (Some p) (drawn s) = transfer (ac y) (Some ?sx) (Some ?rx) (drawn s)"
      using altcopy_two [OF at] d z(3) by (cases d) (simp_all add: op_of_side)
    moreover have "runs (transfer (ac y) (Some ?sx) (Some ?rx)) (drawn s)
        (\<lambda>_ s'. copied (ac y) x (drawn s) s' True)"
      using transfer_keeps [OF c' D(1) [OF c], of "Some ?sx" "Some ?rx"] accy accz
      by (simp add: room_for_def)
    ultimately show ?thesis by (simp only: runs_def)
  qed
  show ?thesis
  proof (rule runs_mono [OF altexec_paired [OF inv a c d partner q live copy]])
    fix u s'
    assume "\<exists>p t. p \<in> waits s (ac y) (opposite d) \<and> exchanged s B L ?R p t s'"
    then obtain p t where p: "p \<in> waits s (ac y) (opposite d)" and e: "exchanged s B L ?R p t s'" by blast
    have k: "chan_inv s' (B - {t})" "t \<in> B" "chan_step s s'"
      by (rule exchanged_keeps [OF inv c p e], assumption)+
    let ?L = "L(RunQueue := L RunQueue @ [t])"
    show "exec_done s B L s'"
      unfolding exec_done_def
    proof (intro exI conjI allI)
      show "chan_inv s' (B - {t})" "chan_step s s'" by (rule k)+
      show "B - {t} \<subseteq> B" by blast
      show "queues_ok s' ?L" "calm s s'" by (rule exchangedD [OF e])+
      have "queued ?L p \<longleftrightarrow> queued L p \<or> p = t" for p by (rule queued_snoc_iff)
      moreover have "p \<in> B - (B - {t}) \<longleftrightarrow> p = t" for p using k(2) by blast
      ultimately show "queued ?L p \<longleftrightarrow> queued L p \<or> p \<in> B - (B - {t})" for p by blast
    qed simp
  qed
qed

end
