(* ===== verification/Chansafe.thy ===== *)
theory Chansafe
  imports Chaninv
begin

text \<open>
  \<open>chanalt\<close> keeps the invariant of the channels, and the calls of channel.c are safe for every task
  of every program that keeps its operands alive.
\<close>

section \<open>The loops of chanalt\<close>

text \<open>The first \<open>k\<close> entries of the array, marked with the task and the array.\<close>

definition marked :: "aptr \<Rightarrow> tptr option \<Rightarrow> nat \<Rightarrow> alt list \<Rightarrow> alt list" where
  "marked a t k xs = map (\<lambda>x. x\<lparr>atask := t, axalt := Some a\<rparr>) (take k xs) @ drop k xs"

lemma marked_none [simp]: "marked a t 0 xs = xs"
  by (simp add: marked_def)

lemma marked_length [simp]: "length (marked a t k xs) = length xs"
  by (simp add: marked_def)

lemma marked_nth: "i < length xs \<Longrightarrow> marked a t k xs ! i =
    (if i < k then (xs ! i)\<lparr>atask := t, axalt := Some a\<rparr> else xs ! i)"
  by (simp add: marked_def nth_append min_def)

lemma marked_step:
  "k < length xs \<Longrightarrow> (marked a t k xs)[k := (marked a t k xs ! k)\<lparr>atask := t, axalt := Some a\<rparr>] =
     marked a t (Suc k) xs"
proof -
  assume k: "k < length xs"
  then have "drop k xs = xs ! k # drop (Suc k) xs" by (simp add: Cons_nth_drop_Suc)
  then show ?thesis
    using k by (simp add: marked_def take_Suc_conv_app_nth list_update_append nth_append min_absorb2)
qed

lemma find_end_cong:
  assumes "map aop ys = map aop xs"
  shows "find_end ys = find_end xs"
proof -
  have "length ys = length xs" using arg_cong [OF assms, of length] by simp
  then show ?thesis using assms by (induction ys xs rule: list_induct2) simp_all
qed

lemma map_prefix:
  assumes "\<And>x. f (g x) = f x"
  shows "map f (map g (take k xs) @ drop k xs) = map f xs"
proof -
  have "map f (map g (take k xs) @ drop k xs) = map f (take k xs) @ map f (drop k xs)"
    by (simp add: comp_def assms)
  also have "\<dots> = map f (take k xs @ drop k xs)" by (simp only: map_append)
  finally show ?thesis by (simp only: append_take_drop_id)
qed

lemma map_marked [simp]:
  "map aop (marked a t k xs) = map aop xs" "map ac (marked a t k xs) = map ac xs"
  "map av (marked a t k xs) = map av xs"
  unfolding marked_def by (rule map_prefix; simp)+

lemma find_end_marked [simp]: "find_end (marked a t k xs) = find_end xs"
  by (rule find_end_cong) simp

lemma upt_split:
  assumes "[0..<n] = ys @ k # zs"
  shows "k = length ys" and "k < n"
proof -
  have n: "n = length ys + Suc (length zs)" using arg_cong [OF assms, of length] by simp
  moreover have "[0..<n] ! length ys = k" by (simp only: assms nth_append_length)
  ultimately show "k = length ys" by (simp del: upt_Suc)
  with n show "k < n" by simp
qed

lemma mark_runs:
  assumes "alts s b = Some xs" and "n \<le> length xs"
  shows "seqp (mark_alt (b, 0) t) [0..<n] s = Ret () (s\<lparr>alts := (alts s)(b \<mapsto> marked (b, 0) t n xs)\<rparr>)"
proof -
  let ?I = "\<lambda>ys s'. s' = s\<lparr>alts := (alts s)(b \<mapsto> marked (b, 0) t (length ys) xs)\<rparr>"
  have "runs (seqp (mark_alt (b, 0) t) [0..<n]) s (\<lambda>_. ?I [0..<n])"
  proof (rule runs_seqp)
    fix ys k zs s'
    assume e: "[0..<n] = ys @ k # zs" and s': "?I ys s'"
    have "k = length ys" "k < n" by (rule upt_split [OF e])+
    then show "runs (mark_alt (b, 0) t k) s' (\<lambda>_. ?I (ys @ [k]))"
      using assms marked_step [of k xs "(b, 0)" t] by (simp add: s' mark_alt_def alt_ptr_def)
  qed (use assms in \<open>simp add: fun_upd_idem\<close>)
  then show ?thesis by (simp add: runs_def)
qed

text \<open>The operations that can be carried out.\<close>

definition can_list :: "'z chans_scheme \<Rightarrow> alt list \<Rightarrow> nat list \<Rightarrow> nat list" where
  "can_list s xs is = filter (\<lambda>i. altcanexec s (xs ! i) = Some True) is"

lemma can_alt_value:
  assumes "alts s b = Some xs" and "i < length xs" and "altcanexec s (xs ! i) \<noteq> None"
  shows "can_alt (alt_ptr (b, 0) i) s = Ret (altcanexec s (xs ! i) = Some True) s"
proof -
  have "at s (b, i) (xs ! i)" using assms by (simp add: at_def)
  from load_alt_at [OF this] assms(3) show ?thesis
    by (auto simp: can_alt_def alt_ptr_def bnd_def [of "get _"] sem_simps)
qed

lemma count_can_value:
  assumes "alts s b = Some xs" and "\<And>i. i \<in> set is \<Longrightarrow> i < length xs \<and> altcanexec s (xs ! i) \<noteq> None"
  shows "count_can (b, 0) is k s = Ret (k + length (can_list s xs is)) s"
  using assms(2)
proof (induction "is" arbitrary: k)
  case (Cons i "is")
  have v: "can_alt (alt_ptr (b, 0) i) s = Ret (altcanexec s (xs ! i) = Some True) s"
    by (rule can_alt_value [OF assms(1)]) (use Cons.prems in auto)
  then show ?case using Cons.IH Cons.prems by (simp add: can_list_def)
qed (simp add: can_list_def ret_def)

lemma exec_nth_value:
  assumes "alts s b = Some xs" and "\<And>i. i \<in> set is \<Longrightarrow> i < length xs \<and> altcanexec s (xs ! i) \<noteq> None"
    and "j < length (can_list s xs is)"
  shows "exec_nth (b, 0) is j s =
    bnd (altexec (b, can_list s xs is ! j)) (\<lambda>_. ret (Some (can_list s xs is ! j))) s"
  using assms(2,3)
proof (induction "is" arbitrary: j)
  case (Cons i "is")
  have v: "can_alt (alt_ptr (b, 0) i) s = Ret (altcanexec s (xs ! i) = Some True) s"
    by (rule can_alt_value [OF assms(1)]) (use Cons.prems in auto)
  show ?case
  proof (cases "altcanexec s (xs ! i) = Some True")
    case False
    then show ?thesis using v Cons.IH [of j] Cons.prems by (simp add: can_list_def)
  next
    case True
    then show ?thesis
      using v Cons.IH [of "j - 1"] Cons.prems
      by (cases j) (simp_all add: can_list_def alt_ptr_def)
  qed
qed (simp add: can_list_def)

section \<open>Queueing the operations\<close>

lemma addarray_runs:
  assumes c: "chan s c = Some x" and ok: "\<And>d. array_ok (array d x)"
    and new: "Some a \<notin> set (entries (array d x))"
  shows "runs_or NoMemory (addarray c d a) s (\<lambda>_ s'. \<exists>k x'. s' = s\<lparr>allocs := k, chan := (chan s)(c \<mapsto> x')\<rparr> \<and>
    same_data x x' \<and> (\<forall>d'. array_ok (array d' x') \<and>
      set (entries (array d' x')) = set (entries (array d' x)) \<union> (if d' = d then {Some a} else {})))"
proof -
  have n: "an (array d x) \<le> length (aa (array d x))" using ok by (simp add: array_ok_def)
  have put: "array_ok (put_array a y) \<and> set (entries (put_array a y)) = set (entries (array d x)) \<union> {Some a}"
    if "array_ok y" "an y < length (aa y)" "entries y = entries (array d x)" for y
    using array_ok_put [OF that(1,2), of a] new that(3) entries_put [OF that(2), of a] by simp
  show ?thesis
  proof (cases "an (array d x) = length (aa (array d x))")
    case False
    let ?x = "mod_array d (put_array a) x"
    let ?s = "s\<lparr>allocs := allocs s, chan := (chan s)(c \<mapsto> ?x)\<rparr>"
    have "addarray c d a s = Ret () ?s"
      using c False by (simp add: addarray_def load_chan_live mod_chan_def whenp_def)
    moreover have "array_ok (array d' ?x) \<and> set (entries (array d' ?x)) =
        set (entries (array d' x)) \<union> (if d' = d then {Some a} else {})" for d'
      using put [of "array d x"] False n ok by simp
    ultimately show ?thesis
      by (intro runs_or_runs) (unfold runs_def, intro exI conjI, assumption, rule refl,
        rule same_data_mod_array, blast)
  next
    case True
    let ?y = "mod_array d grow_array x"
    let ?x = "mod_array d (put_array a) ?y"
    let ?s = "s\<lparr>allocs := Suc (allocs s), chan := (chan s)(c \<mapsto> ?x)\<rparr>"
    show ?thesis
    proof (cases "alloc_ok s (allocs s)")
      case False
      then have "halts (addarray c d a) s NoMemory"
        using c True by (simp add: halts_def addarray_def load_chan_live whenp_def bnd_def [of try_alloc]
            bnd_def [of "bnd _ _"] try_alloc_def halt_def)
      then show ?thesis by (simp add: runs_or_def)
    next
      case ok': True
      have "addarray c d a s = Ret () ?s"
        using c True ok' by (simp add: addarray_def load_chan_live whenp_def bnd_def [of try_alloc]
            bnd_def [of "bnd _ _"] try_alloc_def mod_chan_def)
      moreover have "array_ok (array d' ?x) \<and> set (entries (array d' ?x)) =
          set (entries (array d' x)) \<union> (if d' = d then {Some a} else {})" for d'
      proof -
        have "an (grow_array (array d x)) < length (aa (grow_array (array d x)))"
          using True by (simp add: grow_array_def)
        then show ?thesis using put [of "grow_array (array d x)"] n ok by simp
      qed
      moreover have "same_data x ?x" by (simp add: same_data_def)
      ultimately show ?thesis
        by (intro runs_or_runs) (unfold runs_def, intro exI conjI, assumption, rule refl, assumption, blast)
    qed
  qed
qed

text \<open>The operations among the first \<open>k\<close> that wait in the array \<open>d\<close> of the channel \<open>c\<close>.\<close>

definition new_waits :: "nat \<Rightarrow> alt list \<Rightarrow> nat \<Rightarrow> cptr \<Rightarrow> side \<Rightarrow> aptr set" where
  "new_waits b xs k c d = {(b, j) | j. j < k \<and> ac (xs ! j) = c \<and> chanarray (aop (xs ! j)) = Some d}"

lemma new_waits_Suc:
  "new_waits b xs (Suc k) c d = new_waits b xs k c d \<union>
     (if ac (xs ! k) = c \<and> chanarray (aop (xs ! k)) = Some d then {(b, k)} else {})"
  by (auto simp: new_waits_def less_Suc_eq)

lemma new_waits_none [simp]: "new_waits b xs 0 c d = {}"
  by (simp add: new_waits_def)

definition chan_more :: "(side \<Rightarrow> aptr set) \<Rightarrow> chan \<Rightarrow> chan \<Rightarrow> bool" where
  "chan_more N x x' \<longleftrightarrow> same_data x x' \<and>
     (\<forall>d. array_ok (array d x') \<and> set (entries (array d x')) = set (entries (array d x)) \<union> Some ` N d)"

definition enqueued :: "nat \<Rightarrow> alt list \<Rightarrow> nat \<Rightarrow> 'z chans_scheme \<Rightarrow> 'z chans_scheme \<Rightarrow> bool" where
  "enqueued b xs k s s' \<longleftrightarrow>
     (\<exists>j f. s' = s\<lparr>allocs := j, chan := f\<rparr> \<and>
        (\<forall>c. rel_option (chan_more (new_waits b xs k c)) (chan s c) (f c)))"

lemma enqueued_none: 
  assumes "arrays_ok s"
  shows "enqueued b xs 0 s s"
proof -
  have "rel_option (chan_more (new_waits b xs 0 c)) (chan s c) (chan s c)" for c
    using assms by (cases "chan s c") (simp_all add: chan_more_def arrays_ok_def)
  then show ?thesis
    unfolding enqueued_def by (intro exI [of _ "allocs s"] exI [of _ "chan s"]) simp
qed

lemma chan_more_step:
  assumes "chan_more N x x'" and "same_data x' x''"
    and "\<And>d. array_ok (array d x'') \<and> set (entries (array d x'')) = set (entries (array d x')) \<union> Some ` M d"
    and "\<And>d. N' d = N d \<union> M d"
  shows "chan_more N' x x''"
  using assms by (simp add: chan_more_def same_data_def image_Un Un_assoc)

lemma enqueuedE:
  assumes "enqueued b xs k s s'"
  obtains j f where "s' = s\<lparr>allocs := j, chan := f\<rparr>"
    "\<And>c. rel_option (chan_more (new_waits b xs k c)) (chan s c) (f c)"
  using assms unfolding enqueued_def by blast

lemma queue_step:
  assumes xs: "alts s b = Some xs" "k < length xs"
    and fresh: "\<And>c d p. p \<in> waits s c d \<Longrightarrow> fst p \<noteq> b"
    and op: "aop (xs ! k) = CHANNOP \<or> (\<exists>d x. chanarray (aop (xs ! k)) = Some d \<and> chan s (ac (xs ! k)) = Some x)"
    and e: "enqueued b xs k s s1"
  shows "runs_or NoMemory (queue_alt (b, 0) k) s1 (\<lambda>_. enqueued b xs (Suc k) s)"
proof -
  obtain j f where s1: "s1 = s\<lparr>allocs := j, chan := f\<rparr>"
    and f: "\<And>c. rel_option (chan_more (new_waits b xs k c)) (chan s c) (f c)"
    using e by (rule enqueuedE) blast
  have at: "at s1 (b, k) (xs ! k)" using xs by (simp add: s1 at_def)
  have q: "queue_alt (b, 0) k s1 = whenp (aop (xs ! k) \<noteq> CHANNOP) (altqueue (b, k)) s1"
    using load_alt_at [OF at] by (simp add: queue_alt_def alt_ptr_def)
  show ?thesis
  proof (cases "aop (xs ! k) = CHANNOP")
    case True
    then have "new_waits b xs (Suc k) c = new_waits b xs k c" for c
      by (rule_tac ext) (simp add: new_waits_Suc chanarray_def)
    then have "enqueued b xs (Suc k) s s1" using e by (simp add: enqueued_def)
    then show ?thesis using q True by (intro runs_or_runs) (simp add: runs_def whenp_def ret_def)
  next
    case False
    let ?c = "ac (xs ! k)"
    obtain d x where d: "chanarray (aop (xs ! k)) = Some d" and x: "chan s ?c = Some x"
      using op False by blast
    obtain x1 where x1: "f ?c = Some x1" "chan_more (new_waits b xs k ?c) x x1"
      using f [of ?c] x by (cases "f ?c") simp_all
    have c1: "chan s1 ?c = Some x1" using x1 by (simp add: s1)
    have aok: "array_ok (array d' x1)" for d' using x1(2) by (simp add: chan_more_def)
    have "Some (b, k) \<notin> set (entries (array d x1))"
    proof
      assume "Some (b, k) \<in> set (entries (array d x1))"
      then have "Some (b, k) \<in> set (entries (array d x)) \<or> (b, k) \<in> new_waits b xs k ?c d"
        using x1(2) by (auto simp: chan_more_def)
      then show False using fresh [of "(b, k)" ?c d] x by (auto simp: waits_live new_waits_def)
    qed
    from addarray_runs [OF c1 aok this]
    have "runs_or NoMemory (addarray ?c d (b, k)) s1 (\<lambda>_. enqueued b xs (Suc k) s)"
    proof (rule runs_or_mono)
      fix u s2
      assume "\<exists>j x2. s2 = s1\<lparr>allocs := j, chan := (chan s1)(?c \<mapsto> x2)\<rparr> \<and> same_data x1 x2 \<and>
        (\<forall>d'. array_ok (array d' x2) \<and>
          set (entries (array d' x2)) = set (entries (array d' x1)) \<union> (if d' = d then {Some (b, k)} else {}))"
      then obtain j2 x2 where s2: "s2 = s1\<lparr>allocs := j2, chan := (chan s1)(?c \<mapsto> x2)\<rparr>"
        and sd: "same_data x1 x2" and x2: "\<And>d'. array_ok (array d' x2) \<and> set (entries (array d' x2)) =
          set (entries (array d' x1)) \<union> (if d' = d then {Some (b, k)} else {})" by blast
      have "chan_more (new_waits b xs (Suc k) ?c) x x2"
        by (rule chan_more_step [OF x1(2) sd, where M = "\<lambda>d'. if d' = d then {(b, k)} else {}"])
          (use x2 d in \<open>auto simp: new_waits_Suc\<close>)
      moreover have "new_waits b xs (Suc k) c = new_waits b xs k c" if "c \<noteq> ?c" for c
        by (rule ext) (use that in \<open>simp add: new_waits_Suc\<close>)
      ultimately have "rel_option (chan_more (new_waits b xs (Suc k) c)) (chan s c) ((f(?c \<mapsto> x2)) c)" for c
        using f [of c] x by (cases "c = ?c") simp_all
      moreover have "s2 = s\<lparr>allocs := j2, chan := f(?c \<mapsto> x2)\<rparr>" by (simp add: s2 s1)
      ultimately show "enqueued b xs (Suc k) s s2" unfolding enqueued_def by blast
    qed
    moreover have "queue_alt (b, 0) k s1 = addarray ?c d (b, k) s1"
      using q False load_alt_at [OF at] d by (simp add: whenp_def altqueue_def)
    ultimately show ?thesis by (simp add: runs_or_def runs_def halts_def)
  qed
qed

lemma queue_runs:
  assumes xs: "alts s b = Some xs" "n \<le> length xs"
    and fresh: "\<And>c d p. p \<in> waits s c d \<Longrightarrow> fst p \<noteq> b" and ok: "arrays_ok s"
    and op: "\<And>i. i < n \<Longrightarrow> aop (xs ! i) = CHANNOP \<or>
      (\<exists>d x. chanarray (aop (xs ! i)) = Some d \<and> chan s (ac (xs ! i)) = Some x)"
  shows "runs_or NoMemory (seqp (queue_alt (b, 0)) [0..<n]) s (\<lambda>_. enqueued b xs n s)"
proof -
  have "runs_or NoMemory (seqp (queue_alt (b, 0)) [0..<n]) s (\<lambda>_. enqueued b xs (length [0..<n]) s)"
  proof (rule runs_or_seqp [where I = "\<lambda>ys. enqueued b xs (length ys) s"])
    fix ys k zs s'
    assume e: "[0..<n] = ys @ k # zs" and s': "enqueued b xs (length ys) s s'"
    have k: "k = length ys" "k < n" by (rule upt_split [OF e])+
    have "runs_or NoMemory (queue_alt (b, 0) k) s' (\<lambda>_. enqueued b xs (Suc k) s)"
      by (rule queue_step [OF xs(1) _ fresh op [OF k(2)]]) (use k xs(2) s' in auto)
    then show "runs_or NoMemory (queue_alt (b, 0) k) s' (\<lambda>_. enqueued b xs (length (ys @ [k])) s)"
      using k(1) by simp
  qed (simp add: enqueued_none [OF ok])
  then show ?thesis by simp
qed

text \<open>What a caller of \<open>chanalt\<close> has to provide: an array of \<open>Alt\<close> with live operands.\<close>

definition block_ok :: "'z chans_scheme \<Rightarrow> tptr \<Rightarrow> nat \<Rightarrow> alt list \<Rightarrow> nat \<Rightarrow> bool" where
  "block_ok s t b xs n \<longleftrightarrow> alts s b = Some xs \<and> find_end xs = Some n \<and> 0 < n \<and>
     (\<forall>i < n. aop (xs ! i) = CHANNOP \<or>
        (\<exists>d x. chanarray (aop (xs ! i)) = Some d \<and> chan s (ac (xs ! i)) = Some x \<and>
           operand_ok s t (av (xs ! i)) (elemsize x)))"

definition unqueued :: "'z chans_scheme \<Rightarrow> nat \<Rightarrow> bool" where
  "unqueued s b \<longleftrightarrow> (\<forall>c d p. p \<in> waits s c d \<longrightarrow> fst p \<noteq> b)"

lemma cannot_cases:
  assumes "altcanexec s y = Some False" and "chan s (ac y) = Some x" and "chanarray (aop y) = Some d"
  shows "if bufsize x = 0 then an (array (opposite d) x) = 0
    else if d = Snd then bufsize x \<le> nbuf x else nbuf x = 0"
proof -
  have "chanarray (otherop (aop y)) = Some (opposite d)" by (rule otherop_side [OF assms(3)])
  then show ?thesis
    using assms by (cases d) (auto simp: altcanexec_def op_of_side chanarray_def word_neq_0_conv [symmetric]
        not_less split: if_splits)
qed

lemma enqueued_waits:
  assumes e: "enqueued b xs n s s'" and live: "\<And>i. i < n \<Longrightarrow> aop (xs ! i) \<noteq> CHANNOP \<Longrightarrow> chan s (ac (xs ! i)) \<noteq> None"
  shows "waits s' c d = waits s c d \<union> new_waits b xs n c d"
proof -
  obtain j f where s': "s' = s\<lparr>allocs := j, chan := f\<rparr>"
    and f: "\<And>c. rel_option (chan_more (new_waits b xs n c)) (chan s c) (f c)"
    using e by (rule enqueuedE) blast
  show ?thesis
  proof (cases "chan s c")
    case None
    have "j < n \<Longrightarrow> chanarray (aop (xs ! j)) = Some d \<Longrightarrow> ac (xs ! j) \<noteq> c" for j
      using live [of j] None by (cases "aop (xs ! j) = CHANNOP") (auto simp: chanarray_def)
    then have "new_waits b xs n c d = {}" by (auto simp: new_waits_def)
    then show ?thesis using None f [of c] by (simp add: s' waits_def)
  next
    case (Some x)
    then show ?thesis using f [of c] by (cases "f c") (auto simp: s' waits_def chan_more_def)
  qed
qed

lemma enqueued_inv:
  assumes inv: "chan_inv s B" and blk: "block_ok s t b xs n" and fresh: "unqueued s b" and t: "t \<notin> B"
    and marks: "\<And>i. i < n \<Longrightarrow> atask (xs ! i) = Some t \<and> axalt (xs ! i) = Some (b, 0)"
    and none: "\<And>i. i < n \<Longrightarrow> altcanexec s (xs ! i) = Some False"
    and e: "enqueued b xs n s s'"
  shows "chan_inv s' (insert t B)"
proof -
  note D = chan_invD [OF inv]
  obtain j f where s': "s' = s\<lparr>allocs := j, chan := f\<rparr>"
    and f: "\<And>c. rel_option (chan_more (new_waits b xs n c)) (chan s c) (f c)"
    using e by (rule enqueuedE) blast
  have xs: "alts s b = Some xs" "find_end xs = Some n" using blk by (simp_all add: block_ok_def)
  have op: "\<exists>x. chan s (ac (xs ! i)) = Some x \<and> operand_ok s t (av (xs ! i)) (elemsize x) \<and>
      (\<exists>d. chanarray (aop (xs ! i)) = Some d)" if "i < n" "aop (xs ! i) \<noteq> CHANNOP" for i
    using blk that unfolding block_ok_def by blast
  have w: "waits s' c d = waits s c d \<union> new_waits b xs n c d" for c d
    by (rule enqueued_waits [OF e]) (use op in fastforce)
  have own: "owner s' p = owner s p" for p by (simp add: s' owner_def)
  have own_new: "owner s p = Some t" "fst p = b" "snd p < n" "ac (xs ! snd p) = c" "chanarray (aop (xs ! snd p)) = Some d"
    if "p \<in> new_waits b xs n c d" for p c d
    using that marks xs(1) by (auto simp: new_waits_def owner_def)
  have own_old: "\<exists>u \<in> B. owner s p = Some u" if "p \<in> waits s c d" for p c d
    using D(4) [OF that] by (auto simp: entry_ok_def owner_def)
  have same: "\<exists>x. chan s c = Some x \<and> same_data x x'" if "chan s' c = Some x'" for c x'
    using f [of c] that by (cases "chan s c") (simp_all add: s' chan_more_def)
  have placed: "placed s p q i \<Longrightarrow> placed s' p q i" for p q i
    by (auto simp: placed_def w)
  have placed_new: "placed s' b xs i" if "i < n" "aop (xs ! i) \<noteq> CHANNOP" for i
    using op [OF that] that(1) by (auto simp: placed_def w new_waits_def)
  have oper: "operand_ok s' u v (elemsize x')" if "operand_ok s u v (elemsize x)" "same_data x x'" for u v x x'
    using that by (simp add: operand_ok_def same_data_def s' accepts_def)
  have entry: "entry_ok s' (insert t B) p" if p: "p \<in> waits s' c d" for p c d
  proof (cases "p \<in> waits s c d")
    case True
    obtain ys m u where y: "alts s (fst p) = Some ys" "find_end ys = Some m" "snd p < m"
        "atask (ys ! snd p) = Some u" "u \<in> B" "axalt (ys ! snd p) = Some (fst p, 0)"
      and o: "\<And>x. chan s (ac (ys ! snd p)) = Some x \<Longrightarrow> operand_ok s u (av (ys ! snd p)) (elemsize x)"
      and pl: "\<And>i. i < m \<Longrightarrow> aop (ys ! i) \<noteq> CHANNOP \<Longrightarrow> placed s (fst p) ys i"
      using D(4) [OF True] unfolding entry_ok_def by blast
    have "operand_ok s' u (av (ys ! snd p)) (elemsize x')" if "chan s' (ac (ys ! snd p)) = Some x'" for x'
      using same [OF that] o oper by blast
    then show ?thesis
      unfolding entry_ok_def using y pl placed
      by (intro exI [of _ ys] exI [of _ m] exI [of _ u]) (simp add: s')
  next
    case False
    then have new: "p \<in> new_waits b xs n c d" using p w by blast
    note pn = own_new [OF new]
    have nop: "aop (xs ! snd p) \<noteq> CHANNOP" using pn(5) by (auto simp: chanarray_def)
    have "operand_ok s' t (av (xs ! snd p)) (elemsize x')" if "chan s' (ac (xs ! snd p)) = Some x'" for x'
      using same [OF that] op [OF pn(3) nop] oper by fastforce
    moreover have "alts s' (fst p) = Some xs" using xs(1) pn(2) by (simp add: s')
    ultimately show ?thesis
      unfolding entry_ok_def using marks [OF pn(3)] pn(2,3) xs(2) placed_new
      by (intro exI [of _ xs] exI [of _ n] exI [of _ t]) simp
  qed
  have "stuck s' c d p" if p: "p \<in> waits s' c d" for p c d
    unfolding stuck_def
  proof (intro allI impI)
    fix x'
    assume "chan s' c = Some x'"
    then obtain x where x: "chan s c = Some x" "same_data x x'" using same by blast
    have aok: "array_ok (array d' x)" for d' using D(2) x(1) by (simp add: arrays_ok_def)
    have sd: "bufsize x' = bufsize x" "nbuf x' = nbuf x" using x(2) by (simp_all add: same_data_def)
    have blocked: "if bufsize x = 0 then waits s c (opposite d') = {} else nbuf x = (if d' = Snd then bufsize x else 0)"
      if new: "q \<in> new_waits b xs n c d'" for q d'
    proof -
      note qn = own_new [OF new]
      have "nbuf x \<le> bufsize x" using D(1) [OF x(1)] by (simp add: chan_ok_def)
      then show ?thesis
        using cannot_cases [OF none [OF qn(3)], of x d'] qn(4,5) x(1) no_waits [OF x(1) aok]
        by (auto split: if_splits)
    qed
    show "if bufsize x' = 0 then \<forall>q \<in> waits s' c (opposite d). owner s' q = owner s' p
         else nbuf x' = (if d = Snd then bufsize x' else 0)"
    proof (cases "p \<in> waits s c d")
      case old: True
      have "opposite (opposite d) = d" by (cases d) simp_all
      then have "new_waits b xs n c (opposite d) = {}" if "bufsize x = 0"
        using blocked [of _ "opposite d"] old that by auto
      then show ?thesis
        using D(5) [OF old] x(1) by (auto simp: stuck_def sd own w)
    next
      case False
      then have new: "p \<in> new_waits b xs n c d" using p w by blast
      have "\<forall>q \<in> waits s' c (opposite d). owner s' q = owner s' p" if "bufsize x = 0"
      proof
        fix q
        assume "q \<in> waits s' c (opposite d)"
        then have "q \<in> new_waits b xs n c (opposite d)" using blocked [OF new] that w by auto
        then show "owner s' q = owner s' p" using own_new(1) new own by simp
      qed
      then show ?thesis using blocked [OF new] sd by auto
    qed
  qed
  moreover have "fst p = fst q"
    if pq: "p \<in> waits s' c d" "q \<in> waits s' c' d'" "owner s' p = owner s' q" for p q c d c' d'
  proof (cases "p \<in> waits s c d"; cases "q \<in> waits s c' d'")
    assume "p \<in> waits s c d" "q \<in> waits s c' d'"
    then show ?thesis using D(6) pq(3) own by metis
  next
    assume a: "p \<in> waits s c d" "q \<notin> waits s c' d'"
    then have "owner s q = Some t" using pq(2) w own_new(1) by blast
    then show ?thesis using own_old [OF a(1)] pq(3) own t by auto
  next
    assume a: "p \<notin> waits s c d" "q \<in> waits s c' d'"
    then have "owner s p = Some t" using pq(1) w own_new(1) by blast
    then show ?thesis using own_old [OF a(2)] pq(3) own t by auto
  next
    assume "p \<notin> waits s c d" "q \<notin> waits s c' d'"
    then show ?thesis using pq(1,2) w own_new(2) by (metis UnE)
  qed
  moreover have "consistent s'"
    unfolding consistent_def
  proof (intro allI impI)
    fix c d p
    assume "p \<in> waits s' c d"
    then show "\<exists>y. at s' p y \<and> ac y = c \<and> chanarray (aop y) = Some d"
    proof (cases "p \<in> waits s c d")
      case True
      then show ?thesis using D(3) unfolding consistent_def by (simp add: s' at_def)
    next
      case False
      then have new: "p \<in> new_waits b xs n c d" using \<open>p \<in> waits s' c d\<close> w by blast
      note pn = own_new [OF new]
      have "at s' p (xs ! snd p)" using xs pn(2,3) by (intro entry_at) (simp_all add: s')
      then show ?thesis using pn(4,5) by blast
    qed
  qed
  moreover have "chan_ok x'" if "chan s' c = Some x'" for c x'
    using same [OF that] D(1) same_data_ok by blast
  moreover have "arrays_ok s'"
    unfolding arrays_ok_def
  proof (intro allI impI)
    fix c x' d
    assume "chan s' c = Some x'"
    then show "array_ok (array d x')" using f [of c] by (cases "chan s c") (simp_all add: s' chan_more_def)
  qed
  ultimately show ?thesis using entry unfolding chan_inv_def by blast
qed

end
