(* ===== verification/Chanclient.thy ===== *)
theory Chanclient
  imports Chansafe
begin

text \<open>
  The interface between the channels and the code of the tasks: every call of channel.c is safe.
  \<open>C\<close> and \<open>M\<close> are the channels and objects of which a task knows that they live, with the
  size of their elements and their least length; \<open>Rest\<close> is what the components above keep, of the
  tasks that are parked but wait for no channel.
\<close>

definition env_ok :: "(cptr \<Rightarrow> uint option) \<Rightarrow> (nat \<Rightarrow> nat option) \<Rightarrow> 'z chans_scheme \<Rightarrow> bool" where
  "env_ok C M s \<longleftrightarrow>
     (\<forall>c e. C c = Some e \<longrightarrow> (\<exists>x. chan s c = Some x \<and> elemsize x = e)) \<and>
     (\<forall>p n. M p = Some n \<longrightarrow> accepts s (Some (Object p)) n)"

lemma env_ok_grows: "env_ok C M s \<Longrightarrow> env_grows s s' \<Longrightarrow> env_ok C M s'"
  unfolding env_ok_def env_grows_def by metis

section \<open>The parts of chanalt\<close>

lemma needstack_cases:
  assumes "taskrunning s = Some t" and "t \<in> dom (tasks s)"
  shows "needstack n s = Ret () s \<or> needstack n s = Halt Abort s"
  using assms
  by (auto simp: needstack_def running_def bnd_def deref_def load_task_def sem_simps)

lemma altcanexec_cong:
  "chan s' = chan s \<Longrightarrow> aop y = aop x \<Longrightarrow> ac y = ac x \<Longrightarrow> altcanexec s' y = altcanexec s x"
  by (simp add: altcanexec_def cong: option.case_cong if_cong)

text \<open>\<open>chanalt\<close> after the marks: the state, and the operations that can be carried out.\<close>

definition with_marks :: "tptr \<Rightarrow> nat \<Rightarrow> alt list \<Rightarrow> nat \<Rightarrow> 'z chans_scheme \<Rightarrow> 'z chans_scheme" where
  "with_marks t b xs n s = s\<lparr>alts := (alts s)(b \<mapsto> marked (b, 0) (Some t) n xs)\<rparr>"

definition wait_for :: "nat \<Rightarrow> nat \<Rightarrow> ('z chans_scheme, cint) prog" where
  "wait_for b n =
     bnd (seqp (queue_alt (b, 0)) [0..<n]) (\<lambda>_.
     bnd taskswitch (\<lambda>_.
     alt_index (b, 0)))"

lemma chanalt_parts:
  assumes run: "taskrunning s = Some t" and ns: "needstack 512 s = Ret () s"
    and xs: "alts s b = Some xs" "find_end xs = Some n"
    and live: "\<And>i. i < n \<Longrightarrow> altcanexec s (xs ! i) \<noteq> None"
  shows "chanalt (b, 0) s =
    (let F = can_list s xs [0..<n];
         s1 = with_marks t b xs n s;
         i = F ! (rnd s (rnds s) mod length F)
     in if F \<noteq> [] then bnd (altexec (b, i)) (\<lambda>_. ret (of_nat i)) (drawn s1)
        else if aop (xs ! n) = CHANEND then wait_for b n s1
        else Ret (- 1) s1)"
proof -
  note n = find_end_Some [OF xs(2)]
  let ?xs = "marked (b, 0) (Some t) n xs" and ?s = "with_marks t b xs n s"
  have can: "altcanexec ?s (?xs ! i) = altcanexec s (xs ! i)" if "i < length xs" for i
    by (rule altcanexec_cong) (simp_all add: with_marks_def marked_nth that)
  have F: "can_list ?s ?xs [0..<n] = can_list s xs [0..<n]"
    unfolding can_list_def by (rule filter_cong [OF refl]) (use can n in auto)
  have alts: "alts ?s b = Some ?xs" "alts (drawn ?s) b = Some ?xs" by (simp_all add: with_marks_def)
  have ok: "i < length ?xs \<and> altcanexec ?s (?xs ! i) \<noteq> None" if "i \<in> set [0..<n]" for i
    using that n live [of i] can [of i] by auto
  have count: "count_can (b, 0) [0..<n] 0 ?s = Ret (length (can_list s xs [0..<n])) ?s"
    using count_can_value [OF alts(1) ok, of "[0..<n]" 0] by (simp add: F)
  have drawn: "altcanexec (drawn ?s) x = altcanexec ?s x" for x by (rule altcanexec_cong) simp_all
  have exec: "exec_nth (b, 0) [0..<n] j (drawn ?s) =
      bnd (altexec (b, can_list s xs [0..<n] ! j)) (\<lambda>_. ret (Some (can_list s xs [0..<n] ! j))) (drawn ?s)"
    if "j < length (can_list s xs [0..<n])" for j
  proof -
    have "can_list (drawn ?s) ?xs [0..<n] = can_list s xs [0..<n]"
      unfolding F [symmetric] by (simp add: can_list_def drawn)
    then show ?thesis
      using exec_nth_value [OF alts(2), of "[0..<n]" j] ok that by (simp add: drawn)
  qed
  have mark: "seqp (mark_alt (b, 0) (Some t)) [0..<n] s = Ret () ?s"
    unfolding with_marks_def by (rule mark_runs [OF xs(1)]) (use n in simp)
  define F where "F = can_list s xs [0..<n]"
  have draw: "bnd rand f ?s = f (rnd s (rnds s)) (drawn ?s)" for f :: "nat \<Rightarrow> ('a chans_scheme, 'b) prog"
    by (simp add: rand_def with_marks_def)
  let ?tail = "\<lambda>found. case found of Some i \<Rightarrow> ret (of_nat i)
    | None \<Rightarrow> if aop (xs ! n) \<noteq> CHANEND then ret (- 1) else wait_for b n"
  have "chanalt (b, 0) s = bnd (seqp (mark_alt (b, 0) (Some t)) [0..<n]) (\<lambda>_.
     bnd (count_can (b, 0) [0..<n] 0) (\<lambda>ncan.
     bnd (if ncan = 0 then ret None else bnd rand (\<lambda>r. exec_nth (b, 0) [0..<n] (r mod ncan))) ?tail)) s"
    using ns run xs
    by (simp add: chanalt_def bnd_def [of "get _"] sem_simps deref_def wait_for_def Let_def cong: option.case_cong)
  also have "\<dots> = bnd (if F = [] then ret None else bnd rand (\<lambda>r. exec_nth (b, 0) [0..<n] (r mod length F))) ?tail ?s"
    using mark count by (simp add: F_def)
  also have "\<dots> = (if F \<noteq> [] then bnd (altexec (b, F ! (rnd s (rnds s) mod length F)))
       (\<lambda>_. ret (of_nat (F ! (rnd s (rnds s) mod length F)))) (drawn ?s)
     else if aop (xs ! n) = CHANEND then wait_for b n ?s else Ret (- 1) ?s)"
  proof (cases "F = []")
    case False
    then have "rnd s (rnds s) mod length F < length F" by simp
    from exec [folded F_def, OF this]
    have "bnd (bnd rand (\<lambda>r. exec_nth (b, 0) [0..<n] (r mod length F))) ?tail ?s =
       bnd (bnd (altexec (b, F ! (rnd s (rnds s) mod length F))) (\<lambda>_. ret (Some (F ! (rnd s (rnds s) mod length F))))) ?tail (drawn ?s)"
      by (simp add: bnd_assoc draw) (simp add: bnd_def bindr_assoc)
    then show ?thesis using False by (simp add: bnd_assoc)
  qed (simp add: ret_def)
  finally show ?thesis by (simp add: F_def Let_def)
qed

section \<open>What the caller keeps\<close>

text \<open>Facts that a task may carry over a call: live channels and objects, and its own word.\<close>

definition knows :: "tptr \<Rightarrow> 'z chans_scheme \<Rightarrow> 'z chans_scheme \<Rightarrow> bool" where
  "knows t s s' \<longleftrightarrow> env_grows s s' \<and> (\<forall>n. accepts s (Some (Local t)) n \<longrightarrow> accepts s' (Some (Local t)) n)"

lemma keep_knows: "chan_keep t s s' \<Longrightarrow> knows t s s'"
  by (simp add: chan_keep_def own_kept_def knows_def)

lemma knows_trans: "knows t s s' \<Longrightarrow> knows t s' s'' \<Longrightarrow> knows t s s''"
  unfolding knows_def using env_grows_trans by blast

definition ready_block :: "tptr \<Rightarrow> nat \<Rightarrow> nat \<Rightarrow> 'z chans_scheme \<Rightarrow> bool" where
  "ready_block t b n s \<longleftrightarrow>
     (\<exists>xs. block_ok s t b xs n \<and> unqueued s b \<and> (atask (xs ! 0) = None \<or> atask (xs ! 0) = Some t))"

definition used_block :: "tptr \<Rightarrow> nat \<Rightarrow> nat \<Rightarrow> 'z chans_scheme \<Rightarrow> bool" where
  "used_block t b n s \<longleftrightarrow>
     (\<exists>xs. alts s b = Some xs \<and> find_end xs = Some n \<and> 0 < n \<and> (\<forall>i < n. atask (xs ! i) = Some t) \<and>
        (\<exists>k. axalt (xs ! 0) = Some (b, k)))"

lemma used_block_kept:
  assumes "used_block t b n s" and "own_kept t s s'"
  shows "used_block t b n s'"
proof -
  obtain xs where xs: "alts s b = Some xs" "find_end xs = Some n" "0 < n" "\<And>i. i < n \<Longrightarrow> atask (xs ! i) = Some t"
    "\<exists>k. axalt (xs ! 0) = Some (b, k)"
    using assms(1) unfolding used_block_def by blast
  then obtain x ys where e: "xs = x # ys" using find_end_Some [OF xs(2)] by (cases xs) auto
  obtain z where z: "alts s' b = Some (x\<lparr>axalt := z\<rparr> # ys)"
      "(\<exists>k. axalt x = Some (b, k)) \<longrightarrow> (\<exists>k. z = Some (b, k))"
    using assms(2) xs(1) xs(4) [OF xs(3)] e unfolding own_kept_def by fastforce
  have "find_end (x\<lparr>axalt := z\<rparr> # ys) = Some n"
    using xs(2) e find_end_cong [of "x\<lparr>axalt := z\<rparr> # ys" xs] by simp
  moreover have "atask ((x\<lparr>axalt := z\<rparr> # ys) ! i) = Some t" if "i < n" for i
    using xs(4) [OF that] e by (cases i) simp_all
  ultimately show ?thesis
    unfolding used_block_def using z xs(3,5) e by (intro exI [of _ "x\<lparr>axalt := z\<rparr> # ys"]) simp
qed

lemma used_block_unqueued:
  assumes inv: "chan_inv s B" and u: "used_block t b n s" and t: "t \<notin> B"
  shows "unqueued s b"
  unfolding unqueued_def
proof (intro allI impI notI)
  fix c d p
  assume p: "p \<in> waits s c d" "fst p = b"
  then show False
    using chan_invD(4) [OF inv p(1)] u t unfolding entry_ok_def used_block_def by auto
qed

lemma alt_index_used:
  assumes "used_block t b n s"
  shows "\<exists>k. alt_index (b, 0) s = Ret k s"
proof -
  obtain xs k where "at s (b, 0) (xs ! 0)" "axalt (xs ! 0) = Some (b, k)"
    using assms find_end_Some unfolding used_block_def at_def by fastforce
  then show ?thesis by (auto simp: alt_index_def deref_def load_alt_at ret_def)
qed

text \<open>Marking the array.\<close>

lemma marks_used:
  assumes "block_ok s t b xs n"
  shows "used_block t b n (with_marks t b xs n s)"
proof -
  have n: "0 < n" "n < length xs" and e: "alts s b = Some xs" "find_end xs = Some n"
    using assms find_end_Some [of xs n] by (auto simp: block_ok_def)
  then have "xs \<noteq> []" by auto
  then show ?thesis
    unfolding used_block_def using n e
    by (intro exI [of _ "marked (b, 0) (Some t) n xs"]) (simp add: with_marks_def marked_nth)
qed

lemma marks_keep:
  assumes blk: "block_ok s t b xs n" and h: "atask (xs ! 0) = None \<or> atask (xs ! 0) = Some t"
  shows "only_chans s (with_marks t b xs n s)" and "u \<noteq> t \<Longrightarrow> chan_keep u s (with_marks t b xs n s)"
    and "knows t s (with_marks t b xs n s)" and "chan_fresh s \<Longrightarrow> chan_fresh (with_marks t b xs n s)"
    and "calm s (with_marks t b xs n s)" and "queues_ok s L \<Longrightarrow> queues_ok (with_marks t b xs n s) L"
proof -
  let ?s = "with_marks t b xs n s"
  have b: "alts s b = Some xs" using blk by (simp add: block_ok_def)
  have acc: "accepts ?s v k = accepts s v k" for v k by (simp add: with_marks_def accepts_def)
  have env: "env_grows s ?s" by (simp add: env_grows_def acc) (simp add: with_marks_def)
  then show "knows t s ?s" by (simp add: knows_def acc)
  show "only_chans s ?s"
  proof (rule only_chansI)
    show "sched.more ?s = sched.more (s\<lparr>chan := chan s, cbrk := cbrk s,
        alts := (alts s)(b \<mapsto> marked (b, 0) (Some t) n xs), abrk := abrk s, umem := umem s, ubrk := ubrk s,
        rnds := rnds s\<rparr>)"
      by (cases s) (simp add: with_marks_def)
  qed
  show "chan_keep u s ?s" if u: "u \<noteq> t"
  proof -
    have "own_kept u s ?s"
      unfolding own_kept_def acc
    proof (intro conjI allI impI)
      fix b' x ys
      assume x: "alts s b' = Some (x # ys)" "atask x = Some u"
      then have "b' \<noteq> b" using b h u by auto
      then show "\<exists>z. alts ?s b' = Some (x\<lparr>axalt := z\<rparr> # ys) \<and>
          ((\<exists>k. axalt x = Some (b', k)) \<longrightarrow> (\<exists>k. z = Some (b', k)))"
        using x by (intro exI [of _ "axalt x"]) (simp add: with_marks_def)
    qed
    then show ?thesis using env by (simp add: chan_keep_def)
  qed
  show "chan_fresh s \<Longrightarrow> chan_fresh ?s" using b by (simp add: chan_fresh_def with_marks_def)
  show "calm s ?s" "queues_ok s L \<Longrightarrow> queues_ok ?s L" by (simp_all add: with_marks_def calm_def queues_ok_def)
qed

lemma marks_inv:
  assumes inv: "chan_inv s B" and free: "unqueued s b"
  shows "chan_inv (with_marks t b xs n s) B"
proof (rule chan_inv_sub [OF inv, where X = "{b}"])
  let ?s = "with_marks t b xs n s"
  show "rel_option (chan_moved s c) (chan s c) (chan ?s c)" for c
    using chan_invD(1,2) [OF inv] by (cases "chan s c") (auto simp: with_marks_def chan_moved_def arrays_ok_def)
  show "waits ?s c d = {p \<in> waits s c d. fst p \<notin> {b}}" for c d
  proof -
    have "waits ?s c d = waits s c d" by (simp add: waits_def with_marks_def)
    then show ?thesis using free unfolding unqueued_def by blast
  qed
  show "alts ?s b' = alts s b'" if "b' \<notin> {b}" for b' using that by (simp add: with_marks_def)
  show "accepts s (Some v) k \<Longrightarrow> accepts ?s (Some v) k" for v k by (simp add: with_marks_def accepts_def)
qed

lemma chan_inv_cong:
  assumes inv: "chan_inv s B" and e: "chan s' = chan s" "alts s' = alts s" "umem s' = umem s"
  shows "chan_inv s' B"
proof (rule chan_inv_sub [OF inv, where X = "{}"])
  show "rel_option (chan_moved s c) (chan s c) (chan s' c)" for c
    using chan_invD(1,2) [OF inv] by (cases "chan s c") (auto simp: e chan_moved_def arrays_ok_def)
  show "accepts s (Some v) k \<Longrightarrow> accepts s' (Some v) k" for v k by (simp add: e accepts_def)
qed (simp_all add: e waits_def)

text \<open>Drawing a random number.\<close>

lemma drawn_keeps:
  "chan_step s (drawn s)" "calm s (drawn s)" "queues_ok s L \<Longrightarrow> queues_ok (drawn s) L"
proof -
  have "only_chans s (drawn s)"
  proof (rule only_chansI)
    show "sched.more (drawn s) = sched.more (s\<lparr>chan := chan s, cbrk := cbrk s, alts := alts s,
        abrk := abrk s, umem := umem s, ubrk := ubrk s, rnds := Suc (rnds s)\<rparr>)" by (cases s) simp
  qed
  moreover have "chan_keep u s (drawn s)" for u by (rule keep_cong) simp_all
  ultimately show "chan_step s (drawn s)" by (simp add: chan_step_def chan_fresh_def)
qed (simp_all add: calm_def queues_ok_def)

lemma enqueued_keeps:
  assumes e: "enqueued b xs n s s'"
  shows "chan_step s s'" "calm s s'" "queues_ok s L \<Longrightarrow> queues_ok s' L"
proof -
  obtain j f where s': "s' = s\<lparr>allocs := j, chan := f\<rparr>"
    and f: "\<And>c. rel_option (chan_more (new_waits b xs n c)) (chan s c) (f c)"
    using e by (rule enqueuedE) blast
  show "calm s s'" "queues_ok s L \<Longrightarrow> queues_ok s' L" by (simp_all add: s' calm_def queues_ok_def)
  have "only_chans s s'"
  proof (rule only_chansI)
    show "sched.more s' = sched.more (s\<lparr>chan := f, cbrk := cbrk s, alts := alts s,
        abrk := abrk s, umem := umem s, ubrk := ubrk s, rnds := rnds s\<rparr>)" by (cases s) (simp add: s')
  qed
  moreover have "own_kept u s s'" for u by (rule own_kept_same) (simp_all add: s' accepts_def)
  moreover have "env_grows s s'"
  proof -
    have "\<exists>x'. chan s' c = Some x' \<and> elemsize x' = elemsize x" if "chan s c = Some x" for c x
      using f [of c] that by (cases "f c") (simp_all add: s' chan_more_def same_data_def)
    then show ?thesis by (simp add: env_grows_def) (simp add: s' accepts_def)
  qed
  moreover have "chan_fresh s'" if "chan_fresh s"
    using that rel_option_dom [of "\<lambda>c. chan_more (new_waits b xs n c)", OF f]
    by (simp add: chan_fresh_def s')
  ultimately show "chan_step s s'" by (simp add: chan_step_def chan_keep_def)
qed

section \<open>Safety\<close>

locale chan_client = rendez_client J Keep naps Pre
  for J :: "'z chans_scheme \<Rightarrow> tptr set \<Rightarrow> bool"
    and Keep :: "tptr \<Rightarrow> 'z chans_scheme \<Rightarrow> 'z chans_scheme \<Rightarrow> bool"
    and naps :: "'z chans_scheme \<Rightarrow> int"
    and Pre :: "'z chans_scheme \<Rightarrow> nat \<Rightarrow> uint \<Rightarrow> bool" +
  fixes Rest :: "'z chans_scheme \<Rightarrow> tptr set \<Rightarrow> bool"
  assumes J_split: "J s A \<longleftrightarrow> chan_fresh s \<and> (\<exists>B \<subseteq> A. chan_inv s B \<and> Rest s (A - B))"
    and Rest_mono: "Rest s A \<Longrightarrow> A \<subseteq> A' \<Longrightarrow> Rest s A'"
    and Rest_only: "only_chans s s' \<Longrightarrow> Rest s' A = Rest s A"
    and Keep_chan: "Keep u s s' \<Longrightarrow> chan_keep u s s'"
    and Keep_only: "only_chans s s' \<Longrightarrow> chan_keep u s s' \<Longrightarrow> Keep u s s'"
    and naps_only: "only_chans s s' \<Longrightarrow> naps s' = naps s"
begin

text \<open>The state of a running task, with the tasks \<open>B\<close> that wait for channels.\<close>

definition RunB :: "tptr \<Rightarrow> queues \<Rightarrow> tptr set \<Rightarrow> 'z chans_scheme \<Rightarrow> bool" where
  "RunB t L B s \<longleftrightarrow> RunL t L s \<and> B \<subseteq> parked s L \<and> chan_inv s B \<and> Rest s (parked s L - B)"

lemma Run_RunB: "Run t s \<longleftrightarrow> (\<exists>L B. RunB t L B s)"
proof
  assume "Run t s"
  then obtain L where r: "RunL t L s" by (auto simp: Run_RunL)
  with RunL_D(7) [OF r] show "\<exists>L B. RunB t L B s" unfolding RunB_def J_split by blast
next
  show "\<exists>L B. RunB t L B s \<Longrightarrow> Run t s" by (auto simp: Run_RunL RunB_def)
qed

lemma RunB_D:
  assumes "RunB t L B s"
  shows "RunL t L s" "Run t s" "queues_ok s L" "taskrunning s = Some t" "t \<in> dom (tasks s)" "\<not> queued L t"
    "chan_inv s B" "t \<notin> B" "chan_fresh s"
    "\<And>u. u \<in> B \<Longrightarrow> u \<in> dom (tasks s) \<and> \<not> queued L u"
proof -
  have r: "RunL t L s" and b: "B \<subseteq> parked s L" "chan_inv s B" using assms by (simp_all add: RunB_def)
  show "RunL t L s" by (rule r)
  show "Run t s" by (rule RunL_Run [OF r])
  show "queues_ok s L" "t \<in> dom (tasks s)" "\<not> queued L t" by (rule RunL_D [OF r])+
  show run: "taskrunning s = Some t" by (rule RunL_D(2) [OF r])
  show "chan_inv s B" by (rule b(2))
  show "t \<notin> B" using b(1) run by (auto simp: parked_def)
  show "chan_fresh s" using RunL_D(7) [OF r] by (simp_all add: J_split)
  show "u \<in> dom (tasks s) \<and> \<not> queued L u" if "u \<in> B" for u using b(1) that by (auto simp: parked_def)
qed

lemma Others_chan: "only_chans s s' \<Longrightarrow> (\<And>u. u \<noteq> t \<Longrightarrow> chan_keep u s s') \<Longrightarrow> Others t s s'"
  by (simp add: Others_def Keep_only)

lemma Others_step: "chan_step s s' \<Longrightarrow> Others t s s'"
  by (rule Others_chan) (simp_all add: chan_step_def)

text \<open>A step of the channels that wakes \<open>B - B'\<close>.\<close>

lemma step_RunB:
  assumes r: "RunB t L B s" and c: "calm s s'" and only: "only_chans s s'" and o: "Others t s s'"
    and fresh: "chan_fresh s'" and inv: "chan_inv s' B'" and B': "B' \<subseteq> B"
    and q: "queues_ok s' L'" and L': "\<And>p. queued L' p \<longleftrightarrow> queued L p \<or> p \<in> B - B'"
    and S: "L' Sleeping = L Sleeping"
  shows "RunB t L' B' s'"
proof -
  note D = RunB_D [OF r]
  have "parked s' L' = parked s L - (B - B')"
    using calm_dom [OF c] c L' by (auto simp: parked_def calm_def)
  moreover have "B \<subseteq> parked s L" and rest: "Rest s (parked s L - B)" using r by (simp_all add: RunB_def)
  ultimately have sub: "B' \<subseteq> parked s' L'" and eq: "parked s' L' - B' = parked s L - B"
    using B' by auto
  have rest': "Rest s' (parked s' L' - B')" using rest Rest_only [OF only] eq by simp
  have "J s' (parked s' L')"
    unfolding J_split using fresh inv sub rest' by blast
  moreover have "\<not> queued L' t" using L' D(6,8) B' by blast
  ultimately have "RunL t L' s'" by (rule calm_RunL [OF D(1) mildI [where L = L and L' = L', OF c q S naps_only [OF only] o]])
  then show ?thesis using sub inv rest' by (simp add: RunB_def)
qed

lemma exec_done_RunB:
  assumes r: "RunB t L B s" and e: "exec_done s B L s'"
  obtains L' B' where "RunB t L' B' s'"
proof -
  obtain B' L' where e: "chan_inv s' B'" "B' \<subseteq> B" "queues_ok s' L'" "calm s s'" "chan_step s s'"
      "\<And>p. queued L' p \<longleftrightarrow> queued L p \<or> p \<in> B - B'" "L' Sleeping = L Sleeping"
    using e unfolding exec_done_def by blast
  have "only_chans s s'" "chan_fresh s'"
    using e(5) RunB_D(9) [OF r] by (simp_all add: chan_step_def chan_keep_def)
  from step_RunB [OF r e(4) this(1) Others_step [OF e(5)] this(2) e(1,2,3,6,7)] show ?thesis by (rule that)
qed

lemma marks_RunB:
  assumes r: "RunB t L B s" and blk: "block_ok s t b xs n" and free: "unqueued s b"
    and h: "atask (xs ! 0) = None \<or> atask (xs ! 0) = Some t"
  shows "RunB t L B (with_marks t b xs n s)" and "Others t s (with_marks t b xs n s)"
proof -
  note k = marks_keep [OF blk h]
  show o: "Others t s (with_marks t b xs n s)" by (rule Others_chan [OF k(1,2)])
  from step_RunB [OF r k(5,1) o k(4) [OF RunB_D(9) [OF r]] marks_inv [OF RunB_D(7) [OF r] free] subset_refl
      k(6) [OF RunB_D(3) [OF r]]]
  show "RunB t L B (with_marks t b xs n s)" by simp
qed

lemma drawn_RunB: "RunB t L B s \<Longrightarrow> RunB t L B (drawn s)"
proof -
  assume r: "RunB t L B s"
  have "only_chans s (drawn s)" "Others t s (drawn s)" "chan_fresh (drawn s)"
    using drawn_keeps(1) [of s] RunB_D(9) [OF r] Others_step by (simp_all add: chan_step_def)
  moreover have "chan_inv (drawn s) B" by (rule chan_inv_cong [OF RunB_D(7) [OF r]]) simp_all
  ultimately show ?thesis
    using step_RunB [OF r drawn_keeps(2), of B L] drawn_keeps(3) [OF RunB_D(3) [OF r]] by simp
qed

text \<open>The operations of the array are queued: the turn of the task may end.\<close>

lemma enqueued_Stop:
  assumes r: "RunB t L B s" and e: "enqueued b xs n s s'" and inv: "chan_inv s' (insert t B)"
  shows "Stop t s'"
proof -
  note D = RunB_D [OF r] and k = enqueued_keeps [OF e]
  have only: "only_chans s s'" and fresh: "chan_fresh s'"
    using k(1) D(9) by (simp_all add: chan_step_def)
  let ?P = "parked (s'\<lparr>taskrunning := None\<rparr>) L"
  have P: "?P = insert t (parked s L)"
    using calm_dom [OF k(2)] D(4,5,6) by (auto simp: parked_def)
  have b: "B \<subseteq> parked s L" and rest: "Rest s (parked s L - B)" using r by (simp_all add: RunB_def)
  have "t \<notin> parked s L" using D(4) by (simp add: parked_def)
  then have "?P - insert t B = parked s L - B" unfolding P by blast
  then have "Rest s' (?P - insert t B)" using rest Rest_only [OF only] by simp
  moreover have "insert t B \<subseteq> ?P" unfolding P using b by blast
  ultimately have "J s' ?P" unfolding J_split using fresh inv by blast
  then show ?thesis
    by (rule calm_Stop_parked [OF D(1) mildI [where L = L and L' = L, OF k(2) k(3) [OF D(3)] refl naps_only [OF only] Others_step [OF k(1)]]])
qed

lemma wait_for_safe:
  assumes r: "RunB t L B s" and blk: "block_ok s t b xs n" and free: "unqueued s b" and u: "used_block t b n s"
    and marks: "\<And>i. i < n \<Longrightarrow> atask (xs ! i) = Some t \<and> axalt (xs ! i) = Some (b, 0)"
    and none: "\<And>i. i < n \<Longrightarrow> altcanexec s (xs ! i) = Some False"
    and o: "Others t s0 s" and P: "P s" and stable: "\<And>s s'. knows t s s' \<Longrightarrow> P s \<Longrightarrow> P s'"
  shows "safe_for t (\<lambda>s0 a s'. Run t s' \<and> Others t s0 s' \<and> used_block t b n s' \<and> P s') (wait_for b n s) s0"
proof -
  note D = RunB_D [OF r]
  have xs: "alts s b = Some xs" "n \<le> length xs"
    using blk find_end_Some [of xs n] by (auto simp: block_ok_def)
  have op: "aop (xs ! i) = CHANNOP \<or>
      (\<exists>d x. chanarray (aop (xs ! i)) = Some d \<and> chan s (ac (xs ! i)) = Some x)" if "i < n" for i
    using blk that unfolding block_ok_def by blast
  have fresh: "fst p \<noteq> b" if "p \<in> waits s c d" for p c d
    using free that unfolding unqueued_def by blast
  have "runs_or NoMemory (seqp (queue_alt (b, 0)) [0..<n]) s (\<lambda>_. enqueued b xs n s)"
    by (rule queue_runs [OF xs fresh chan_invD(2) [OF D(7)] op])
  then consider (mem) "halts (seqp (queue_alt (b, 0)) [0..<n]) s NoMemory"
    | (ok) s2 where "seqp (queue_alt (b, 0)) [0..<n] s = Ret () s2" "enqueued b xs n s s2"
    by (auto simp: runs_or_def runs_def)
  then show ?thesis
  proof cases
    case mem
    then show ?thesis by (auto simp: halts_def wait_for_def safe_for_def)
  next
    case ok
    note k = enqueued_keeps [OF ok(2)]
    have stop: "Stop t s2"
      by (rule enqueued_Stop [OF r ok(2) enqueued_inv [OF D(7) blk free D(8) marks none ok(2)]])
    have keep: "chan_keep t s s2" using k(1) by (simp add: chan_step_def)
    have u2: "used_block t b n s2" and P2: "P s2"
      using used_block_kept [OF u] keep stable [OF keep_knows [OF keep] P] by (simp_all add: chan_keep_def)
    have o2: "Others t s0 s2" using Others_trans [OF o Others_step [OF k(1)]] .
    obtain x where x: "taskrunning s2 = Some t" "tasks s2 t = Some x"
      using stop by (auto simp: Stop_def)
    then have "taskswitch s2 = Halt Abort s2 \<or> taskswitch s2 = Switch s2 (ret ())"
      by (simp add: taskswitch_def needstack_def running_def bnd_def deref_def load_task_def sem_simps)
    moreover have "safe_for t (\<lambda>s0 a s'. Run t s' \<and> Others t s0 s' \<and> used_block t b n s' \<and> P s')
        (alt_index (b, 0) s') s'" if res: "Resume t s2 s'" for s'
    proof -
      have keep: "chan_keep t s2 s'" and run: "Run t s'" using res Keep_chan by (simp_all add: Resume_def)
      have "used_block t b n s'" "P s'"
        using used_block_kept [OF u2] keep stable [OF keep_knows [OF keep] P2] by (simp_all add: chan_keep_def)
      moreover obtain i where "alt_index (b, 0) s' = Ret i s'" using alt_index_used calculation(1) by blast
      ultimately show ?thesis using run by (simp add: safe_for_def)
    qed
    ultimately show ?thesis
      using ok(1) stop o2 by (auto simp: wait_for_def safe_for_def ret_def bnd_def [of taskswitch])
  qed
qed

lemma Safe_chanalt:
  assumes stable: "\<And>s s'. knows t s s' \<Longrightarrow> P s \<Longrightarrow> P s'"
  shows "Safe t (\<lambda>s. ready_block t b n s \<and> P s) (chanalt (b, 0)) (\<lambda>_ s. used_block t b n s \<and> P s)"
  unfolding Safe_def
proof (intro allI impI, elim conjE)
  let ?Q = "\<lambda>s0 a s'. Run t s' \<and> Others t s0 s' \<and> used_block t b n s' \<and> P s'"
  fix s
  assume "Run t s" and ready: "ready_block t b n s" and P: "P s"
  then obtain L B where r: "RunB t L B s" by (auto simp: Run_RunB)
  note D = RunB_D [OF r]
  obtain xs where blk: "block_ok s t b xs n" and free: "unqueued s b"
    and h: "atask (xs ! 0) = None \<or> atask (xs ! 0) = Some t"
    using ready unfolding ready_block_def by blast
  have xs: "alts s b = Some xs" "find_end xs = Some n" "n < length xs"
    using blk find_end_Some [of xs n] by (auto simp: block_ok_def)
  have op: "aop (xs ! i) = CHANNOP \<or>
        (\<exists>d x. chanarray (aop (xs ! i)) = Some d \<and> chan s (ac (xs ! i)) = Some x \<and>
           operand_ok s t (av (xs ! i)) (elemsize x))" if "i < n" for i
    using blk that unfolding block_ok_def by blast
  have live: "altcanexec s (xs ! i) \<noteq> None" if "i < n" for i
    using op [OF that] by (auto simp: altcanexec_def)
  let ?s = "with_marks t b xs n s" and ?xs = "marked (b, 0) (Some t) n xs" and ?F = "can_list s xs [0..<n]"
  have r1: "RunB t L B ?s" and o1: "Others t s ?s" by (rule marks_RunB [OF r blk free h])+
  have u1: "used_block t b n ?s" by (rule marks_used [OF blk])
  have P1: "P ?s" by (rule stable [OF marks_keep(3) [OF blk h] P])
  have same: "chan ?s = chan s" "umem ?s = umem s" by (simp_all add: with_marks_def)
  have xs1: "alts ?s b = Some ?xs" by (simp add: with_marks_def)
  from needstack_cases [OF D(4,5), of 512] show "safe_for t ?Q (chanalt (b, 0) s) s"
  proof
    assume "needstack 512 s = Halt Abort s"
    then show ?thesis by (simp add: chanalt_def safe_for_def)
  next
    assume ns: "needstack 512 s = Ret () s"
    note parts = chanalt_parts [OF D(4) ns xs(1,2) live]
    show ?thesis
    proof (cases "?F = []")
      case none: False
      define i where "i = ?F ! (rnd s (rnds s) mod length ?F)"
      have "rnd s (rnds s) mod length ?F < length ?F" using none by simp
      then have "i \<in> set ?F" unfolding i_def by (rule nth_mem)
      then have i: "i < n" and can: "altcanexec s (xs ! i) = Some True" by (auto simp: can_list_def)
      then have "aop (xs ! i) \<noteq> CHANNOP" by (auto simp: altcanexec_def)
      then obtain d x where d: "chanarray (aop (xs ! i)) = Some d" and x: "chan s (ac (xs ! i)) = Some x"
        and operand: "operand_ok s t (av (xs ! i)) (elemsize x)" using op [OF i] by blast
      let ?y = "?xs ! i"
      have y: "aop ?y = aop (xs ! i)" "ac ?y = ac (xs ! i)" "av ?y = av (xs ! i)"
        using i xs(3) by (simp_all add: marked_nth)
      have "runs (altexec (b, i)) (drawn ?s) (\<lambda>_. exec_done (drawn ?s) B L)"
      proof (rule altexec_keeps)
        have rd: "RunB t L B (drawn ?s)" by (rule drawn_RunB [OF r1])
        show "chan_inv (drawn ?s) B" "queues_ok (drawn ?s) L" by (rule RunB_D [OF rd])+
        show "at (drawn ?s) (b, i) ?y" using xs1 i xs(3) by (simp add: at_def)
        show "chan (drawn ?s) (ac ?y) = Some x" using x y(2) by (simp add: same)
        show "chanarray (aop ?y) = Some d" using d y(1) by simp
        show "altcanexec (drawn ?s) ?y = Some True"
          using can altcanexec_cong [of "drawn ?s" s ?y "xs ! i"] y by (simp add: same)
        show "accepts (drawn ?s) (av ?y) (unat (elemsize x))"
          using operand y(3) by (simp add: operand_ok_def accepts_def same)
        show "u \<in> dom (tasks (drawn ?s)) \<and> \<not> queued L u" if "u \<in> B" for u by (rule RunB_D(10) [OF rd that])
      qed
      then obtain s2 where s2: "altexec (b, i) (drawn ?s) = Ret () s2" "exec_done (drawn ?s) B L s2"
        by (rule runsE) simp
      obtain L' B' where "RunB t L' B' s2" by (rule exec_done_RunB [OF drawn_RunB [OF r1] s2(2)])
      then have run: "Run t s2" by (rule RunB_D)
      have step: "chan_step (drawn ?s) s2" using s2(2) unfolding exec_done_def by blast
      have keep: "chan_keep t ?s s2"
        using step drawn_keeps(1) [of ?s] chan_keep_trans unfolding chan_step_def by blast
      have "used_block t b n s2" "P s2"
        using used_block_kept [OF u1] keep stable [OF keep_knows [OF keep] P1] by (simp_all add: chan_keep_def)
      moreover have "Others t s s2"
        using Others_trans [OF Others_trans [OF o1 Others_step [OF drawn_keeps(1)]] Others_step [OF step]] .
      moreover have "chanalt (b, 0) s = Ret (of_nat i) s2"
        using parts none s2(1) by (simp add: i_def [symmetric] Let_def ret_def)
      ultimately show ?thesis using run by (simp add: safe_for_def)
    next
      case none: True
      show ?thesis
      proof (cases "aop (xs ! n) = CHANEND")
        case False
        then have "chanalt (b, 0) s = Ret (- 1) ?s" using parts none by (simp add: Let_def)
        then show ?thesis using RunB_D(2) [OF r1] o1 u1 P1 by (simp add: safe_for_def)
      next
        case True
        then have "chanalt (b, 0) s = wait_for b n ?s" using parts none by (simp add: Let_def)
        moreover have "safe_for t ?Q (wait_for b n ?s) s"
        proof (rule wait_for_safe [OF r1])
          show "unqueued ?s b" by (rule used_block_unqueued [OF RunB_D(7) [OF r1] u1 RunB_D(8) [OF r1]])
          have "find_end ?xs = Some n" using xs(2) by simp
          moreover have "0 < n" using blk by (simp add: block_ok_def)
          moreover have "aop (?xs ! i) = CHANNOP \<or> (\<exists>d x. chanarray (aop (?xs ! i)) = Some d \<and>
              chan ?s (ac (?xs ! i)) = Some x \<and> operand_ok ?s t (av (?xs ! i)) (elemsize x))" if "i < n" for i
            using op [OF that] that xs(3) by (simp add: marked_nth same operand_ok_def accepts_def)
          ultimately show "block_ok ?s t b ?xs n" unfolding block_ok_def using xs1 by blast
          show "atask (?xs ! i) = Some t \<and> axalt (?xs ! i) = Some (b, 0)" if "i < n" for i
            using that xs(3) by (simp add: marked_nth)
          show "altcanexec ?s (?xs ! i) = Some False" if "i < n" for i
          proof -
            have "altcanexec s (xs ! i) \<noteq> Some True"
              using none that by (auto simp: can_list_def filter_empty_conv)
            then have "altcanexec s (xs ! i) = Some False" using live [OF that] by auto
            moreover have "altcanexec ?s (?xs ! i) = altcanexec s (xs ! i)"
              by (rule altcanexec_cong) (use that xs(3) in \<open>simp_all add: marked_nth same\<close>)
            ultimately show ?thesis by simp
          qed
        qed (use u1 o1 P1 stable in blast)+
        ultimately show ?thesis by simp
      qed
    qed
  qed
qed

text \<open>Changes of the channels' state that leave the waiting tasks alone.\<close>

lemma chan_update:
  assumes r: "RunB t L B s" and c: "calm s s'" and q: "queues_ok s' L"
    and only: "only_chans s s'" and env: "env_grows s s'" and fresh: "chan_fresh s'"
    and inv: "chan_inv s' B" and keep: "\<And>u. u \<noteq> t \<Longrightarrow> own_kept u s s'"
  shows "Run t s' \<and> Others t s s'"
proof -
  have o: "Others t s s'" by (rule Others_chan [OF only]) (simp add: chan_keep_def env keep)
  have "RunB t L B s'" by (rule step_RunB [OF r c only o fresh inv subset_refl q]) simp_all
  then have "Run t s'" by (rule RunB_D)
  then show ?thesis using o ..
qed

lemma fresh_unqueued:
  assumes "chan_inv s B" and "chan_fresh s" and "abrk s \<le> b"
  shows "unqueued s b"
  unfolding unqueued_def
proof (intro allI impI notI)
  fix c d p
  assume "p \<in> waits s c d" "fst p = b"
  then obtain xs where "alts s b = Some xs" using chan_invD(4) [OF assms(1)] unfolding entry_ok_def by blast
  then show False using assms(2,3) unfolding chan_fresh_def by (metis not_le option.distinct(1))
qed

text \<open>A change of the arrays of \<open>Alt\<close> at \<open>b\<close> alone.\<close>

lemma alts_update:
  assumes r: "RunB t L B s" and free: "unqueued s b" and fresh: "abrk s \<le> k" "xs \<noteq> None \<longrightarrow> b < k"
    and h: "\<And>x ys. alts s b = Some (x # ys) \<Longrightarrow> atask x = Some t"
  shows "Run t (s\<lparr>abrk := k, alts := (alts s)(b := xs)\<rparr>) \<and> Others t s (s\<lparr>abrk := k, alts := (alts s)(b := xs)\<rparr>)"
proof (rule chan_update [OF r])
  let ?s = "s\<lparr>abrk := k, alts := (alts s)(b := xs)\<rparr>"
  note D = RunB_D [OF r]
  show "calm s ?s" "queues_ok ?s L" using D(3) by (simp_all add: calm_def queues_ok_def)
  have acc: "accepts ?s v m = accepts s v m" for v m by (simp add: accepts_def)
  show "only_chans s ?s"
  proof (rule only_chansI)
    show "sched.more ?s = sched.more (s\<lparr>chan := chan s, cbrk := cbrk s, alts := (alts s)(b := xs),
        abrk := k, umem := umem s, ubrk := ubrk s, rnds := rnds s\<rparr>)" by (cases s) simp
  qed
  show "env_grows s ?s" by (simp add: env_grows_def acc)
  show "chan_fresh ?s" using D(9) fresh by (auto simp: chan_fresh_def intro: less_le_trans)
  show "chan_inv ?s B"
  proof (rule chan_inv_sub [OF D(7), where X = "{b}"])
    show "rel_option (chan_moved s c) (chan s c) (chan ?s c)" for c
      using chan_invD(1,2) [OF D(7)] by (cases "chan s c") (auto simp: chan_moved_def arrays_ok_def)
    have "waits ?s c d = waits s c d" for c d by (simp add: waits_def)
    then show "waits ?s c d = {p \<in> waits s c d. fst p \<notin> {b}}" for c d
      using free unfolding unqueued_def by blast
  qed (simp_all add: acc)
  show "own_kept u s ?s" if u: "u \<noteq> t" for u
    unfolding own_kept_def acc
  proof (intro conjI allI impI)
    fix b' x ys
    assume x: "alts s b' = Some (x # ys)" "atask x = Some u"
    then have "b' \<noteq> b" using h u by auto
    then show "\<exists>z. alts ?s b' = Some (x\<lparr>axalt := z\<rparr> # ys) \<and>
        ((\<exists>k. axalt x = Some (b', k)) \<longrightarrow> (\<exists>k. z = Some (b', k)))"
      using x by (intro exI [of _ "axalt x"]) simp
  qed
qed

lemma Safe_new_alts:
  assumes stable: "\<And>s s'. knows t s s' \<Longrightarrow> P s \<Longrightarrow> P s'" and n: "find_end xs = Some n" "0 < n"
    and op: "\<And>s i. P s \<Longrightarrow> i < n \<Longrightarrow> aop (xs ! i) = CHANNOP \<or>
        (\<exists>d x. chanarray (aop (xs ! i)) = Some d \<and> chan s (ac (xs ! i)) = Some x \<and>
           operand_ok s t (av (xs ! i)) (elemsize x))"
    and h: "atask (xs ! 0) = None"
  shows "Safe t P (new_alts xs) (\<lambda>b s. ready_block t b n s \<and> P s)"
proof (rule Safe_runs)
  fix s
  assume "Run t s" and P: "P s"
  then obtain L B where r: "RunB t L B s" by (auto simp: Run_RunB)
  note D = RunB_D [OF r]
  let ?b = "abrk s"
  let ?s = "s\<lparr>abrk := Suc ?b, alts := (alts s)(?b \<mapsto> xs)\<rparr>"
  have none: "alts s ?b = None" using D(9) unfolding chan_fresh_def by (metis less_irrefl)
  have free: "unqueued s ?b" by (rule fresh_unqueued [OF D(7,9)]) simp
  have "Run t ?s \<and> Others t s ?s" by (rule alts_update [OF r free]) (simp_all add: none)
  moreover have "knows t s ?s"
    by (simp add: knows_def env_grows_def accepts_def)
  then have P': "P ?s" using stable P by blast
  moreover have "ready_block t ?b n ?s"
  proof -
    have "waits ?s c d = waits s c d" for c d by (simp add: waits_def)
    then have "unqueued ?s ?b" using free unfolding unqueued_def by blast
    moreover have "block_ok ?s t ?b xs n" using n op [OF P'] by (simp add: block_ok_def)
    ultimately show ?thesis unfolding ready_block_def using h by blast
  qed
  ultimately show "runs (new_alts xs) s (\<lambda>b s'. Run t s' \<and> Others t s s' \<and> ready_block t b n s' \<and> P s')"
    by (simp add: runs_def new_alts_def)
qed

lemma Safe_free_alts:
  assumes stable: "\<And>s s'. knows t s s' \<Longrightarrow> P s \<Longrightarrow> P s'"
  shows "Safe t (\<lambda>s. used_block t b n s \<and> P s) (free_alts b) (\<lambda>_. P)"
proof (rule Safe_runs, elim conjE)
  fix s
  assume "Run t s" and u: "used_block t b n s" and P: "P s"
  then obtain L B where r: "RunB t L B s" by (auto simp: Run_RunB)
  note D = RunB_D [OF r]
  let ?s = "s\<lparr>abrk := abrk s, alts := (alts s)(b := None)\<rparr>"
  have eq: "?s = s\<lparr>alts := (alts s)(b := None)\<rparr>" by simp
  have "Run t ?s \<and> Others t s ?s"
  proof (rule alts_update [OF r used_block_unqueued [OF D(7) u D(8)]])
    show "atask x = Some t" if "alts s b = Some (x # ys)" for x ys
      using u that by (auto simp: used_block_def)
  qed simp_all
  moreover have "knows t s ?s" by (simp add: knows_def env_grows_def accepts_def)
  then have "P ?s" using stable P by blast
  ultimately show "runs (free_alts b) s (\<lambda>_ s'. Run t s' \<and> Others t s s' \<and> P s')"
    by (simp add: free_alts_def eq)
qed

text \<open>An operation on one channel, blocking or not.\<close>

lemma Safe_chanop:
  assumes stable: "\<And>s s'. knows t s s' \<Longrightarrow> P s \<Longrightarrow> P s'"
    and oper: "oper = CHANSND \<or> oper = CHANRCV"
    and op: "\<And>s. P s \<Longrightarrow> \<exists>x. chan s c = Some x \<and> operand_ok s t v (elemsize x)"
  shows "Safe t P (chanop c oper v canblock) (\<lambda>_. P)"
  unfolding chanop_def
proof (rule Safe_bnd)
  show "Safe t P (new_alts (chanop_alts c oper v canblock)) (\<lambda>b s. ready_block t b 1 s \<and> P s)"
  proof (rule Safe_new_alts [OF stable])
    show "find_end (chanop_alts c oper v canblock) = Some 1" using oper by (auto simp: chanop_alts_def)
    fix s and i :: nat
    assume "P s" "i < 1"
    then show "aop (chanop_alts c oper v canblock ! i) = CHANNOP \<or>
        (\<exists>d x. chanarray (aop (chanop_alts c oper v canblock ! i)) = Some d \<and>
           chan s (ac (chanop_alts c oper v canblock ! i)) = Some x \<and>
           operand_ok s t (av (chanop_alts c oper v canblock ! i)) (elemsize x))"
      using oper op [of s] by (auto simp: chanop_alts_def chanarray_def)
  qed (simp_all add: chanop_alts_def)
  show "Safe t (\<lambda>s. ready_block t b 1 s \<and> P s) (bnd (chanalt (b, 0)) (\<lambda>r. bnd (free_alts b) (\<lambda>_.
      ret (if sint r < 0 then - 1 else 1)))) (\<lambda>_. P)" for b
    by (rule Safe_bnd [OF Safe_chanalt [OF stable]]) (auto intro!: Safe_bnd [OF Safe_free_alts [OF stable]] Safe_ret)
qed

text \<open>The word on the caller's stack; \<open>P\<close> speaks of what all tasks keep.\<close>

lemma local_update:
  assumes r: "RunB t L B s"
  shows "Run t (s\<lparr>umem := (umem s)(Local t := w)\<rparr>) \<and> Others t s (s\<lparr>umem := (umem s)(Local t := w)\<rparr>)"
proof (rule chan_update [OF r])
  let ?s = "s\<lparr>umem := (umem s)(Local t := w)\<rparr>"
  note D = RunB_D [OF r]
  show "calm s ?s" "queues_ok ?s L" using D(3) by (simp_all add: calm_def queues_ok_def)
  show "only_chans s ?s"
  proof (rule only_chansI)
    show "sched.more ?s = sched.more (s\<lparr>chan := chan s, cbrk := cbrk s, alts := alts s,
        abrk := abrk s, umem := (umem s)(Local t := w), ubrk := ubrk s, rnds := rnds s\<rparr>)" by (cases s) simp
  qed
  show "env_grows s ?s" by (simp add: env_grows_def accepts_def)
  show "chan_fresh ?s" using D(9) by (simp add: chan_fresh_def objs_below_def)
  show "chan_inv ?s B"
  proof (rule chan_inv_sub [OF D(7), where X = "{}"])
    show "rel_option (chan_moved s c) (chan s c) (chan ?s c)" for c
      using chan_invD(1,2) [OF D(7)] by (cases "chan s c") (auto simp: chan_moved_def arrays_ok_def)
    show "accepts ?s (Some v) n" if v: "\<And>u. v = Local u \<Longrightarrow> u \<in> B" and a: "accepts s (Some v) n" for v n
    proof -
      have "v \<noteq> Local t" using v D(8) by blast
      then show ?thesis using a by (simp add: accepts_def)
    qed
  qed (simp_all add: waits_def)
  show "own_kept u s ?s" if "u \<noteq> t" for u by (rule own_kept_same) (use that in \<open>simp_all add: accepts_def\<close>)
qed

lemma Safe_local_update:
  assumes stable: "\<And>s s'. env_grows s s' \<Longrightarrow> P s \<Longrightarrow> P s'"
  shows "Safe t P (upd (\<lambda>s. s\<lparr>umem := (umem s)(Local t := w)\<rparr>)) (\<lambda>_ s. P s \<and> umem s (Local t) = w)"
proof (rule Safe_runs)
  fix s
  assume "Run t s" and P: "P s"
  then obtain L B where r: "RunB t L B s" by (auto simp: Run_RunB)
  have "env_grows s (s\<lparr>umem := (umem s)(Local t := w)\<rparr>)" by (simp add: env_grows_def accepts_def)
  then have "P (s\<lparr>umem := (umem s)(Local t := w)\<rparr>)" using stable P by blast
  then show "runs (upd (\<lambda>s. s\<lparr>umem := (umem s)(Local t := w)\<rparr>)) s
      (\<lambda>_ s'. Run t s' \<and> Others t s s' \<and> P s' \<and> umem s' (Local t) = w)"
    using local_update [OF r] by simp
qed

lemma Safe_running: "Safe t P (f t) Q \<Longrightarrow> Safe t P (bnd running f) Q"
  by (rule Safe_bnd [where Q = "\<lambda>p s. p = t \<and> P s"])
    (auto simp: Safe_def Run_def safe_for_def running_def bnd_def deref_def sem_simps)

lemma Safe_deref: "Safe t (\<lambda>s. v \<noteq> None \<and> P s) (deref v) (\<lambda>_. P)"
  by (rule Safe_runs) auto

lemma Safe_with_local:
  assumes stable: "\<And>s s'. env_grows s s' \<Longrightarrow> P s \<Longrightarrow> P s'"
    and f: "Safe t (\<lambda>s. P s \<and> accepts s (Some (Local t)) (length bs)) (f (Local t))
      (\<lambda>_ s. P s \<and> accepts s (Some (Local t)) (length bs))"
  shows "Safe t P (with_local bs f) (\<lambda>_. P)"
  unfolding with_local_def
proof (rule Safe_running, rule Safe_bnd)
  let ?A = "\<lambda>s. P s \<and> accepts s (Some (Local t)) (length bs)"
  show "Safe t P (upd (\<lambda>s. s\<lparr>umem := (umem s)(Local t \<mapsto> bs)\<rparr>)) (\<lambda>_. ?A)"
    by (rule Safe_post [OF Safe_local_update [where P = P, OF stable]]) (auto simp: accepts_def)
  show "Safe t ?A (bnd (f (Local t)) (\<lambda>r. bnd (get (\<lambda>s. umem s (Local t))) (\<lambda>v. bnd (deref v) (\<lambda>bs'.
      bnd (upd (\<lambda>s. s\<lparr>umem := (umem s)(Local t := None)\<rparr>)) (\<lambda>_. ret (r, bs')))))) (\<lambda>_. P)"
  proof (rule Safe_bnd [OF f])
    fix r
    show "Safe t ?A (bnd (get (\<lambda>s. umem s (Local t))) (\<lambda>v. bnd (deref v) (\<lambda>bs'.
      bnd (upd (\<lambda>s. s\<lparr>umem := (umem s)(Local t := None)\<rparr>)) (\<lambda>_. ret (r, bs'))))) (\<lambda>_. P)"
    proof (rule Safe_bnd)
      show "Safe t ?A (get (\<lambda>s. umem s (Local t))) (\<lambda>v s. v \<noteq> None \<and> P s)"
        by (rule Safe_get) (auto simp: accepts_def)
      show "Safe t (\<lambda>s. v \<noteq> None \<and> P s) (bnd (deref v) (\<lambda>bs'.
        bnd (upd (\<lambda>s. s\<lparr>umem := (umem s)(Local t := None)\<rparr>)) (\<lambda>_. ret (r, bs')))) (\<lambda>_. P)" for v
        by (rule Safe_bnd [OF Safe_deref], rule Safe_bnd [OF Safe_local_update [OF stable]])
          (auto intro: Safe_ret)
    qed
  qed
qed

text \<open>
  The calls, for a caller that knows \<open>P\<close>: facts that last while channels and objects live.
  A client's operand is nil or an object long enough for the elements of the channel.
\<close>

definition good_operand :: "('z chans_scheme \<Rightarrow> bool) \<Rightarrow> cptr \<Rightarrow> nat option \<Rightarrow> bool" where
  "good_operand P c p \<longleftrightarrow> (\<forall>s. P s \<longrightarrow> (\<exists>x. chan s c = Some x \<and>
     accepts s (map_option Object p) (unat (elemsize x))))"

definition word_chan :: "('z chans_scheme \<Rightarrow> bool) \<Rightarrow> cptr \<Rightarrow> bool" where
  "word_chan P c \<longleftrightarrow> (\<forall>s. P s \<longrightarrow> (\<exists>x. chan s c = Some x \<and> unat (elemsize x) \<le> 4))"

lemma Safe_chan_calls:
  assumes stable: "\<And>s s'. env_grows s s' \<Longrightarrow> P s \<Longrightarrow> P s'" and p: "good_operand P c p"
  shows "Safe t P (chansend c (map_option Object p)) (\<lambda>_. P)"
    and "Safe t P (channbsend c (map_option Object p)) (\<lambda>_. P)"
    and "Safe t P (chanrecv c (map_option Object p)) (\<lambda>_. P)"
    and "Safe t P (channbrecv c (map_option Object p)) (\<lambda>_. P)"
proof -
  have st: "knows t s s' \<Longrightarrow> P s \<Longrightarrow> P s'" for s s' using stable unfolding knows_def by blast
  have op: "\<exists>x. chan s c = Some x \<and> operand_ok s t (map_option Object p) (elemsize x)" if "P s" for s
    using p that by (auto simp: good_operand_def operand_ok_def)
  have "oper = CHANSND \<or> oper = CHANRCV \<Longrightarrow>
      Safe t P (chanop c oper (map_option Object p) canblock) (\<lambda>_. P)" for oper canblock
    by (rule Safe_chanop [OF st _ op])
  then show "Safe t P (chansend c (map_option Object p)) (\<lambda>_. P)"
    "Safe t P (channbsend c (map_option Object p)) (\<lambda>_. P)"
    "Safe t P (chanrecv c (map_option Object p)) (\<lambda>_. P)"
    "Safe t P (channbrecv c (map_option Object p)) (\<lambda>_. P)"
    by (simp_all add: chansend_def channbsend_def chanrecv_def channbrecv_def)
qed

lemma Safe_word:
  assumes stable: "\<And>s s'. env_grows s s' \<Longrightarrow> P s \<Longrightarrow> P s'" and c: "word_chan P c"
    and n: "length bs = 4" and oper: "oper = CHANSND \<or> oper = CHANRCV"
  shows "Safe t P (with_local bs (\<lambda>p. chanop c oper (Some p) canblock)) (\<lambda>_. P)"
proof (rule Safe_with_local [OF stable])
  show "Safe t (\<lambda>s. P s \<and> accepts s (Some (Local t)) (length bs)) (chanop c oper (Some (Local t)) canblock)
      (\<lambda>_ s. P s \<and> accepts s (Some (Local t)) (length bs))"
  proof (rule Safe_chanop [OF _ oper])
    show "P s' \<and> accepts s' (Some (Local t)) (length bs)"
      if "knows t s s'" "P s \<and> accepts s (Some (Local t)) (length bs)" for s s'
      using that stable unfolding knows_def by blast
    fix s
    assume s: "P s \<and> accepts s (Some (Local t)) (length bs)"
    then obtain x where x: "chan s c = Some x" "unat (elemsize x) \<le> 4" using c by (auto simp: word_chan_def)
    have "accepts s (Some (Local t)) (unat (elemsize x))" using s x(2) n by (auto simp: accepts_def)
    then show "\<exists>x. chan s c = Some x \<and> operand_ok s t (Some (Local t)) (elemsize x)"
      using x(1) by (simp add: operand_ok_def)
  qed
qed

lemma Safe_word_calls:
  assumes stable: "\<And>s s'. env_grows s s' \<Longrightarrow> P s \<Longrightarrow> P s'" and c: "word_chan P c"
  shows "Safe t P (chansendul c w) (\<lambda>_. P)" and "Safe t P (channbsendul c w) (\<lambda>_. P)"
    and "Safe t P (chanrecvul c) (\<lambda>_. P)" and "Safe t P (channbrecvul c) (\<lambda>_. P)"
    and "Safe t P (chansendp c w) (\<lambda>_. P)" and "Safe t P (channbsendp c w) (\<lambda>_. P)"
    and "Safe t P (chanrecvp c) (\<lambda>_. P)" and "Safe t P (channbrecvp c) (\<lambda>_. P)"
proof -
  have send: "Safe t P (send_word c w canblock) (\<lambda>_. P)" for canblock
    unfolding send_word_def
    by (rule Safe_bnd [OF Safe_word [OF stable c]]) (auto simp: bytes_of_def intro: Safe_ret)
  have recv: "Safe t P (recv_word c canblock) (\<lambda>_. P)" for canblock
    unfolding recv_word_def
    by (rule Safe_bnd [where Q = "\<lambda>_. P", OF Safe_get], assumption,
        rule Safe_bnd [OF Safe_word [OF stable c]]) (auto intro: Safe_ret)
  show "Safe t P (chansendul c w) (\<lambda>_. P)" "Safe t P (channbsendul c w) (\<lambda>_. P)"
    "Safe t P (chanrecvul c) (\<lambda>_. P)" "Safe t P (channbrecvul c) (\<lambda>_. P)"
    "Safe t P (chansendp c w) (\<lambda>_. P)" "Safe t P (channbsendp c w) (\<lambda>_. P)"
    "Safe t P (chanrecvp c) (\<lambda>_. P)" "Safe t P (channbrecvp c) (\<lambda>_. P)"
    by (simp_all add: chansendul_def channbsendul_def chanrecvul_def channbrecvul_def chansendp_def
        channbsendp_def chanrecvp_def channbrecvp_def send recv)
qed

text \<open>Creating a channel: its arguments are not negative and the size does not wrap around.\<close>

lemma Safe_chancreate:
  assumes stable: "\<And>s s'. env_grows s s' \<Longrightarrow> P s \<Longrightarrow> P s'"
    and b: "unat bsize < 2 ^ 31" and fits: "unat sizeof_Channel + unat bsize * unat esize < 2 ^ 32"
  shows "Safe t P (chancreate esize bsize)
      (\<lambda>c s. P s \<and> c < 2 ^ 32 \<and> (\<exists>x. chan s c = Some x \<and> elemsize x = esize))"
  unfolding Safe_def
proof (intro allI impI)
  fix s
  assume "Run t s" and P: "P s"
  then obtain L B where r: "RunB t L B s" by (auto simp: Run_RunB)
  note D = RunB_D [OF r]
  have prod: "unat (bsize * esize) = unat bsize * unat esize"
    using fits by (subst unat_mult_lem [THEN iffD1]) auto
  have total: "unat (sizeof_Channel + bsize * esize) = unat sizeof_Channel + unat bsize * unat esize"
    using fits prod unat_add_lem [of sizeof_Channel "bsize * esize"] by simp
  then have ge: "\<not> sizeof_Channel + bsize * esize < sizeof_Channel" by (simp add: word_less_nat_alt)
  have room: "unat (sizeof_Channel + bsize * esize - sizeof_Channel) = unat bsize * unat esize"
    using prod by simp
  let ?x = "\<lparr>bufsize = bsize, elemsize = esize, cbuf = map (junk s) [0..<unat bsize * unat esize],
    nbuf = 0, off = 0, asend = no_alts, arecv = no_alts\<rparr>"
  let ?c = "cbrk s"
  let ?s = "s\<lparr>allocs := Suc (allocs s), cbrk := Suc ?c, chan := (chan s)(?c \<mapsto> ?x)\<rparr>"
  have none: "chan s ?c = None" using D(9) unfolding chan_fresh_def by (metis less_irrefl)
  have arr: "array d ?x = no_alts" for d by (cases d) (simp_all add: array_def)
  have "off ?x = 0" "bufsize ?x = bsize" by simp_all
  then have ok: "chan_ok ?x" using b fits by (auto simp: chan_ok_def word_neq_0_conv)
  have "Run t ?s \<and> Others t s ?s"
  proof (rule chan_update [OF r])
    show "calm s ?s" "queues_ok ?s L" using D(3) by (simp_all add: calm_def queues_ok_def)
    show "only_chans s ?s"
    proof (rule only_chansI)
      show "sched.more ?s = sched.more (s\<lparr>chan := (chan s)(?c \<mapsto> ?x), cbrk := Suc ?c, alts := alts s,
          abrk := abrk s, umem := umem s, ubrk := ubrk s, rnds := rnds s\<rparr>)" by (cases s) simp
    qed
    show "env_grows s ?s" using none by (auto simp: env_grows_def accepts_def)
    show "chan_fresh ?s" using D(9) by (auto simp: chan_fresh_def less_Suc_eq)
    have w: "waits ?s c d = waits s c d" for c d
      using none by (simp add: waits_def arr)
    note inv = chan_invD [OF D(7)]
    have ok': "chan_ok x \<and> array_ok (array d x)" if "chan ?s c = Some x" for c x d
      using that ok inv(1,2) by (auto simp: arr arrays_ok_def split: if_splits)
    show "chan_inv ?s B"
      unfolding chan_inv_def
    proof (intro conjI allI impI)
      show "chan_ok x" if "chan ?s c = Some x" for c x using ok' [OF that] by blast
      show "arrays_ok ?s" unfolding arrays_ok_def using ok' by blast
      show "consistent ?s" by (rule consistent_cong [OF inv(3)]) (simp_all add: w)
      fix c d p
      assume p: "p \<in> waits ?s c d"
      then have p': "p \<in> waits s c d" by (simp only: w)
      then have c: "c \<noteq> ?c" using none by (auto simp: waits_def)
      have own: "owner ?s q = owner s q" for q by (simp add: owner_def)
      show "stuck ?s c d p" using inv(5) [OF p'] c by (simp add: stuck_def w own)
      obtain xs n u where e: "alts s (fst p) = Some xs" "find_end xs = Some n" "snd p < n"
          "atask (xs ! snd p) = Some u" "u \<in> B" "axalt (xs ! snd p) = Some (fst p, 0)"
        and o: "\<And>x. chan s (ac (xs ! snd p)) = Some x \<Longrightarrow> operand_ok s u (av (xs ! snd p)) (elemsize x)"
        and pl: "\<And>j. j < n \<Longrightarrow> aop (xs ! j) \<noteq> CHANNOP \<Longrightarrow> placed s (fst p) xs j"
        using inv(4) [OF p'] unfolding entry_ok_def by blast
      have "ac (xs ! snd p) = c" using consistentD [OF inv(3) p' entry_at [OF e(1-3)]] by simp
      then show "entry_ok ?s B p"
        unfolding entry_ok_def using e o pl c
        by (intro exI [of _ xs] exI [of _ n] exI [of _ u]) (simp add: placed_def w operand_ok_def accepts_def)
      fix c' d' q
      assume "q \<in> waits ?s c' d'" "owner ?s p = owner ?s q"
      then show "fst p = fst q" using inv(6) [OF p'] by (simp only: w own)
    qed
    show "own_kept u s ?s" for u by (rule own_kept_same) (simp_all add: accepts_def)
  qed
  moreover have "env_grows s ?s" using none by (auto simp: env_grows_def accepts_def)
  then have "P ?s" using stable P by blast
  moreover have "chancreate esize bsize s = (if alloc_ok s (allocs s) \<and> ?c < 2 ^ 32 then Ret ?c ?s else Halt (Exit 1) (s\<lparr>allocs := Suc (allocs s)\<rparr>))"
    using ge room by (simp add: chancreate_def try_alloc_def bnd_def sem_simps Let_def)
  ultimately show "safe_for t (\<lambda>s0 a s'. Run t s' \<and> Others t s0 s' \<and>
      (P s' \<and> a < 2 ^ 32 \<and> (\<exists>x. chan s' a = Some x \<and> elemsize x = esize))) (chancreate esize bsize s) s"
    by (simp add: safe_for_def)
qed

text \<open>\<open>chanalt\<close> on an array of \<open>Alt\<close> that the caller has on its stack.\<close>

lemma Safe_alts_call:
  assumes stable: "\<And>s s'. env_grows s s' \<Longrightarrow> P s \<Longrightarrow> P s'" and n: "find_end xs = Some n" "0 < n"
    and h: "atask (xs ! 0) = None"
    and op: "\<And>i. i < n \<Longrightarrow> aop (xs ! i) = CHANNOP \<or> (\<exists>d p. chanarray (aop (xs ! i)) = Some d \<and>
        av (xs ! i) = map_option Object p \<and> good_operand P (ac (xs ! i)) p)"
  shows "Safe t P (bnd (new_alts xs) (\<lambda>b. bnd (chanalt (b, 0)) (\<lambda>r. bnd (free_alts b) (\<lambda>_. ret r)))) (\<lambda>_. P)"
proof (rule Safe_bnd)
  have st: "knows t s s' \<Longrightarrow> P s \<Longrightarrow> P s'" for s s' using stable unfolding knows_def by blast
  show "Safe t P (new_alts xs) (\<lambda>b s. ready_block t b n s \<and> P s)"
  proof (rule Safe_new_alts [OF st n _ h])
    fix s i
    assume s: "P s" and i: "i < n"
    show "aop (xs ! i) = CHANNOP \<or> (\<exists>d x. chanarray (aop (xs ! i)) = Some d \<and>
        chan s (ac (xs ! i)) = Some x \<and> operand_ok s t (av (xs ! i)) (elemsize x))"
      using op [OF i] s by (force simp: good_operand_def operand_ok_def)
  qed
  show "Safe t (\<lambda>s. ready_block t b n s \<and> P s) (bnd (chanalt (b, 0)) (\<lambda>r. bnd (free_alts b) (\<lambda>_. ret r)))
      (\<lambda>_. P)" for b
    by (rule Safe_bnd [OF Safe_chanalt [OF st]]) (auto intro!: Safe_bnd [OF Safe_free_alts [OF st]] Safe_ret)
qed

end

section \<open>The library up to the channels\<close>

definition chan_J :: "'z chans_scheme \<Rightarrow> tptr set \<Rightarrow> bool" where
  "chan_J s A \<longleftrightarrow> chan_fresh s \<and> (\<exists>B \<subseteq> A. chan_inv s B)"

lemma chan_J_cong:
  assumes e: "chan s' = chan s" "alts s' = alts s" "umem s' = umem s" "cbrk s' = cbrk s" "abrk s' = abrk s"
      "ubrk s' = ubrk s"
    and J: "chan_J s A"
  shows "chan_J s' A"
proof -
  obtain B where "B \<subseteq> A" "chan_inv s B" using J unfolding chan_J_def by blast
  moreover from this have "chan_inv s' B" using chan_inv_cong e(1-3) by blast
  moreover have "chan_fresh s'" using J by (simp add: chan_J_def chan_fresh_def e)
  ultimately show ?thesis unfolding chan_J_def by blast
qed

text \<open>
  \<open>C\<close> and \<open>M\<close> say, for a function and its argument, which channels and objects the task reaches
  from its argument.
\<close>

interpretation chans: chan_client chan_J chan_keep "\<lambda>_. 0" "\<lambda>s fn arg. env_ok (C fn arg) (M fn arg) s"
  "\<lambda>_ _. True" for C :: "nat \<Rightarrow> uint \<Rightarrow> cptr \<Rightarrow> uint option" and M :: "nat \<Rightarrow> uint \<Rightarrow> nat \<Rightarrow> nat option"
proof unfold_locales
  fix s s' s'' :: "'z chans_scheme" and t u A B w r z fn arg
  show "chan_J s A \<Longrightarrow> sched.more s' = sched.more s \<Longrightarrow> chan_J s' A"
    by (rule chan_J_cong [OF chans_more(1-6)])
  show "chan_J s A \<Longrightarrow> A \<subseteq> B \<Longrightarrow> chan_J s B" unfolding chan_J_def by blast
  show "sched.more s' = sched.more s \<Longrightarrow> chan_keep t s s'" by (rule chan_keep_more)
  show "chan_keep t s s' \<Longrightarrow> chan_keep t s' s'' \<Longrightarrow> chan_keep t s s''" by (rule chan_keep_trans)
  show "chan_keep t s s' \<Longrightarrow> env_ok (C fn arg) (M fn arg) s \<Longrightarrow> env_ok (C fn arg) (M fn arg) s'"
    unfolding chan_keep_def using env_ok_grows by blast
  show "chan_J s A \<Longrightarrow> chan_J (s\<lparr>qowner := w\<rparr>) A" by (erule chan_J_cong [rotated -1]) simp_all
  show "chan_keep t s (s\<lparr>qowner := w\<rparr>)" by (rule keep_cong) simp_all
  show "chan_J s A \<Longrightarrow> chan_J (s\<lparr>rw := r\<rparr>) A" by (erule chan_J_cong [rotated -1]) simp_all
  show "chan_keep t s (s\<lparr>rw := r\<rparr>)" by (rule keep_cong) simp_all
  show "chan_J s A \<longleftrightarrow> chan_fresh s \<and> (\<exists>B \<subseteq> A. chan_inv s B \<and> True)"
    by (simp add: chan_J_def)
qed simp_all

end
