(* ===== verification/Chanprops.thy ===== *)
theory Chanprops
  imports Chanclient Examples
begin

text \<open>The properties of the channels, and their instances in a small state.\<close>

section \<open>Operations that do not wait\<close>

lemma needstack_same:
  assumes "needstack n s = Ret () s" and "tasks s' = tasks s" "taskrunning s' = taskrunning s"
    and "frame_at s' = frame_at s"
  shows "needstack n s' = Ret () s'"
proof -
  obtain t where t: "taskrunning s = Some t"
    using assms(1) by (cases "taskrunning s") (simp_all add: needstack_def running_def bnd_def deref_def sem_simps)
  obtain x where x: "tasks s t = Some x"
    using assms(1) t by (cases "tasks s t")
      (simp_all add: needstack_def running_def bnd_def deref_def load_task_def sem_simps)
  show ?thesis
    using assms t x
    by (auto simp: needstack_def running_def bnd_def deref_def load_task_def sem_simps split: if_splits)
qed

lemma accepts_cong: "umem s' = umem s \<Longrightarrow> accepts s' v n = accepts s v n"
  by (simp add: accepts_def)

lemma runs_conj: "runs m s P \<Longrightarrow> runs m s Q \<Longrightarrow> runs m s (\<lambda>a s'. P a s' \<and> Q a s')"
  by (auto simp: runs_def)

lemma supplies_accepts: "supplies s v n b \<Longrightarrow> accepts s v n"
  by (cases v) (auto simp: supplies_def accepts_def)

text \<open>An operation on a channel for which nobody waits, when the buffer allows it.\<close>

definition ready_for :: "uint \<Rightarrow> chan \<Rightarrow> bool" where
  "ready_for oper x \<longleftrightarrow> chan_ok x \<and> an (asend x) = 0 \<and> an (arecv x) = 0 \<and> bufsize x \<noteq> 0 \<and>
     (oper = CHANSND \<and> nbuf x < bufsize x \<or> oper = CHANRCV \<and> nbuf x \<noteq> 0)"

definition side_effect :: "cptr \<Rightarrow> chan \<Rightarrow> uchar list option \<Rightarrow> obj option option \<Rightarrow>
    'z chans_scheme \<Rightarrow> 'z chans_scheme \<Rightarrow> bool" where
  "side_effect c x bs rv s s' \<longleftrightarrow>
     (let q = contents x @ (case bs of None \<Rightarrow> [] | Some b \<Rightarrow> [b]) in
      (\<exists>x'. chan s' = (chan s)(c \<mapsto> x') \<and> chan_ok x' \<and> contents x' = (if rv = None then q else tl q) \<and>
         bufsize x' = bufsize x \<and> elemsize x' = elemsize x \<and> asend x' = asend x \<and> arecv x' = arecv x) \<and>
      umem s' = (case rv of None \<Rightarrow> umem s | Some v \<Rightarrow> deliver v (hd q) (umem s))) \<and>
     tasks s' = tasks s \<and> taskrunning s' = taskrunning s \<and> frame_at s' = frame_at s"

lemma chanop_ready:
  assumes run: "taskrunning s = Some t" and ns: "needstack 512 s = Ret () s"
    and c: "chan s c = Some x" and r: "ready_for oper x"
    and o: "operands s x (if oper = CHANSND then Some y else None) (if oper = CHANSND then None else Some y) bs"
    and y: "av y = v"
  shows "runs (chanop c oper v cb) s
    (\<lambda>i s'. i = 1 \<and> side_effect c x bs (if oper = CHANSND then None else Some v) s s')"
proof -
  let ?b = "abrk s" and ?xs = "chanop_alts c oper v cb"
  let ?s = "s\<lparr>abrk := Suc ?b, alts := (alts s)(?b \<mapsto> ?xs)\<rparr>"
  let ?t = "drawn (with_marks t ?b ?xs 1 ?s)"
  let ?ys = "marked (?b, 0) (Some t) 1 ?xs"
  have oper: "oper = CHANSND \<or> oper = CHANRCV" and ok: "chan_ok x" and buf: "bufsize x \<noteq> 0"
    and none: "an (asend x) = 0" "an (arecv x) = 0" using r by (auto simp: ready_for_def)
  have fe: "find_end ?xs = Some 1" using oper by (auto simp: chanop_alts_def)
  have ns': "needstack 512 ?s = Ret () ?s" by (rule needstack_same [OF ns]) simp_all
  have can: "altcanexec ?s (?xs ! 0) = Some True"
    using r oper c by (auto simp: altcanexec_def chanop_alts_def ready_for_def word_neq_0_conv)
  have F: "can_list ?s ?xs [0..<1] = [0]" using can by (simp add: can_list_def)
  have parts: "chanalt (?b, 0) ?s = bnd (altexec (?b, 0)) (\<lambda>_. ret 0) ?t"
    using chanalt_parts [OF _ ns', of t ?b ?xs 1] run fe can F by (simp add: Let_def)
  have "?xs \<noteq> []" by (simp add: chanop_alts_def)
  then have "?ys \<noteq> []" by (metis length_0_conv marked_length)
  define z where "z = ?ys ! 0"
  have at: "at ?t (?b, 0) z" using \<open>?ys \<noteq> []\<close> by (simp add: at_def with_marks_def z_def)
  have y0: "aop z = oper" "ac z = c" "av z = v"
    unfolding z_def by (simp_all add: marked_nth chanop_alts_def)
  have c': "chan ?t c = Some x" using c by (simp add: with_marks_def)
  have d: "array d x = (case d of Snd \<Rightarrow> asend x | Rcv \<Rightarrow> arecv x)" for d by (simp add: array_def)
  let ?sx = "if oper = CHANSND then Some z else None" and ?rx = "if oper = CHANSND then None else Some z"
  have "altexec (?b, 0) ?t = altcopy (Some (?b, 0)) None ?t"
    by (rule altexec_alone [OF at]) (use c' y0 none in \<open>auto simp: d split: side.split\<close>)
  also have "\<dots> = transfer c ?sx ?rx ?t" using altcopy_one [OF at] oper y0 by auto
  finally have eq: "altexec (?b, 0) ?t = transfer c ?sx ?rx ?t" .
  have "operands ?t x ?sx ?rx bs"
  proof -
    have um: "umem ?t = umem s" by (simp add: with_marks_def)
    show ?thesis
      using o y supplies_cong [OF um] accepts_cong [OF um]
      by (cases "oper = CHANSND") (simp_all add: operands_def y0(3))
  qed
  from transfer_runs [OF c' ok this]
  have "runs (altexec (?b, 0)) ?t (\<lambda>_. moved_data c x bs (map_option av ?rx) ?t)"
    by (simp only: runs_def eq)
  moreover have "map_option av ?rx = (if oper = CHANSND then None else Some v)" by (simp add: y0)
  ultimately have "runs (altexec (?b, 0)) ?t (\<lambda>_. moved_data c x bs (if oper = CHANSND then None else Some v) ?t)"
    by (simp only:)
  then obtain u t' where t': "altexec (?b, 0) ?t = Ret u t'"
    and m: "moved_data c x bs (if oper = CHANSND then None else Some v) ?t t'"
    by (rule runsE)
  let ?f = "t'\<lparr>alts := (alts t')(?b := None)\<rparr>"
  have "chanop c oper v cb s = Ret 1 (t'\<lparr>alts := (alts t')(?b := None)\<rparr>)"
    using parts t' by (simp add: chanop_def new_alts_def bnd_def free_alts_def sem_simps)
  moreover obtain x' where x': "t' = ?t\<lparr>chan := (chan ?t)(c \<mapsto> x'),
      umem := (case (if oper = CHANSND then None else Some v) of None \<Rightarrow> umem ?t
        | Some v \<Rightarrow> deliver v (hd (contents x @ (case bs of None \<Rightarrow> [] | Some b \<Rightarrow> [b]))) (umem ?t))\<rparr>"
    and p: "chan_ok x'" "contents x' = (if (if oper = CHANSND then None else Some v) = None
        then contents x @ (case bs of None \<Rightarrow> [] | Some b \<Rightarrow> [b])
        else tl (contents x @ (case bs of None \<Rightarrow> [] | Some b \<Rightarrow> [b])))"
      "bufsize x' = bufsize x" "elemsize x' = elemsize x" "asend x' = asend x" "arecv x' = arecv x"
    using m unfolding moved_data_def Let_def by blast
  have "chan ?f = (chan s)(c \<mapsto> x')" "tasks ?f = tasks s" "taskrunning ?f = taskrunning s" "frame_at ?f = frame_at s"
    by (simp_all add: x' with_marks_def)
  moreover have "umem ?f = (case (if oper = CHANSND then None else Some v) of None \<Rightarrow> umem s
        | Some v \<Rightarrow> deliver v (hd (contents x @ (case bs of None \<Rightarrow> [] | Some b \<Rightarrow> [b]))) (umem s))"
    by (simp add: x' with_marks_def)
  ultimately have "side_effect c x bs (if oper = CHANSND then None else Some v) s ?f"
    unfolding side_effect_def Let_def using p by blast
  with \<open>chanop c oper v cb s = Ret 1 ?f\<close> show ?thesis by (simp only: runs_def) blast
qed

section \<open>Words\<close>

lemma with_local_runs:
  assumes "taskrunning s = Some t"
    and "runs (f (Local t)) (s\<lparr>umem := (umem s)(Local t \<mapsto> bs)\<rparr>)
      (\<lambda>r s'. \<exists>bs'. umem s' (Local t) = Some bs' \<and> P (r, bs') (s'\<lparr>umem := (umem s')(Local t := None)\<rparr>))"
  shows "runs (with_local bs f) s P"
proof -
  obtain r s' bs' where "f (Local t) (s\<lparr>umem := (umem s)(Local t \<mapsto> bs)\<rparr>) = Ret r s'"
    "umem s' (Local t) = Some bs'" "P (r, bs') (s'\<lparr>umem := (umem s')(Local t := None)\<rparr>)"
    using assms(2) unfolding runs_def by blast
  then show ?thesis
    using assms(1) by (simp add: with_local_def running_def runs_def deref_def bnd_def sem_simps)
qed

text \<open>The buffer of \<open>c\<close> now holds \<open>q\<close>.\<close>

definition now_holds :: "cptr \<Rightarrow> chan \<Rightarrow> uchar list list \<Rightarrow> 'z chans_scheme \<Rightarrow> 'z chans_scheme \<Rightarrow> bool" where
  "now_holds c x q s s' \<longleftrightarrow>
     (\<exists>x'. chan s' = (chan s)(c \<mapsto> x') \<and> chan_ok x' \<and> contents x' = q \<and> bufsize x' = bufsize x \<and>
        elemsize x' = elemsize x \<and> asend x' = asend x \<and> arecv x' = arecv x) \<and>
     tasks s' = tasks s \<and> taskrunning s' = taskrunning s \<and> frame_at s' = frame_at s"

lemma send_word_ready:
  assumes run: "taskrunning s = Some t" and ns: "needstack 512 s = Ret () s"
    and c: "chan s c = Some x" and r: "ready_for CHANSND x" and e: "elemsize x = 4"
  shows "runs (send_word c w cb) s (\<lambda>i s'. i = 1 \<and> now_holds c x (contents x @ [bytes_of w]) s s')"
proof -
  let ?s = "s\<lparr>umem := (umem s)(Local t \<mapsto> bytes_of w)\<rparr>"
  let ?y = "\<lparr>ac = c, av = Some (Local t), aop = CHANSND, atask = None, axalt = None\<rparr>"
  have room: "nbuf x < bufsize x" using r by (auto simp: ready_for_def)
  have "operands ?s x (Some ?y) None (Some (bytes_of w))"
    using e room by (simp add: operands_def supplies_def)
  then have o: "operands ?s x (if CHANSND = CHANSND then Some ?y else None)
      (if CHANSND = CHANSND then None else Some ?y) (Some (bytes_of w))" by simp
  have "runs (chanop c CHANSND (Some (Local t)) cb) ?s
      (\<lambda>i s'. i = 1 \<and> side_effect c x (Some (bytes_of w)) (if CHANSND = CHANSND then None else Some (Some (Local t))) ?s s')"
    by (rule chanop_ready [OF _ needstack_same [OF ns] _ r o]) (simp_all add: run c)
  then have "runs (with_local (bytes_of w) (\<lambda>p. chanop c CHANSND (Some p) cb)) s
      (\<lambda>i s'. fst i = 1 \<and> now_holds c x (contents x @ [bytes_of w]) s s')"
    by (intro with_local_runs [OF run]) (erule runs_mono, simp add: side_effect_def now_holds_def Let_def)
  then show ?thesis unfolding send_word_def by (intro runs_bndI) (erule runs_mono, simp)
qed

lemma recv_word_ready:
  assumes run: "taskrunning s = Some t" and ns: "needstack 512 s = Ret () s"
    and c: "chan s c = Some x" and r: "ready_for CHANRCV x" and e: "elemsize x = 4"
  shows "runs (recv_word c cb) s
    (\<lambda>v s'. v = of_bytes (hd (contents x)) \<and> now_holds c x (tl (contents x)) s s')"
proof -
  let ?bs = "map (junk s) [0..<4]"
  let ?s = "s\<lparr>umem := (umem s)(Local t \<mapsto> ?bs)\<rparr>"
  let ?y = "\<lparr>ac = c, av = Some (Local t), aop = CHANRCV, atask = None, axalt = None\<rparr>"
  have some: "nbuf x \<noteq> 0" and ok: "chan_ok x" using r by (auto simp: ready_for_def)
  have h: "length (hd (contents x)) = 4"
    using contents_elems [OF ok, of "hd (contents x)"] ring_take_ok(2) [OF ok some] e by simp
  have "operands ?s x None (Some ?y) None"
    using e some by (simp add: operands_def accepts_def)
  then have o: "operands ?s x (if CHANRCV = CHANSND then Some ?y else None)
      (if CHANRCV = CHANSND then None else Some ?y) None" by simp
  have "runs (chanop c CHANRCV (Some (Local t)) cb) ?s
      (\<lambda>i s'. i = 1 \<and> side_effect c x None (if CHANRCV = CHANSND then None else Some (Some (Local t))) ?s s')"
    by (rule chanop_ready [OF _ needstack_same [OF ns] _ r o]) (simp_all add: run c)
  then have "runs (with_local ?bs (\<lambda>p. chanop c CHANRCV (Some p) cb)) s
      (\<lambda>r s'. snd r = hd (contents x) \<and> now_holds c x (tl (contents x)) s s')"
    by (intro with_local_runs [OF run])
      (erule runs_mono, simp add: side_effect_def now_holds_def Let_def deliver_def overwrite_def h)
  then show ?thesis unfolding recv_word_def
    by (intro runs_bndI) (simp, intro runs_bndI, erule runs_mono, simp)
qed

section \<open>Properties\<close>

text \<open>
  C29: one transfer of data (\<open>altcopy\<close> after it has told sender and receiver apart) refines a FIFO
  queue: the sender's element, zeros for a nil pointer, goes to the end, the receiver gets the
  first element of the queue, and the ring buffer keeps its bounds, wrapped around or not.
\<close>

theorem transfer_fifo:
  assumes "chan s c = Some x" and "chan_ok x" and "operands s x sx rx bs"
  shows "runs (transfer c sx rx) s (\<lambda>_. moved_data c x bs (map_option av rx) s)"
  by (rule transfer_runs [OF assms])

text \<open>
  C33: a word sent on a buffered channel of words for which nobody waits is queued behind the
  words already there, neither call blocks, and \<open>chanrecvul\<close> takes the oldest word: the
  one just sent when the buffer was empty.
\<close>

theorem words_roundtrip:
  assumes "taskrunning s = Some t" and "needstack 512 s = Ret () s"
    and "chan s c = Some x" and "ready_for CHANSND x" and "elemsize x = 4"
  shows "runs (bnd (chansendul c w) (\<lambda>_. chanrecvul c)) s (\<lambda>v s'.
    v = of_bytes (hd (contents x @ [bytes_of w])) \<and> now_holds c x (tl (contents x @ [bytes_of w])) s s' \<and>
    (nbuf x = 0 \<longrightarrow> v = w))"
proof -
  let ?q = "contents x @ [bytes_of w]"
  have next_word: "runs (chanrecvul c) s1 (\<lambda>v s'. v = of_bytes (hd ?q) \<and> now_holds c x (tl ?q) s s' \<and>
      (nbuf x = 0 \<longrightarrow> v = w))" if h: "now_holds c x ?q s s1" for s1
  proof -
    obtain x1 where x1: "chan s1 = (chan s)(c \<mapsto> x1)" "chan_ok x1" "contents x1 = ?q" "bufsize x1 = bufsize x"
        "elemsize x1 = elemsize x" "asend x1 = asend x" "arecv x1 = arecv x"
      and core: "tasks s1 = tasks s" "taskrunning s1 = taskrunning s" "frame_at s1 = frame_at s"
      using h unfolding now_holds_def by blast
    have "nbuf x1 \<noteq> 0" using arg_cong [OF x1(3), of length] by auto
    then have r: "ready_for CHANRCV x1" using assms(4) x1 by (simp add: ready_for_def)
    have "runs (recv_word c True) s1 (\<lambda>v s'. v = of_bytes (hd (contents x1)) \<and> now_holds c x1 (tl (contents x1)) s1 s')"
      by (rule recv_word_ready [OF _ needstack_same [OF assms(2) core] _ r])
        (use assms x1 core in simp_all)
    then show ?thesis
      unfolding chanrecvul_def
    proof (rule runs_mono, elim conjE, intro conjI impI)
      fix v s'
      assume v: "v = of_bytes (hd (contents x1))" and n: "now_holds c x1 (tl (contents x1)) s1 s'"
      show "v = of_bytes (hd ?q)" using v x1(3) by simp
      show "now_holds c x (tl ?q) s s'" using n x1 core by (simp add: now_holds_def)
      assume "nbuf x = 0"
      then have "contents x = []" by (simp add: contents_def)
      then show "v = w" using v x1(3) of_bytes_of by simp
    qed
  qed
  have "runs (chansendul c w) s (\<lambda>i s'. i = 1 \<and> now_holds c x ?q s s')"
    unfolding chansendul_def by (rule send_word_ready [OF assms])
  then show ?thesis
    by (rule runs_bndI [OF runs_mono]) (use next_word in blast)
qed

text \<open>
  \<open>altdequeue\<close> takes exactly the given operation out of the array of its channel, whatever its
  place, and aborts when the operation is not queued.
\<close>

lemma altdequeue_removes:
  assumes "arrays_ok s" and "consistent s" and "at s p y" and "chanarray (aop y) = Some d"
    and "chan s (ac y) \<noteq> None"
  shows "(p \<in> waits s (ac y) d \<longrightarrow> runs (altdequeue p) s (\<lambda>_. dropped {p} s)) \<and>
    (p \<notin> waits s (ac y) d \<longrightarrow> altdequeue p s = Halt Abort s)"
proof (intro conjI impI)
  show "runs (altdequeue p) s (\<lambda>_. dropped {p} s)" if "p \<in> waits s (ac y) d"
    by (rule altdequeue_runs [OF assms(1-4) that])
  assume n: "p \<notin> waits s (ac y) d"
  obtain x where x: "chan s (ac y) = Some x" using assms(5) by blast
  then have "find_entry p (aa (array d x)) (an (array d x)) 0 = None"
    using n by (intro find_entry_absent) (simp add: waits_live entries_def)
  then show "altdequeue p s = Halt Abort s"
    using x assms(4) load_alt_at [OF assms(3)]
    by (simp add: altdequeue_def load_chan_live halt_def)
qed

text \<open>
  C30: sending on an unbuffered channel for which tasks wait to receive is a rendezvous: one of them
  gets the bytes into its memory and becomes ready, all operations of its \<open>chanalt\<close> leave
  the queues, no other operation does, and the invariant of the channels holds again.
\<close>

theorem altexec_rendezvous:
  assumes "chan_inv s B" and "queues_ok s L" and "\<And>t. t \<in> B \<Longrightarrow> t \<in> dom (tasks s) \<and> \<not> queued L t"
    and "at s a y" and "chan s (ac y) = Some x" and "aop y = CHANSND" and "bufsize x = 0"
    and "waits s (ac y) Rcv \<noteq> {}" and "supplies s (av y) (unat (elemsize x)) b"
  shows "runs (altexec a) s (\<lambda>_ s'. \<exists>p z t. p \<in> waits s (ac y) Rcv \<and> at s p z \<and> owner s p = Some t \<and>
    umem s' = deliver (av z) b (umem s) \<and> queues_ok s' (L(RunQueue := L RunQueue @ [t])) \<and>
    (\<forall>c d. waits s' c d = {q \<in> waits s c d. fst q \<noteq> fst p}) \<and> chan_inv s' (B - {t}))"
proof -
  note D = chan_invD [OF assms(1)]
  have ok: "chan_ok x" by (rule D(1) [OF assms(5)])
  have empty: "nbuf x = 0" using ok assms(7) by (simp add: chan_ok_def)
  have d: "chanarray (aop y) = Some Snd" using assms(6) by (simp add: op_of_side)
  have aok: "array_ok (array Rcv x)" using D(2) assms(5) by (simp add: arrays_ok_def)
  have n: "an (array (opposite Snd) x) \<noteq> 0" using no_waits [OF assms(5) aok] assms(8) by simp
  let ?R = "\<lambda>p s1. \<exists>z. at s p z \<and> umem s1 = deliver (av z) b (umem s) \<and> copied (ac y) x (drawn s) s1 True"
  have copy: "runs (altcopy (Some a) (Some p)) (drawn s) (\<lambda>_. ?R p)" if p: "p \<in> waits s (ac y) (opposite Snd)" for p
  proof -
    obtain z where z: "at s p z" "ac z = ac y" "chanarray (aop z) = Some Rcv"
      using D(3) p unfolding consistent_def by fastforce
    obtain t where "operand_ok s t (av z) (elemsize x)"
      using D(4) [OF p] z(1,2) assms(5) unfolding entry_ok_def at_def by auto
    then have acc: "accepts (drawn s) (av z) (unat (elemsize x))" by (simp add: operand_ok_def accepts_def)
    have sup: "supplies (drawn s) (av y) (unat (elemsize x)) b"
      using assms(9) supplies_cong [of "drawn s" s] by simp
    have c': "chan (drawn s) (ac y) = Some x" using assms(5) by simp
    have at: "at (drawn s) a y" "at (drawn s) p z" using assms(4) z(1) by (simp_all add: at_def)
    have eq: "altcopy (Some a) (Some p) (drawn s) = transfer (ac y) (Some y) (Some z) (drawn s)"
      using altcopy_two [OF at] assms(6) z(3) by (simp add: op_of_side)
    have "runs (transfer (ac y) (Some y) (Some z)) (drawn s) (\<lambda>_ s'. copied (ac y) x (drawn s) s' True)"
      using transfer_keeps [OF c' ok, of "Some y" "Some z"] acc accepts_supplies sup
      by (simp add: room_for_def supplies_accepts)
    moreover have "runs (transfer (ac y) (Some y) (Some z)) (drawn s)
        (\<lambda>_. moved_data (ac y) x (Some b) (Some (av z)) (drawn s))"
      using transfer_runs [OF c' ok, of "Some y" "Some z" "Some b"] acc sup empty by (simp add: operands_def)
    ultimately have "runs (transfer (ac y) (Some y) (Some z)) (drawn s) (\<lambda>_ s1. copied (ac y) x (drawn s) s1 True \<and>
        moved_data (ac y) x (Some b) (Some (av z)) (drawn s) s1)" by (rule runs_conj)
    then have "runs (transfer (ac y) (Some y) (Some z)) (drawn s) (\<lambda>_. ?R p)"
    proof (rule runs_mono, elim conjE, intro exI conjI)
      fix s1
      assume m: "moved_data (ac y) x (Some b) (Some (av z)) (drawn s) s1"
      have "contents x = []" using empty by (simp add: contents_def)
      then show "umem s1 = deliver (av z) b (umem s)"
        using m unfolding moved_data_def Let_def by (elim exE conjE) simp
      show "at s p z" by (rule z(1))
    qed
    then show ?thesis by (simp only: runs_def eq)
  qed
  show ?thesis
  proof (rule runs_mono [OF altexec_paired [OF assms(1,4,5) d n assms(2,3) copy]])
    fix u s'
    assume "\<exists>p t. p \<in> waits s (ac y) (opposite Snd) \<and> exchanged s B L ?R p t s'"
    then obtain p t where p: "p \<in> waits s (ac y) Rcv" and e: "exchanged s B L ?R p t s'"
      unfolding opposite.simps by blast
    have cp: "?R p s1 \<Longrightarrow> copied (ac y) x (drawn s) s1 True" for p s1 by blast
    have k: "chan_inv s' (B - {t})" "waits s' c d = {q \<in> waits s c d. fst q \<noteq> fst p}" "owner s p = Some t"
      "\<exists>s1. ?R p s1 \<and> umem s' = umem s1" for c d
      by (rule exchanged_keeps [OF assms(1,5) p e], erule cp)+
    obtain s1 where s1: "?R p s1" "umem s' = umem s1" using k(4) by blast
    then obtain z where "at s p z" "umem s1 = deliver (av z) b (umem s)" by blast
    then have "at s p z" "umem s' = deliver (av z) b (umem s)" using s1(2) by (simp_all only:)
    moreover have "queues_ok s' (L(RunQueue := L RunQueue @ [t]))" by (rule exchangedD [OF e])
    ultimately show "\<exists>p z t. p \<in> waits s (ac y) Rcv \<and> at s p z \<and> owner s p = Some t \<and>
        umem s' = deliver (av z) b (umem s) \<and> queues_ok s' (L(RunQueue := L RunQueue @ [t])) \<and>
        (\<forall>c d. waits s' c d = {q \<in> waits s c d. fst q \<noteq> fst p}) \<and> chan_inv s' (B - {t})"
      using p k(1-3) by blast
  qed (assumption | (elim exE conjE, assumption))+
qed

text \<open>
  C32: \<open>chanalt\<close> decides by what can be carried out now: it carries out one of these operations
  and returns its index; when there is none a non-blocking call returns -1 and has only marked its
  array, and a blocking one queues its operations and waits.
\<close>

theorem chanalt_outcome:
  assumes "taskrunning s = Some t" and "needstack 512 s = Ret () s"
    and "alts s b = Some xs" and "find_end xs = Some n"
    and "\<And>i. i < n \<Longrightarrow> altcanexec s (xs ! i) \<noteq> None"
  shows "((\<exists>i < n. altcanexec s (xs ! i) = Some True) \<longrightarrow>
      (\<exists>i < n. altcanexec s (xs ! i) = Some True \<and>
        chanalt (b, 0) s = bnd (altexec (b, i)) (\<lambda>_. ret (of_nat i)) (drawn (with_marks t b xs n s)))) \<and>
    ((\<forall>i < n. altcanexec s (xs ! i) = Some False) \<longrightarrow>
      chanalt (b, 0) s = (if aop (xs ! n) = CHANEND then wait_for b n (with_marks t b xs n s)
        else Ret (- 1) (with_marks t b xs n s)))"
proof (intro conjI impI)
  let ?F = "can_list s xs [0..<n]"
  note parts = chanalt_parts [OF assms]
  assume "\<exists>i < n. altcanexec s (xs ! i) = Some True"
  then have ne: "?F \<noteq> []" by (auto simp: can_list_def filter_empty_conv)
  let ?i = "?F ! (rnd s (rnds s) mod length ?F)"
  have "?i \<in> set ?F" using ne by (intro nth_mem) simp
  then have "?i < n \<and> altcanexec s (xs ! ?i) = Some True" by (simp add: can_list_def)
  then show "\<exists>i < n. altcanexec s (xs ! i) = Some True \<and>
      chanalt (b, 0) s = bnd (altexec (b, i)) (\<lambda>_. ret (of_nat i)) (drawn (with_marks t b xs n s))"
    using parts ne by (intro exI [of _ ?i]) (simp add: Let_def)
next
  assume none: "\<forall>i < n. altcanexec s (xs ! i) = Some False"
  then have "can_list s xs [0..<n] = []" by (auto simp: can_list_def filter_empty_conv)
  then show "chanalt (b, 0) s = (if aop (xs ! n) = CHANEND then wait_for b n (with_marks t b xs n s)
        else Ret (- 1) (with_marks t b xs n s))"
    using chanalt_parts [OF assms] by (simp add: Let_def)
qed


text \<open>The next allocation succeeds, and there is a pointer left for a channel.\<close>

definition has_memory :: "'z chans_scheme \<Rightarrow> bool" where
  "has_memory s \<longleftrightarrow> alloc_ok s (allocs s) \<and> cbrk s < 2 ^ 32"

text \<open>
  C34: \<open>chancreate\<close> with arguments that are not negative and a size below 4 GiB returns a new, empty
  channel, or ends the process when there is no memory. The size given to \<open>malloc\<close> is computed
  modulo 2^32, unchecked: when it wraps around below the size of the structure, clearing the
  structure writes beyond the object.
\<close>

theorem chancreate_outcome:
  "(unat bsize < 2 ^ 31 \<longrightarrow> 48 + unat bsize * unat esize < 2 ^ 32 \<longrightarrow> has_memory s \<longrightarrow>
      runs (chancreate esize bsize) s (\<lambda>c s'. c = cbrk s \<and> (\<exists>x. chan s' = (chan s)(c \<mapsto> x) \<and> chan_ok x \<and>
        contents x = [] \<and> bufsize x = bsize \<and> elemsize x = esize \<and> an (asend x) = 0 \<and> an (arecv x) = 0))) \<and>
   (\<not> has_memory s \<longrightarrow> halts (chancreate esize bsize) s (Exit 1)) \<and>
   (has_memory s \<longrightarrow> 48 + bsize * esize < 48 \<longrightarrow> halts (chancreate esize bsize) s BadMem)"
proof (intro conjI impI)
  assume b: "unat bsize < 2 ^ 31" and fits: "48 + unat bsize * unat esize < 2 ^ 32" and "has_memory s"
  then have ok: "alloc_ok s (allocs s)" "\<not> 2 ^ 32 \<le> cbrk s" by (simp_all add: has_memory_def)
  have prod: "unat (bsize * esize) = unat bsize * unat esize"
    using fits by (subst unat_mult_lem [THEN iffD1]) auto
  have "unat (48 + bsize * esize) = 48 + unat bsize * unat esize"
    using fits prod unat_add_lem [of 48 "bsize * esize"] by simp
  then have ge: "\<not> 48 + bsize * esize < 48" by (simp add: word_less_nat_alt)
  let ?x = "\<lparr>bufsize = bsize, elemsize = esize, cbuf = map (junk s) [0..<unat bsize * unat esize],
    nbuf = 0, off = 0, asend = no_alts, arecv = no_alts\<rparr>"
  let ?s = "s\<lparr>allocs := Suc (allocs s), cbrk := Suc (cbrk s), chan := (chan s)(cbrk s \<mapsto> ?x)\<rparr>"
  have "chancreate esize bsize s = Ret (cbrk s) ?s"
    using ge prod ok by (simp add: chancreate_def try_alloc_def bnd_def sem_simps Let_def sizeof_Channel_def)
  moreover have "off ?x = 0" "bufsize ?x = bsize" by simp_all
  then have "chan_ok ?x" using b fits by (auto simp: chan_ok_def word_neq_0_conv)
  ultimately show "runs (chancreate esize bsize) s (\<lambda>c s'. c = cbrk s \<and> (\<exists>x. chan s' = (chan s)(c \<mapsto> x) \<and> chan_ok x \<and>
        contents x = [] \<and> bufsize x = bsize \<and> elemsize x = esize \<and> an (asend x) = 0 \<and> an (arecv x) = 0))"
    unfolding runs_def by (intro exI [of _ "cbrk s"] exI [of _ ?s] conjI exI [of _ ?x])
      (simp_all add: contents_def no_alts_def)
next
  show "halts (chancreate esize bsize) s (Exit 1)" if "\<not> has_memory s"
    using that by (auto simp: has_memory_def halts_def chancreate_def try_alloc_def bnd_def sem_simps Let_def)
  show "halts (chancreate esize bsize) s BadMem" if "has_memory s" "48 + bsize * esize < 48"
    using that by (simp add: has_memory_def halts_def chancreate_def try_alloc_def bnd_def sem_simps Let_def sizeof_Channel_def)
qed

text \<open>
  C38: when there is nothing to receive, \<open>channbrecvul\<close> (and \<open>channbrecvp\<close>) returns the
  uninitialised word on its stack: the caller cannot tell it from a word received.
\<close>

theorem channbrecvul_nothing:
  assumes "taskrunning s = Some t" and "needstack 512 s = Ret () s"
    and "chan s c = Some x" and "bufsize x \<noteq> 0" and "nbuf x = 0"
  shows "runs (channbrecvul c) s (\<lambda>v s'. v = of_bytes (map (junk s) [0..<4]) \<and> chan s' = chan s)"
proof -
  let ?bs = "map (junk s) [0..<4]"
  let ?s = "s\<lparr>umem := (umem s)(Local t \<mapsto> ?bs)\<rparr>"
  let ?b = "abrk s" and ?xs = "chanop_alts c CHANRCV (Some (Local t)) False"
  let ?u = "?s\<lparr>abrk := Suc ?b, alts := (alts s)(?b \<mapsto> ?xs)\<rparr>"
  have ns: "needstack 512 ?u = Ret () ?u" by (rule needstack_same [OF assms(2)]) simp_all
  have can: "altcanexec ?u (?xs ! 0) = Some False"
    using assms(3-5) by (simp add: altcanexec_def chanop_alts_def)
  have fe: "find_end ?xs = Some 1" "aop (?xs ! 1) = CHANNOBLK" by (simp_all add: chanop_alts_def)
  have "chanalt (?b, 0) ?u = Ret (- 1) (with_marks t ?b ?xs 1 ?u)"
    using chanalt_parts [OF _ ns, of t ?b ?xs 1] assms(1) fe can by (simp add: can_list_def Let_def)
  then have "runs (chanop c CHANRCV (Some (Local t)) False) ?s
      (\<lambda>i s'. umem s' (Local t) = Some ?bs \<and> chan s' = chan s)"
    by (simp add: chanop_def new_alts_def free_alts_def bnd_def runs_def sem_simps with_marks_def)
  then have "runs (with_local ?bs (\<lambda>p. chanop c CHANRCV (Some p) False)) s (\<lambda>r s'. snd r = ?bs \<and> chan s' = chan s)"
    by (intro with_local_runs [OF assms(1)]) (erule runs_mono, simp)
  then show ?thesis
    unfolding channbrecvul_def recv_word_def by (intro runs_bndI) (simp, intro runs_bndI, erule runs_mono, simp)
qed

section \<open>Instances\<close>

text \<open>Task 0 runs, tasks 1 and 2 are ready, channel 5 is the given one.\<close>

definition chan_state :: "chan \<Rightarrow> chans" where
  "chan_state x = demo RunQueue (qlocks_ext (\<lambda>_. None) (rwlocks_ext (\<lambda>_. \<lparr>readers = 0, writer = None\<rparr>)
     (rendezs_ext (\<lambda>_. None) (chans_ext [5 \<mapsto> x] 6 (\<lambda>_. None) 0 (\<lambda>_. None) 0 (\<lambda>_. 0) 0 (\<lambda>_. 7) ()))))"

definition word_buffer :: chan where
  "word_buffer = \<lparr>bufsize = 2, elemsize = 4, cbuf = replicate 8 0, nbuf = 0, off = 1, asend = no_alts,
     arecv = no_alts\<rparr>"

lemma chan_state_simps [simp]:
  "chan (chan_state x) = [5 \<mapsto> x]" "taskrunning (chan_state x) = Some 0" "alts (chan_state x) b = None"
  "needstack 512 (chan_state x) = Ret () (chan_state x)" "junk (chan_state x) = (\<lambda>_. 7)"
  by (simp_all add: chan_state_def)
    (simp_all add: demo_def needstack_def running_def bnd_def deref_def load_task_def sem_simps task_zero_def)

lemma word_buffer_ok [simp]: "chan_ok word_buffer" "ready_for CHANSND word_buffer"
  by (simp_all add: ready_for_def chan_ok_def word_buffer_def no_alts_def)

theorem transfer_fifo_witness:
  "runs (transfer 5 (Some \<lparr>ac = 5, av = None, aop = CHANSND, atask = None, axalt = None\<rparr>) None)
     (chan_state word_buffer) (\<lambda>_ s'. \<exists>x'. chan s' 5 = Some x' \<and> contents x' = [[0, 0, 0, 0]])"
proof -
  let ?y = "\<lparr>ac = 5, av = None, aop = CHANSND, atask = None, axalt = None\<rparr> :: alt"
  have "operands (chan_state word_buffer) word_buffer (Some ?y) None (Some [0, 0, 0, 0])"
    by (simp add: operands_def supplies_def word_buffer_def) (simp add: numeral_eq_Suc)
  from transfer_fifo [OF _ word_buffer_ok(1) this, of 5]
  have "runs (transfer 5 (Some ?y) None) (chan_state word_buffer)
      (\<lambda>_. moved_data 5 word_buffer (Some [0, 0, 0, 0]) None (chan_state word_buffer))" by simp
  moreover have "contents word_buffer = []" by (simp add: contents_def word_buffer_def)
  ultimately show ?thesis
    by (elim runs_mono) (unfold moved_data_def Let_def, elim exE conjE, simp)
qed

theorem words_roundtrip_witness:
  "runs (bnd (chansendul 5 0xCAFE) (\<lambda>_. chanrecvul 5)) (chan_state word_buffer) (\<lambda>v s'. v = 0xCAFE)"
  by (rule runs_mono [OF words_roundtrip [of "chan_state word_buffer" 0 5 word_buffer]])
    (simp_all, simp_all add: word_buffer_def)

theorem channbrecvul_nothing_witness:
  "runs (channbrecvul 5) (chan_state word_buffer) (\<lambda>v s'. v = 0x07070707)"
proof -
  have l: "[0..<4] = [0, 1, 2, 3 :: nat]" by (simp add: upt_rec)
  have "of_bytes (map (\<lambda>_. 7) [0..<4]) = 0x07070707" by (simp add: l of_bytes_def push_bit_eq_mult)
  moreover have "runs (channbrecvul 5) (chan_state word_buffer)
      (\<lambda>v s'. v = of_bytes (map (junk (chan_state word_buffer)) [0..<4]) \<and> chan s' = chan (chan_state word_buffer))"
    by (rule channbrecvul_nothing [of _ 0 _ word_buffer]) (simp_all, simp_all add: word_buffer_def)
  ultimately show ?thesis by (elim runs_mono) simp
qed

theorem chancreate_outcome_witness:
  "runs (chancreate 4 2) (chan_state word_buffer) (\<lambda>c s'. c = 6) \<and>
   halts (chancreate 65535 65537 :: (chans, cptr) prog) (chan_state word_buffer) BadMem"
proof -
  have a: "alloc_ok (chan_state word_buffer) i" "cbrk (chan_state word_buffer) = 6" for i
    by (simp_all add: chan_state_def) (simp add: demo_def)
  show ?thesis
    using chancreate_outcome [of 2 4 "chan_state word_buffer"] chancreate_outcome [of 65537 65535 "chan_state word_buffer"] a
    by (auto simp: has_memory_def elim!: runs_mono)
qed

text \<open>Task 3 waits to receive from the unbuffered channel 5; task 0 is about to send on it.\<close>

definition unbuffered :: chan where
  "unbuffered = \<lparr>bufsize = 0, elemsize = 4, cbuf = [], nbuf = 0, off = 0, asend = no_alts,
     arecv = \<lparr>aa = [Some (0, 0)], an = 1\<rparr>\<rparr>"

definition recv_alt :: alt where
  "recv_alt = \<lparr>ac = 5, av = Some (Object 0), aop = CHANRCV, atask = Some 3, axalt = Some (0, 0)\<rparr>"

definition send_alt :: alt where
  "send_alt = \<lparr>ac = 5, av = Some (Object 1), aop = CHANSND, atask = None, axalt = None\<rparr>"

definition end_alt :: alt where
  "end_alt = \<lparr>ac = 5, av = None, aop = CHANNOBLK, atask = None, axalt = None\<rparr>"

definition waiting_on :: "chan \<Rightarrow> chans" where
  "waiting_on x = (let s = chan_state x in s\<lparr>tasks := (tasks s)(3 \<mapsto> task_zero),
     alts := [0 \<mapsto> [recv_alt, end_alt], 1 \<mapsto> [send_alt, end_alt]], abrk := 2,
     umem := [Object 0 \<mapsto> [0, 0, 0, 0], Object 1 \<mapsto> [1, 2, 3, 4]], ubrk := 2\<rparr>)"

abbreviation waiting_state :: chans where
  "waiting_state \<equiv> waiting_on unbuffered"

definition awaited :: "chan \<Rightarrow> bool" where
  "awaited x \<longleftrightarrow> chan_ok x \<and> nbuf x = 0 \<and> elemsize x = 4 \<and> asend x = no_alts \<and>
     arecv x = \<lparr>aa = [Some (0, 0)], an = 1\<rparr>"

definition awaited_buffer :: chan where
  "awaited_buffer = word_buffer\<lparr>arecv := \<lparr>aa = [Some (0, 0)], an = 1\<rparr>\<rparr>"

lemma waiting_simps [simp]:
  "chan (waiting_on x) = [5 \<mapsto> x]" "taskrunning (waiting_on x) = Some 0"
  "alts (waiting_on x) = [0 \<mapsto> [recv_alt, end_alt], 1 \<mapsto> [send_alt, end_alt]]"
  "umem (waiting_on x) = [Object 0 \<mapsto> [0, 0, 0, 0], Object 1 \<mapsto> [1, 2, 3, 4]]"
  "tasks (waiting_on x) = (tasks (chan_state x))(3 \<mapsto> task_zero)"
  "needstack 512 (waiting_on x) = Ret () (waiting_on x)"
proof -
  show "needstack 512 (waiting_on x) = Ret () (waiting_on x)"
    by (simp add: waiting_on_def chan_state_def demo_def needstack_def running_def bnd_def deref_def
        load_task_def sem_simps task_zero_def Let_def)
qed (simp_all add: waiting_on_def Let_def)

lemma awaited_simps [simp]: "awaited unbuffered"
    "awaited awaited_buffer"
  by (simp_all add: awaited_def unbuffered_def awaited_buffer_def word_buffer_def chan_ok_def)

lemma waiting_waits:
  "awaited x \<Longrightarrow> waits (waiting_on x) c d = (if c = 5 \<and> d = Rcv then {(0, 0)} else {})"
  by (cases d) (auto simp: waits_def entries_def array_def awaited_def no_alts_def)

lemma waiting_at [simp]: "at (waiting_on x) (0, 0) recv_alt" "at (waiting_on x) (1, 0) send_alt"
  by (simp_all add: at_def)

lemma waiting_inv:
  assumes a: "awaited x"
  shows "chan_inv (waiting_on x) {3}"
  unfolding chan_inv_def
proof (intro conjI allI impI)
  note w = waiting_waits [OF a]
  show "chan_ok y" if "chan (waiting_on x) c = Some y" for c y
    using that a by (auto simp: awaited_def split: if_splits)
  show "arrays_ok (waiting_on x)"
    unfolding arrays_ok_def
  proof (intro allI impI)
    fix c y d
    assume "chan (waiting_on x) c = Some y"
    then have "y = x" by (simp split: if_splits)
    then show "array_ok (array d y)"
      using a by (cases d) (simp_all add: array_def awaited_def, simp add: array_ok_def entries_def)
  qed
  show "consistent (waiting_on x)"
    unfolding consistent_def
  proof (intro allI impI)
    fix c d p
    assume "p \<in> waits (waiting_on x) c d"
    then have "p = (0, 0)" "c = 5" "d = Rcv" by (simp_all add: w split: if_splits)
    moreover have "ac recv_alt = 5" "aop recv_alt = CHANRCV" by (simp_all add: recv_alt_def)
    ultimately show "\<exists>y. at (waiting_on x) p y \<and> ac y = c \<and> chanarray (aop y) = Some d"
      by (intro exI [of _ recv_alt]) (simp add: op_of_side)
  qed
  fix c d p
  assume "p \<in> waits (waiting_on x) c d"
  then have p: "p = (0, 0)" "c = 5" "d = Rcv" by (simp_all add: w split: if_splits)
  have "placed (waiting_on x) 0 [recv_alt, end_alt] 0"
    unfolding placed_def by (intro exI [of _ Rcv]) (simp add: w op_of_side, simp add: recv_alt_def)
  then show "entry_ok (waiting_on x) {3} p"
    unfolding entry_ok_def p
    by (intro exI [of _ "[recv_alt, end_alt]"] exI [of _ 1] exI [of _ 3])
      (use a in \<open>simp, simp add: recv_alt_def end_alt_def awaited_def operand_ok_def accepts_def\<close>)
  show "stuck (waiting_on x) c d p"
    using a by (simp add: stuck_def p w awaited_def)
  show "fst p = fst q" if "q \<in> waits (waiting_on x) c' d'" "owner (waiting_on x) p = owner (waiting_on x) q" for c' d' q
    using that p by (simp add: w split: if_splits)
qed

lemma waiting_queues: "queues_ok waiting_state (demoL RunQueue)"
proof (rule queues_ok_cong)
  show "queues_ok (chan_state unbuffered) (demoL RunQueue)" by (simp add: chan_state_def demo_queues)
  show "\<exists>u. tasks waiting_state p = Some u \<and> tnext u = tnext x \<and> tprev u = tprev x"
    if "tasks (chan_state unbuffered) p = Some x" for p x
    using that by (auto simp: chan_state_def) (auto simp: demo_def)
qed (simp add: waiting_on_def Let_def)

theorem altexec_rendezvous_witness:
  "runs (altexec (1, 0)) waiting_state (\<lambda>_ s'. umem s' (Object 0) = Some [1, 2, 3, 4] \<and>
     queues_ok s' (\<lambda>q. if q = RunQueue then [1, 2, 3] else []) \<and> waits s' 5 Rcv = {})"
proof -
  have d: "3 \<in> dom (tasks waiting_state) \<and> \<not> queued (demoL RunQueue) 3"
    by (auto simp: queued_def demoL_def)
  have q: "(demoL RunQueue)(RunQueue := demoL RunQueue RunQueue @ [3]) = (\<lambda>q. if q = RunQueue then [1, 2, 3] else [])"
    by (auto simp: demoL_def)
  have e: "elemsize unbuffered = 4" "bufsize unbuffered = 0" by (simp_all add: unbuffered_def)
  have sup: "supplies waiting_state (av send_alt) (unat (elemsize unbuffered)) [1, 2, 3, 4]"
    by (simp add: send_alt_def supplies_def e)
  have w: "waits waiting_state (ac send_alt) Rcv = {(0, 0)}" by (simp add: waiting_waits send_alt_def)
  have "runs (altexec (1, 0)) waiting_state (\<lambda>_ s'. \<exists>p z t. p \<in> waits waiting_state (ac send_alt) Rcv \<and>
      at waiting_state p z \<and> owner waiting_state p = Some t \<and>
      umem s' = deliver (av z) [1, 2, 3, 4] (umem waiting_state) \<and>
      queues_ok s' ((demoL RunQueue)(RunQueue := demoL RunQueue RunQueue @ [t])) \<and>
      (\<forall>c d. waits s' c d = {q \<in> waits waiting_state c d. fst q \<noteq> fst p}) \<and> chan_inv s' ({3} - {t}))"
    by (rule altexec_rendezvous [OF waiting_inv [OF awaited_simps(1)] waiting_queues _ waiting_at(2)])
      (use d sup in \<open>auto simp: waiting_waits e send_alt_def\<close>)
  then show ?thesis
  proof (rule runs_mono, elim exE conjE)
    fix u s' p z t
    assume p: "p \<in> waits waiting_state (ac send_alt) Rcv" and z: "at waiting_state p z" and t: "owner waiting_state p = Some t"
      and m: "umem s' = deliver (av z) [1, 2, 3, 4] (umem waiting_state)"
      and qs: "queues_ok s' ((demoL RunQueue)(RunQueue := demoL RunQueue RunQueue @ [t]))"
      and ws: "\<forall>c d. waits s' c d = {q \<in> waits waiting_state c d. fst q \<noteq> fst p}"
    have p0: "p = (0, 0)" using p w by simp
    have "z = recv_alt" using at_unique [OF z [unfolded p0] waiting_at(1)] .
    moreover have "t = 3" using t p0 by (simp add: owner_def recv_alt_def)
    ultimately show "umem s' (Object 0) = Some [1, 2, 3, 4] \<and>
        queues_ok s' (\<lambda>q. if q = RunQueue then [1, 2, 3] else []) \<and> waits s' 5 Rcv = {}"
      using m qs ws q p0 by (simp add: recv_alt_def deliver_def overwrite_def waiting_waits)
  qed
qed

lemma altdequeue_removes_example:
  "runs (altdequeue (0, 0)) waiting_state (\<lambda>_ s'. waits s' 5 Rcv = {})"
proof -
  have "runs (altdequeue (0, 0)) waiting_state (\<lambda>_. dropped {(0, 0)} waiting_state)"
    using altdequeue_removes [OF chan_invD(2,3) [OF waiting_inv [OF awaited_simps(1)]] waiting_at(1), of Rcv]
    by (simp add: waiting_waits op_of_side) (simp add: recv_alt_def)
  then show ?thesis by (rule runs_mono) (simp add: dropped_waits waiting_waits)
qed

theorem chanalt_outcome_witness:
  "chanalt (1, 0) waiting_state =
     bnd (altexec (1, 0)) (\<lambda>_. ret 0) (drawn (with_marks 0 1 [send_alt, end_alt] 1 waiting_state))"
proof -
  have "altcanexec waiting_state ([send_alt, end_alt] ! i) = Some True" if "i < 1" for i
    using that by (simp add: altcanexec_def send_alt_def otherop_def chanarray_def array_def unbuffered_def)
  moreover have "find_end [send_alt, end_alt] = Some 1" by (simp add: send_alt_def end_alt_def)
  ultimately show ?thesis
    using chanalt_outcome [of waiting_state 0 1 "[send_alt, end_alt]" 1] by simp
qed


end
