(* ===== verification/Chanlog.thy ===== *)
theory Chanlog
  imports Chanprops
begin

text \<open>
  The history of a channel: whatever operations are carried out on it and on other channels, in
  whatever order and by whatever tasks, what was taken from it is what was put in, in order.
\<close>

section \<open>One execution, with its data\<close>

text \<open>The sender and the receiver when \<open>y\<close> is carried out: \<open>y\<close> itself and the one it is paired with.\<close>

definition sides :: "'z chans_scheme \<Rightarrow> alt \<Rightarrow> chan \<Rightarrow> alt option \<times> alt option" where
  "sides s y x =
     (let z = (case partner_of s y x of
                 None \<Rightarrow> None
               | Some p \<Rightarrow> map_option (\<lambda>xs. xs ! snd p) (alts s (fst p)))
      in if aop y = CHANSND then (Some y, z) else (z, Some y))"

definition queue_with :: "chan \<Rightarrow> uchar list option \<Rightarrow> uchar list list" where
  "queue_with x bs = contents x @ (case bs of None \<Rightarrow> [] | Some b \<Rightarrow> [b])"

definition moved_to :: "cptr \<Rightarrow> chan \<Rightarrow> uchar list option \<Rightarrow> alt option \<Rightarrow> 'z chans_scheme \<Rightarrow> 'z chans_scheme \<Rightarrow> bool" where
  "moved_to c x bs rx s s' \<longleftrightarrow>
     umem s' = (case rx of None \<Rightarrow> umem s | Some r \<Rightarrow> deliver (av r) (hd (queue_with x bs)) (umem s)) \<and>
     (\<exists>x'. chan s' c = Some x' \<and> chan_ok x' \<and>
        contents x' = (if rx = None then queue_with x bs else tl (queue_with x bs))) \<and>
     (\<forall>c'. c' \<noteq> c \<longrightarrow> rel_option same_data (chan s c') (chan s' c'))"

lemma same_data_contents: "same_data x x' \<Longrightarrow> contents x' = contents x \<and> (chan_ok x \<longrightarrow> chan_ok x')"
  by (simp add: same_data_def contents_def chan_ok_def elem_def slot_of_def)

lemma moved_data_to: "moved_data c x bs (map_option av rx) s s' \<Longrightarrow> moved_to c x bs rx s s'"
  unfolding moved_data_def moved_to_def queue_with_def Let_def
  by (elim exE conjE) (auto split: option.splits simp: option.rel_refl)

lemma finished_data:
  assumes "finished p xs n s s'"
  shows "umem s' = umem s" and "rel_option same_data (chan s c) (chan s' c)"
proof -
  obtain f where f: "rel_option (chan_drop (ops_of (fst p) xs 0 n)) (chan s c) (f c)"
    and m: "sched.more s' = sched.more (s\<lparr>chan := f,
          alts := (alts s)(fst p \<mapsto> xs[0 := (xs ! 0)\<lparr>axalt := Some p\<rparr>])\<rparr>)"
    using assms unfolding finished_def by blast
  show "umem s' = umem s" using chans_more(3) [OF m] by simp
  have "chan s' = f" using chans_more(1) [OF m] by simp
  then show "rel_option same_data (chan s c) (chan s' c)"
    using f by (auto simp: chan_drop_def elim!: option.rel_mono_strong)
qed

lemma moved_to_finished:
  assumes m: "moved_to c x bs rx s s1" and f: "finished p xs n s1 s'"
  shows "moved_to c x bs rx s s'"
proof -
  obtain x' where x': "chan s1 c = Some x'" "chan_ok x'"
    "contents x' = (if rx = None then queue_with x bs else tl (queue_with x bs))"
    using m unfolding moved_to_def by blast
  obtain x'' where "chan s' c = Some x''" "same_data x' x''"
    using finished_data(2) [OF f, of c] x'(1) by (cases "chan s' c") simp_all
  moreover have "rel_option same_data (chan s c') (chan s' c')" if "c' \<noteq> c" for c'
  proof -
    have "rel_option same_data (chan s c') (chan s1 c')" using m that by (simp add: moved_to_def)
    with finished_data(2) [OF f, of c'] show ?thesis
      by (cases "chan s c'"; cases "chan s1 c'"; cases "chan s' c'") (simp_all add: same_data_def)
  qed
  ultimately show ?thesis
    using m x' finished_data(1) [OF f] same_data_contents [of x' x''] unfolding moved_to_def by auto
qed

text \<open>An operation that a task may carry out: it is live, it can be, and its operand has room.\<close>

definition may_exec :: "'z chans_scheme \<Rightarrow> aptr \<Rightarrow> alt \<Rightarrow> chan \<Rightarrow> bool" where
  "may_exec s a y x \<longleftrightarrow>
     at s a y \<and> chan s (ac y) = Some x \<and> chanarray (aop y) \<noteq> None \<and> altcanexec s y = Some True \<and>
     accepts s (av y) (unat (elemsize x)) \<and>
     (\<exists>B L. chan_inv s B \<and> queues_ok s L \<and> (\<forall>t \<in> B. t \<in> dom (tasks s) \<and> \<not> queued L t))"

lemma altexec_moves:
  assumes may: "may_exec s a y x" and sides: "sides s y x = (sx, rx)" and o: "operands s x sx rx bs"
  shows "runs (altexec a) s (\<lambda>_. moved_to (ac y) x bs rx s)"
proof -
  from may obtain d B L where a: "at s a y" and c: "chan s (ac y) = Some x" and d: "chanarray (aop y) = Some d"
    and can: "altcanexec s y = Some True" and inv: "chan_inv s B" and q: "queues_ok s L"
    and live: "\<And>t. t \<in> B \<Longrightarrow> t \<in> dom (tasks s) \<and> \<not> queued L t"
    unfolding may_exec_def by blast
  note D = chan_invD [OF inv]
  show ?thesis
  proof (cases "an (array (opposite d) x) = 0")
    case True
    then have "partner_of s y x = None" by (simp add: partner_of_def partners_def otherop_side [OF d])
    then have e: "sx = (if d = Snd then Some y else None)" "rx = (if d = Snd then None else Some y)"
      using sides d by (cases d; simp add: sides_def op_of_side)+
    have "altexec a s = altcopy (Some a) None s"
      by (rule altexec_alone [OF a c]) (use True otherop_side [OF d] in simp)
    then have "altexec a s = transfer (ac y) sx rx s"
      using altcopy_one [OF a] d e by (cases d) (simp_all add: op_of_side)
    then have "runs (altexec a) s (\<lambda>_. moved_data (ac y) x bs (map_option av rx) s)"
      using transfer_runs [OF c D(1) [OF c] o] by (simp only: runs_def)
    then show ?thesis by (rule runs_mono) (rule moved_data_to)
  next
    case False
    let ?R = "\<lambda>p s1. copied (ac y) x (drawn s) s1 True \<and> moved_to (ac y) x bs rx (drawn s) s1"
    have copy: "runs (altcopy (Some a) (Some p)) (drawn s) (\<lambda>_. ?R p)"
      if p: "p \<in> waits s (ac y) (opposite d)" and pp: "partner_of s y x = Some p" for p
    proof -
      obtain z where z: "at s p z" "ac z = ac y" "chanarray (aop z) = Some (opposite d)"
        using D(3) p unfolding consistent_def by blast
      have zz: "map_option (\<lambda>xs. xs ! snd p) (alts s (fst p)) = Some z" using z(1) by (auto simp: at_def)
      have e: "sx = Some (if d = Snd then y else z)" "rx = Some (if d = Snd then z else y)"
        using sides d by (cases d; simp add: sides_def op_of_side pp zz)+
      have at: "at (drawn s) a y" "at (drawn s) p z" using a z(1) by (simp_all add: at_def)
      have c': "chan (drawn s) (ac y) = Some x" using c by simp
      have o': "operands (drawn s) x sx rx bs"
        using o by (cases sx; cases rx) (simp_all add: operands_def supplies_def accepts_def split: if_splits cong: option.case_cong)
      have t: "altcopy (Some a) (Some p) (drawn s) = transfer (ac y) sx rx (drawn s)"
        using altcopy_two [OF at] d z(3) e by (cases d) (simp_all add: op_of_side)
      have "runs (altcopy (Some a) (Some p)) (drawn s) (\<lambda>_. moved_data (ac y) x bs (map_option av rx) (drawn s))"
        using transfer_runs [OF c' D(1) [OF c] o'] t by (simp only: runs_def)
      then show ?thesis
      proof (rule runs_mono)
        fix u s1
        assume "moved_data (ac y) x bs (map_option av rx) (drawn s) s1"
        then have "copied (ac y) x (drawn s) s1 (sx \<noteq> None \<and> rx \<noteq> None)" "moved_to (ac y) x bs rx (drawn s) s1"
          by (rule moved_copied [OF D(1) [OF c] o'], rule moved_data_to)
        moreover have "sx \<noteq> None \<and> rx \<noteq> None \<longleftrightarrow> True" using e by simp
        ultimately show "?R p s1" by (simp only: simp_thms)
      qed
    qed
    show ?thesis
    proof (rule runs_mono [OF altexec_picked [OF inv a c d False q live copy]])
      fix u s'
      assume "\<exists>p t. p \<in> waits s (ac y) (opposite d) \<and> partner_of s y x = Some p \<and> exchanged s B L ?R p t s'"
      then obtain p xs n s1 where "moved_to (ac y) x bs rx (drawn s) s1" "finished p xs n s1 s'"
        unfolding exchanged_def by blast
      then have "moved_to (ac y) x bs rx (drawn s) s'" by (rule moved_to_finished)
      then show "moved_to (ac y) x bs rx s s'" by (cases rx) (simp_all add: moved_to_def)
    qed auto
  qed
qed

section \<open>The history\<close>

text \<open>The bytes a receiver finds in its memory; with a nil pointer the element is dropped.\<close>

definition taken :: "chan \<Rightarrow> uchar list option \<Rightarrow> alt option \<Rightarrow> 'z chans_scheme \<Rightarrow> uchar list list" where
  "taken x bs rx s' =
     (case rx of
        None \<Rightarrow> []
      | Some r \<Rightarrow> [case av r of
          Some p \<Rightarrow> (case umem s' p of Some xs \<Rightarrow> take (unat (elemsize x)) xs | None \<Rightarrow> [])
        | None \<Rightarrow> hd (queue_with x bs)])"

text \<open>
  \<open>chan_log c s S G\<close>: from its creation to the state \<open>s\<close> the elements \<open>S\<close> were sent on the channel
  \<open>c\<close> and \<open>G\<close> were received. In between anything may happen that leaves its data alone.
\<close>

inductive chan_log :: "cptr \<Rightarrow> 'z chans_scheme \<Rightarrow> uchar list list \<Rightarrow> uchar list list \<Rightarrow> bool" for c where
  created: "chan s c = Some x \<Longrightarrow> chan_ok x \<Longrightarrow> nbuf x = 0 \<Longrightarrow> chan_log c s [] []"
| exec: "chan_log c s S G \<Longrightarrow> may_exec s a y x \<Longrightarrow> sides s y x = (sx, rx) \<Longrightarrow> operands s x sx rx bs \<Longrightarrow>
    altexec a s = Ret u s' \<Longrightarrow>
    chan_log c s' (if ac y = c then S @ (case bs of None \<Rightarrow> [] | Some b \<Rightarrow> [b]) else S)
      (if ac y = c then G @ taken x bs rx s' else G)"
| other: "chan_log c s S G \<Longrightarrow> rel_option same_data (chan s c) (chan s' c) \<Longrightarrow> chan_log c s' S G"

lemma taken_head:
  assumes ok: "chan_ok x" and o: "operands s x sx rx bs" and m: "moved_to c x bs rx s s'"
  shows "taken x bs rx s' = (if rx = None then [] else [hd (queue_with x bs)])" and "rx \<noteq> None \<Longrightarrow> queue_with x bs \<noteq> []"
proof -
  have b: "length b = unat (elemsize x)" if "bs = Some b" for b
    using o that by (auto simp: operands_def dest: supplies_length split: option.splits)
  have len: "length v = unat (elemsize x)" if "v \<in> set (queue_with x bs)" for v
    using that contents_elems [OF ok] b by (auto simp: queue_with_def split: option.splits)
  show q: "queue_with x bs \<noteq> []" if "rx \<noteq> None"
  proof (cases sx)
    case None
    then have "nbuf x \<noteq> 0" "bs = None" using o that by (auto simp: operands_def)
    then show ?thesis using ring_take_ok(2) [OF ok] by (simp add: queue_with_def)
  qed (use o in \<open>auto simp: operands_def queue_with_def\<close>)
  show "taken x bs rx s' = (if rx = None then [] else [hd (queue_with x bs)])"
  proof (cases rx)
    case (Some r)
    have h: "length (hd (queue_with x bs)) = unat (elemsize x)" using q Some by (intro len hd_in_set) simp
    have "accepts s (av r) (unat (elemsize x))" using o Some by (simp add: operands_def)
    then show ?thesis
    proof (cases rule: acceptsE)
      case (2 p xs)
      have "umem s' = deliver (av r) (hd (queue_with x bs)) (umem s)" using m Some by (simp add: moved_to_def)
      then have "umem s' p = Some (overwrite 0 (hd (queue_with x bs)) xs)" using 2 by (simp add: deliver_def)
      then show ?thesis using 2 h Some by (simp add: taken_def overwrite_def)
    qed (use Some in \<open>simp add: taken_def\<close>)
  qed (simp add: taken_def)
qed

text \<open>
  C5: a channel is a FIFO queue for all tasks together: however their operations interleave, with
  each other and with operations on other channels, rendezvous or through the buffer, what was
  received is a prefix of what was sent, byte for byte and in the same order, and the rest is in
  the buffer, which never holds more than its size.
\<close>

theorem channel_fifo:
  assumes "chan_log c s S G"
  shows "\<exists>x. chan s c = Some x \<and> S = G @ contents x \<and> length (contents x) \<le> unat (bufsize x)"
proof -
  have "\<exists>x. chan s c = Some x \<and> chan_ok x \<and> S = G @ contents x" using assms
  proof induction
    case (created s x)
    then show ?case by (simp add: contents_def)
  next
    case (exec s S G a y x sx rx bs u s')
    from exec.IH obtain w where w: "chan s c = Some w" "chan_ok w" "S = G @ contents w" by blast
    have m: "moved_to (ac y) x bs rx s s'"
      using altexec_moves [OF exec.hyps(2,3,4)] exec.hyps(5) by (simp add: runs_def)
    show ?case
    proof (cases "ac y = c")
      case True
      then have "x = w" using exec.hyps(2) w(1) by (simp add: may_exec_def)
      then obtain x' where x': "chan s' c = Some x'" "chan_ok x'"
        "contents x' = (if rx = None then queue_with x bs else tl (queue_with x bs))"
        using m True unfolding moved_to_def by blast
      have "S @ (case bs of None \<Rightarrow> [] | Some b \<Rightarrow> [b]) = (G @ taken x bs rx s') @ contents x'"
        using taken_head [OF _ exec.hyps(4) m] w(2,3) x'(3) \<open>x = w\<close> by (auto simp: queue_with_def)
      then show ?thesis using True x'(1,2) by simp
    next
      case False
      then have "rel_option same_data (chan s c) (chan s' c)" using m by (simp add: moved_to_def)
      then obtain w' where "chan s' c = Some w'" "same_data w w'" using w(1) by (cases "chan s' c") simp_all
      then show ?thesis using False w same_data_contents [of w w'] by simp
    qed
  next
    case (other s S G s')
    then obtain w w' where "chan s c = Some w" "chan_ok w" "S = G @ contents w" "chan s' c = Some w'" "same_data w w'"
      by (cases "chan s' c") auto
    then show ?case using same_data_contents [of w w'] by simp
  qed
  then obtain x where x: "chan s c = Some x" "chan_ok x" "S = G @ contents x" by blast
  then have "length (contents x) \<le> unat (bufsize x)" by (simp add: contents_def chan_ok_def word_le_nat_alt)
  with x show ?thesis by blast
qed

theorem channel_fifo_witness:
  "\<exists>s' x. altexec (1, 0) waiting_state = Ret () s' \<and> chan s' 5 = Some x \<and>
     [[1, 2, 3, 4]] = taken unbuffered (Some [1, 2, 3, 4]) (Some recv_alt) s' @ contents x"
proof -
  have live: "3 \<in> dom (tasks waiting_state) \<and> \<not> queued (demoL RunQueue) 3"
    by (auto simp: queued_def demoL_def)
  have can: "altcanexec waiting_state send_alt = Some True"
    by (simp add: altcanexec_def send_alt_def otherop_def chanarray_def array_def unbuffered_def)
  have f: "ac send_alt = 5" "chanarray (aop send_alt) = Some Snd" "accepts waiting_state (av send_alt) 4" "elemsize unbuffered = 4"
    by (simp_all add: send_alt_def unbuffered_def chanarray_def accepts_def)
  have may: "may_exec waiting_state (1, 0) send_alt unbuffered"
    unfolding may_exec_def
  proof (intro conjI exI)
    show "\<forall>t \<in> {3}. t \<in> dom (tasks waiting_state) \<and> \<not> queued (demoL RunQueue) t" using live by blast
  qed (use f can waiting_inv [OF awaited_simps(1)] waiting_queues waiting_at in simp_all)
  have sides: "sides waiting_state send_alt unbuffered = (Some send_alt, Some recv_alt)"
    by (simp add: sides_def partner_of_def partners_def send_alt_def otherop_def chanarray_def array_def unbuffered_def)
  have o: "operands waiting_state unbuffered (Some send_alt) (Some recv_alt) (Some [1, 2, 3, 4])"
    by (simp add: operands_def supplies_def accepts_def send_alt_def recv_alt_def unbuffered_def)
  obtain s' where s': "altexec (1, 0) waiting_state = Ret () s'"
    using altexec_moves [OF may sides o] by (auto simp: runs_def split: res.splits)
  have "chan_log 5 waiting_state [] []"
    by (rule chan_log.created [of _ _ unbuffered]) (use awaited_simps(1) in \<open>simp_all add: awaited_def\<close>)
  from chan_log.exec [OF this may sides o s'] have "chan_log 5 s' [[1, 2, 3, 4]] (taken unbuffered (Some [1, 2, 3, 4]) (Some recv_alt) s')"
    by (simp add: send_alt_def)
  from channel_fifo [OF this] s' show ?thesis by blast
qed

end
