(* ===== verification/Sys.thy ===== *)
theory Sys
  imports Chanclient
begin

text \<open>
  The operating system as the program sees it. The kernel is not code of the program: what it
  answers is a parameter of the model (\<open>kernel\<close>), a function of all calls made before and of the
  arguments, so that every behaviour of a kernel is one choice of it. The calls with their outcomes
  are recorded in \<open>trace\<close>, the latest first; that is what the outside world observes of the
  program. A failing call sets \<open>errno\<close> and returns -1.
\<close>

section \<open>Calls\<close>

text \<open>
  An internet address. The words \<open>sin_port\<close> and \<open>sin_addr\<close> are in network order: the first byte
  of each, the least significant one of the word, is the most significant one of the number.
\<close>

record sockaddr_in =
  sin_family :: "16 word"
  sin_port :: "16 word"
  sin_addr :: uint

text \<open>Calls that return a number and write nothing into the caller's memory.\<close>

datatype call =
    Getfl cint
  | Setfl cint cint
  | Socket cint cint cint
  | Setsockopt cint cint cint cint
  | Bind cint sockaddr_in
  | Listen cint cint
  | Connect cint sockaddr_in
  | Getpeername cint
  | Close cint
  | Shutdown cint cint
  | Sleep uint

datatype event =
    ETime "cint + cint \<times> cint"
  | EPoll cint "cint + cint"
  | ERead cint "cint + uchar list"
  | EWrite cint "cint + uchar list"
  | ECall call "cint + cint"
  | EGetsockopt cint cint cint "cint + cint"
  | EAccept cint "cint + cint \<times> sockaddr_in"
  | EHost string "uint option"

text \<open>
  The kernel (and the resolver of the C library): failures give the value of \<open>errno\<close>. \<open>k_poll\<close>
  gives the \<open>revents\<close> of every entry, \<open>k_read\<close> the bytes that are read, \<open>k_write\<close> how many of
  the bytes it takes, \<open>k_getsockopt\<close> the option's value, \<open>k_accept\<close> the new descriptor and the
  address of the peer, \<open>k_host\<close> what \<open>gethostbyname\<close> finds.
\<close>

record kern =
  k_time :: "event list \<Rightarrow> cint + cint \<times> cint"
  k_poll :: "event list \<Rightarrow> (cint \<times> 16 word) list \<Rightarrow> cint \<Rightarrow> cint + (nat \<Rightarrow> 16 word)"
  k_read :: "event list \<Rightarrow> cint \<Rightarrow> uint \<Rightarrow> cint + uchar list"
  k_write :: "event list \<Rightarrow> cint \<Rightarrow> uchar list \<Rightarrow> cint + nat"
  k_call :: "event list \<Rightarrow> call \<Rightarrow> cint + cint"
  k_getsockopt :: "event list \<Rightarrow> cint \<Rightarrow> cint \<Rightarrow> cint \<Rightarrow> uint \<Rightarrow> cint + cint"
  k_accept :: "event list \<Rightarrow> cint \<Rightarrow> cint + cint \<times> sockaddr_in"
  k_host :: "event list \<Rightarrow> string \<Rightarrow> uint option"

text \<open>
  \<open>k_time\<close> gives seconds and microseconds. \<open>frame_junk\<close> is what an uninitialised local variable
  contains.
\<close>

record sys = chans +
  kernel :: kern
  trace :: "event list"
  errno :: cint
  frame_junk :: "nat \<Rightarrow> uint"

abbreviation (input) EINTR :: cint where "EINTR \<equiv> 4"
abbreviation (input) EAGAIN :: cint where "EAGAIN \<equiv> 11"
abbreviation (input) ECONNREFUSED :: cint where "ECONNREFUSED \<equiv> 111"
abbreviation (input) EINPROGRESS :: cint where "EINPROGRESS \<equiv> 115"
abbreviation (input) POLLIN :: "16 word" where "POLLIN \<equiv> 1"
abbreviation (input) POLLOUT :: "16 word" where "POLLOUT \<equiv> 4"
abbreviation (input) ONONBLOCK :: cint where "ONONBLOCK \<equiv> 2048"

definition logged :: "event \<Rightarrow> ('z sys_scheme, unit) prog" where
  "logged e = upd (\<lambda>s. s\<lparr>trace := e # trace s\<rparr>)"

text \<open>The end of a call that failed.\<close>

definition failed :: "cint \<Rightarrow> event \<Rightarrow> ('z sys_scheme, cint) prog" where
  "failed e ev = bnd (upd (\<lambda>s. s\<lparr>errno := e, trace := ev # trace s\<rparr>)) (\<lambda>_. ret (- 1))"

definition sys_call :: "call \<Rightarrow> ('z sys_scheme, cint) prog" where
  "sys_call c =
     bnd (get (\<lambda>s. k_call (kernel s) (trace s) c)) (\<lambda>r.
     case r of
       Inl e \<Rightarrow> failed e (ECall c (Inl e))
     | Inr v \<Rightarrow> bnd (logged (ECall c (Inr v))) (\<lambda>_. ret v))"

definition sys_time :: "('z sys_scheme, (cint \<times> cint) option) prog" where
  "sys_time =
     bnd (get (\<lambda>s. k_time (kernel s) (trace s))) (\<lambda>r.
     case r of
       Inl e \<Rightarrow> bnd (failed e (ETime (Inl e))) (\<lambda>_. ret None)
     | Inr v \<Rightarrow> bnd (logged (ETime (Inr v))) (\<lambda>_. ret (Some v)))"

text \<open>Calls with an answer beside their result: \<open>None\<close> where they return -1 or nil.\<close>

definition sys_getsockopt :: "cint \<Rightarrow> cint \<Rightarrow> cint \<Rightarrow> uint \<Rightarrow> ('z sys_scheme, cint option) prog" where
  "sys_getsockopt fd level opt sn =
     bnd (get (\<lambda>s. k_getsockopt (kernel s) (trace s) fd level opt sn)) (\<lambda>r.
     case r of
       Inl e \<Rightarrow> bnd (failed e (EGetsockopt fd level opt (Inl e))) (\<lambda>_. ret None)
     | Inr v \<Rightarrow> bnd (logged (EGetsockopt fd level opt (Inr v))) (\<lambda>_. ret (Some v)))"

definition sys_accept :: "cint \<Rightarrow> ('z sys_scheme, (cint \<times> sockaddr_in) option) prog" where
  "sys_accept fd =
     bnd (get (\<lambda>s. k_accept (kernel s) (trace s) fd)) (\<lambda>r.
     case r of
       Inl e \<Rightarrow> bnd (failed e (EAccept fd (Inl e))) (\<lambda>_. ret None)
     | Inr v \<Rightarrow> bnd (logged (EAccept fd (Inr v))) (\<lambda>_. ret (Some v)))"

definition gethostbyname :: "string \<Rightarrow> ('z sys_scheme, uint option) prog" where
  "gethostbyname name =
     bnd (get (\<lambda>s. k_host (kernel s) (trace s) name)) (\<lambda>r.
     bnd (logged (EHost name r)) (\<lambda>_. ret r))"

text \<open>\<open>read\<close> writes what it got to the start of the buffer.\<close>

definition sys_read :: "cint \<Rightarrow> obj option \<Rightarrow> uint \<Rightarrow> ('z sys_scheme, cint) prog" where
  "sys_read fd buf n =
     bnd (get (\<lambda>s. k_read (kernel s) (trace s) fd n)) (\<lambda>r.
     case r of
       Inl e \<Rightarrow> failed e (ERead fd (Inl e))
     | Inr bs \<Rightarrow>
         bnd (if bs = [] then ret () else write_mem (ref buf) bs) (\<lambda>_.
         bnd (logged (ERead fd (Inr bs))) (\<lambda>_.
         ret (of_nat (length bs)))))"

text \<open>\<open>write\<close> of bytes that lie in no object of the model, a literal of the program.\<close>

definition write_bytes :: "cint \<Rightarrow> uchar list \<Rightarrow> ('z sys_scheme, cint) prog" where
  "write_bytes fd bs =
     bnd (get (\<lambda>s. k_write (kernel s) (trace s) fd bs)) (\<lambda>r.
     case r of
       Inl e \<Rightarrow> failed e (EWrite fd (Inl e))
     | Inr k \<Rightarrow>
         bnd (logged (EWrite fd (Inr (take k bs)))) (\<lambda>_.
         ret (of_nat k)))"

text \<open>\<open>write(fd, buf + from, n)\<close>.\<close>

definition sys_write :: "cint \<Rightarrow> obj option \<Rightarrow> nat \<Rightarrow> uint \<Rightarrow> ('z sys_scheme, cint) prog" where
  "sys_write fd buf from n =
     bnd (read_mem (ref buf) (from + unat n)) (\<lambda>bs. write_bytes fd (drop from bs))"

text \<open>What was written to a descriptor so far.\<close>

fun sent :: "cint \<Rightarrow> event list \<Rightarrow> uchar list" where
  "sent fd [] = []"
| "sent fd (EWrite fd' (Inr bs) # es) = (if fd' = fd then sent fd es @ bs else sent fd es)"
| "sent fd (_ # es) = sent fd es"

text \<open>What was read from a descriptor so far.\<close>

fun received :: "cint \<Rightarrow> event list \<Rightarrow> uchar list" where
  "received fd [] = []"
| "received fd (ERead fd' (Inr bs) # es) = (if fd' = fd then received fd es @ bs else received fd es)"
| "received fd (_ # es) = received fd es"

section \<open>What the calls leave alone\<close>

definition only_sys :: "'z sys_scheme \<Rightarrow> 'z sys_scheme \<Rightarrow> bool" where
  "only_sys s s' \<longleftrightarrow> (\<exists>tr e. s' = s\<lparr>trace := tr, errno := e\<rparr>)"

lemma runs_logged [simp]: "runs (logged e) s P \<longleftrightarrow> P () (s\<lparr>trace := e # trace s\<rparr>)"
  by (simp add: logged_def)

lemma runs_failed [simp]:
  "runs (failed e ev) s P \<longleftrightarrow> P (- 1) (s\<lparr>errno := e, trace := ev # trace s\<rparr>)"
  by (simp add: failed_def runs_bnd)

lemma only_sysI: "only_sys s (s\<lparr>trace := tr\<rparr>)" "only_sys s (s\<lparr>errno := e, trace := tr\<rparr>)"
  by (cases s, auto simp: only_sys_def)+

lemma sys_call_only: "runs (sys_call c) s (\<lambda>_ s'. only_sys s s')"
  by (auto simp: sys_call_def runs_bnd only_sysI split: sum.split)

lemma write_bytes_only: "runs (write_bytes fd bs) s (\<lambda>_ s'. only_sys s s')"
  by (auto simp: write_bytes_def runs_bnd only_sysI split: sum.split)

lemma sys_time_only: "runs sys_time s (\<lambda>_ s'. only_sys s s')"
  and sys_getsockopt_only: "runs (sys_getsockopt fd level opt sn) s (\<lambda>_ s'. only_sys s s')"
  and sys_accept_only: "runs (sys_accept fd) s (\<lambda>_ s'. only_sys s s')"
  and gethostbyname_only: "runs (gethostbyname name) s (\<lambda>_ s'. only_sys s s')"
  by (auto simp: sys_time_def sys_getsockopt_def sys_accept_def gethostbyname_def runs_bnd only_sysI split: sum.split)

end
