(* ===== verification/Fd.thy ===== *)
theory Fd
  imports Sys "HOL-Library.Multiset"
begin

text \<open>
  fd.c: the task \<open>fdtask\<close> that polls for all others, sleeping, and reading and writing of
  descriptors that do not block. This theory has the definitions and what each part does to the
  queues; \<open>Fdclient\<close> shows that the calls keep the invariant of the whole library.
\<close>

section \<open>Data\<close>

text \<open>
  \<open>pollfd\<close> is the array of that name, \<open>polltask\<close> the tasks that wait; both have \<open>MAXFD\<close> elements.
  The list \<open>sleeping\<close> is \<^term>\<open>Sleeping\<close> of the model. The function pointer \<open>fdtask\<close> is the
  number \<open>fn_fdtask\<close>.
\<close>

abbreviation (input) MAXFD :: nat where "MAXFD \<equiv> 1024"

record pollent =
  pfd :: cint
  events :: "16 word"
  revents :: "16 word"

record fds = sys +
  pollfd :: "pollent list"
  polltask :: "tptr option list"
  npollfd :: nat
  startedfdtask :: bool
  sleepingcounted :: int

definition fn_fdtask :: nat where
  "fn_fdtask = 1"

section \<open>Time\<close>

definition nsec :: "('z sys_scheme, uvlong) prog" where
  "nsec =
     bnd sys_time (\<lambda>tv.
     case tv of
       None \<Rightarrow> ret (- 1)
     | Some (sec, usec) \<Rightarrow> ret (scast sec * 1000 * 1000 * 1000 + scast (usec * 1000)))"

text \<open>How long \<open>fdtask\<close> polls when the first sleeper wakes at \<open>a\<close>: in milliseconds.\<close>

definition poll_ms :: "uvlong \<Rightarrow> uvlong \<Rightarrow> cint" where
  "poll_ms now a =
     (if a \<le> now then 0
      else if a \<le> now + 5 * 1000 * 1000 * 1000 then ucast ((a - now) div 1000000)
      else 5000)"

section \<open>The polling task\<close>

definition get_pollfd :: "nat \<Rightarrow> ('z fds_scheme, pollent) prog" where
  "get_pollfd i s = (if i < length (pollfd s) then Ret (pollfd s ! i) s else Halt BadMem s)"

definition set_pollfd :: "nat \<Rightarrow> pollent \<Rightarrow> ('z fds_scheme, unit) prog" where
  "set_pollfd i x s =
     (if i < length (pollfd s) then Ret () (s\<lparr>pollfd := (pollfd s)[i := x]\<rparr>) else Halt BadMem s)"

definition get_polltask :: "nat \<Rightarrow> ('z fds_scheme, tptr option) prog" where
  "get_polltask i s = (if i < length (polltask s) then Ret (polltask s ! i) s else Halt BadMem s)"

definition set_polltask :: "nat \<Rightarrow> tptr option \<Rightarrow> ('z fds_scheme, unit) prog" where
  "set_polltask i t s =
     (if i < length (polltask s) then Ret () (s\<lparr>polltask := (polltask s)[i := t]\<rparr>) else Halt BadMem s)"

text \<open>\<open>poll(pollfd, npollfd, ms)\<close>: it fills in \<open>revents\<close> and returns how many are not 0.\<close>

definition with_revents :: "(nat \<Rightarrow> 16 word) \<Rightarrow> nat \<Rightarrow> pollent list \<Rightarrow> pollent list" where
  "with_revents f n xs = map (\<lambda>i. if i < n then (xs ! i)\<lparr>revents := f i\<rparr> else xs ! i) [0..<length xs]"

definition sys_poll :: "cint \<Rightarrow> ('z fds_scheme, cint) prog" where
  "sys_poll ms =
     bnd (get (\<lambda>s. k_poll (kernel s) (trace s)
       (map (\<lambda>x. (pfd x, events x)) (take (npollfd s) (pollfd s))) ms)) (\<lambda>r.
     case r of
       Inl e \<Rightarrow> failed e (EPoll ms (Inl e))
     | Inr f \<Rightarrow>
         bnd (get npollfd) (\<lambda>n.
         bnd (upd (\<lambda>s. s\<lparr>pollfd := with_revents f n (pollfd s)\<rparr>)) (\<lambda>_.
         let k = of_nat (length (filter (\<lambda>i. f i \<noteq> 0) [0..<n])) in
         bnd (logged (EPoll ms (Inr k))) (\<lambda>_.
         ret k))))"

text \<open>The loop \<open>while (taskyield() > 0)\<close>.\<close>

fun yield_all :: "nat \<Rightarrow> ('z sched_scheme, unit) prog" where
  "yield_all 0 = halt NoFuel"
| "yield_all (Suc k) = bnd taskyield (\<lambda>n. if 0 < sint n then yield_all k else ret ())"

definition poll_timeout :: "('z fds_scheme, cint) prog" where
  "poll_timeout =
     bnd (get (\<lambda>s. head (lists s Sleeping))) (\<lambda>h.
     case h of
       None \<Rightarrow> ret (- 1)
     | Some t \<Rightarrow>
         bnd nsec (\<lambda>now.
         bnd (load_task t) (\<lambda>x.
         ret (poll_ms now (alarmtime x)))))"

text \<open>Entry \<open>i\<close> has an event: its task is ready, and the last entry takes its place.\<close>

definition wake_entry :: "nat \<Rightarrow> ('z fds_scheme, unit) prog" where
  "wake_entry i =
     bnd (get_polltask i) (\<lambda>p.
     bnd (deref p) (\<lambda>t.
     bnd (taskready t) (\<lambda>_.
     bnd (upd (\<lambda>s. s\<lparr>npollfd := npollfd s - 1\<rparr>)) (\<lambda>_.
     bnd (get npollfd) (\<lambda>n.
     bnd (get_pollfd n) (\<lambda>x.
     bnd (set_pollfd i x) (\<lambda>_.
     bnd (get_polltask n) (\<lambda>q.
     set_polltask i q))))))))"

fun wake_here :: "nat \<Rightarrow> nat \<Rightarrow> ('z fds_scheme, unit) prog" where
  "wake_here 0 i = halt NoFuel"
| "wake_here (Suc k) i =
     bnd (get npollfd) (\<lambda>n.
     if i < n then
       bnd (get_pollfd i) (\<lambda>x.
       if revents x \<noteq> 0 then bnd (wake_entry i) (\<lambda>_. wake_here k i) else ret ())
     else ret ())"

fun wake_from :: "nat \<Rightarrow> nat \<Rightarrow> ('z fds_scheme, unit) prog" where
  "wake_from 0 i = halt NoFuel"
| "wake_from (Suc k) i =
     bnd (get npollfd) (\<lambda>n.
     if i < n then bnd (wake_here (Suc n) i) (\<lambda>_. wake_from k (Suc i))
     else ret ())"

definition wake_polled :: "('z fds_scheme, unit) prog" where
  "wake_polled = bnd (get npollfd) (\<lambda>n. wake_from (Suc n) 0)"

text \<open>A sleeper wakes up: a user task that slept is no longer counted twice.\<close>

definition wake_sleeper :: "tptr \<Rightarrow> ('z fds_scheme, unit) prog" where
  "wake_sleeper t =
     bnd (deltask Sleeping t) (\<lambda>_.
     bnd (load_task t) (\<lambda>x.
     bnd (whenp (\<not> tsystem x)
           (bnd (upd (\<lambda>s. s\<lparr>sleepingcounted := sleepingcounted s - 1\<rparr>)) (\<lambda>_.
            bnd (get sleepingcounted) (\<lambda>n.
            whenp (n = 0) (upd (\<lambda>s. s\<lparr>taskcount := taskcount s - 1\<rparr>)))))) (\<lambda>_.
     taskready t)))"

fun wake_sleepers :: "nat \<Rightarrow> uvlong \<Rightarrow> ('z fds_scheme, unit) prog" where
  "wake_sleepers 0 now = halt NoFuel"
| "wake_sleepers (Suc k) now =
     bnd (get (\<lambda>s. head (lists s Sleeping))) (\<lambda>h.
     case h of
       None \<Rightarrow> ret ()
     | Some t \<Rightarrow>
         bnd (load_task t) (\<lambda>x.
         if alarmtime x \<le> now then bnd (wake_sleeper t) (\<lambda>_. wake_sleepers k now)
         else ret ()))"

text \<open>
  The rest of a round of the endless loop. The list of sleepers has at most as many tasks as were
  ever created.
\<close>

definition fdtask_round :: "('z fds_scheme, unit) prog" where
  "fdtask_round =
     bnd (upd (\<lambda>s. s\<lparr>errno := 0\<rparr>)) (\<lambda>_.
     bnd (taskstate ''poll'' []) (\<lambda>_.
     bnd poll_timeout (\<lambda>ms.
     bnd (sys_poll ms) (\<lambda>r.
     bnd (get errno) (\<lambda>e.
     if sint r < 0 then
       if e = EINTR then ret () else taskexitall 0
     else
       bnd wake_polled (\<lambda>_.
       bnd nsec (\<lambda>now.
       bnd (get brk) (\<lambda>m.
       wake_sleepers (Suc m) now))))))))"

fun fdtask_loop :: "nat \<Rightarrow> ('z fds_scheme, unit) prog" where
  "fdtask_loop 0 = halt NoFuel"
| "fdtask_loop (Suc k) = bnd (yield_all (Suc k)) (\<lambda>_. bnd fdtask_round (\<lambda>_. fdtask_loop k))"

definition fdtask :: "nat \<Rightarrow> ('z fds_scheme, unit) prog" where
  "fdtask k =
     bnd tasksystem (\<lambda>_.
     bnd (taskname ''fdtask'' []) (\<lambda>_.
     fdtask_loop k))"

section \<open>Waiting\<close>

definition start_fdtask :: "('z fds_scheme, unit) prog" where
  "start_fdtask =
     bnd (get startedfdtask) (\<lambda>b.
     whenp (\<not> b)
       (bnd (upd (\<lambda>s. s\<lparr>startedfdtask := True\<rparr>)) (\<lambda>_.
        bnd (taskcreate fn_fdtask 0 32768) (\<lambda>_. ret ()))))"

text \<open>The first sleeper from \<open>p\<close> on that does not wake before \<open>when\<close>.\<close>

fun find_later :: "nat \<Rightarrow> uvlong \<Rightarrow> tptr option \<Rightarrow> ('z sched_scheme, tptr option) prog" where
  "find_later 0 w p = halt NoFuel"
| "find_later (Suc k) w p =
     (case p of
        None \<Rightarrow> ret None
      | Some t \<Rightarrow>
          bnd (load_task t) (\<lambda>x.
          if alarmtime x < w then find_later k w (tnext x) else ret (Some t)))"

text \<open>The running task is linked into the list of sleepers before \<open>p\<close>.\<close>

definition link_sleeper :: "uvlong \<Rightarrow> tptr option \<Rightarrow> ('z sched_scheme, unit) prog" where
  "link_sleeper w p =
     bnd running (\<lambda>t.
     bnd (case p of
            Some u \<Rightarrow> bnd (load_task u) (\<lambda>x. mod_task t (\<lambda>y. y\<lparr>tprev := tprev x, tnext := Some u\<rparr>))
          | None \<Rightarrow> bnd (get (\<lambda>s. tail (lists s Sleeping))) (\<lambda>tl.
              mod_task t (\<lambda>y. y\<lparr>tprev := tl, tnext := None\<rparr>))) (\<lambda>_.
     bnd (mod_task t (\<lambda>y. y\<lparr>alarmtime := w\<rparr>)) (\<lambda>_.
     bnd (load_task t) (\<lambda>x.
     bnd (case tprev x of
            Some u \<Rightarrow> mod_task u (\<lambda>y. y\<lparr>tnext := Some t\<rparr>)
          | None \<Rightarrow> mod_list Sleeping (\<lambda>y. y\<lparr>head := Some t\<rparr>)) (\<lambda>_.
     bnd (load_task t) (\<lambda>x.
     case tnext x of
       Some u \<Rightarrow> mod_task u (\<lambda>y. y\<lparr>tprev := Some t\<rparr>)
     | None \<Rightarrow> mod_list Sleeping (\<lambda>y. y\<lparr>tail := Some t\<rparr>)))))))"

definition count_sleeper :: "('z fds_scheme, unit) prog" where
  "count_sleeper =
     bnd running (\<lambda>t.
     bnd (load_task t) (\<lambda>x.
     whenp (\<not> tsystem x)
       (bnd (get sleepingcounted) (\<lambda>n.
        bnd (upd (\<lambda>s. s\<lparr>sleepingcounted := n + 1\<rparr>)) (\<lambda>_.
        whenp (n = 0) (upd (\<lambda>s. s\<lparr>taskcount := taskcount s + 1\<rparr>)))))))"

definition enter_sleep :: "uvlong \<Rightarrow> ('z fds_scheme, unit) prog" where
  "enter_sleep w =
     bnd (get (\<lambda>s. head (lists s Sleeping))) (\<lambda>h.
     bnd (get brk) (\<lambda>m.
     bnd (find_later (Suc m) w h) (\<lambda>p.
     bnd (link_sleeper w p) (\<lambda>_.
     count_sleeper))))"

definition taskdelay :: "uint \<Rightarrow> ('z fds_scheme, uint) prog" where
  "taskdelay ms =
     bnd start_fdtask (\<lambda>_.
     bnd nsec (\<lambda>now.
     bnd (enter_sleep (now + ucast ms * 1000000)) (\<lambda>_.
     bnd taskswitch (\<lambda>_.
     bnd nsec (\<lambda>later.
     ret (ucast ((later - now) div 1000000)))))))"

text \<open>The direction is a character; the diagnostic before the \<open>abort\<close> is left out.\<close>

definition poll_bits :: "char \<Rightarrow> 16 word" where
  "poll_bits dir = (if dir = CHR ''r'' then POLLIN else if dir = CHR ''w'' then POLLOUT else 0)"

definition wait_text :: "char \<Rightarrow> string" where
  "wait_text dir =
     (if dir = CHR ''r'' then ''read'' else if dir = CHR ''w'' then ''write'' else ''error'')"

definition add_poller :: "cint \<Rightarrow> 16 word \<Rightarrow> ('z fds_scheme, unit) prog" where
  "add_poller fd bits =
     bnd (get npollfd) (\<lambda>n.
     bnd (get taskrunning) (\<lambda>t.
     bnd (set_polltask n t) (\<lambda>_.
     bnd (set_pollfd n \<lparr>pfd = fd, events = bits, revents = 0\<rparr>) (\<lambda>_.
     upd (\<lambda>s. s\<lparr>npollfd := n + 1\<rparr>)))))"

definition fdwait :: "cint \<Rightarrow> char \<Rightarrow> ('z fds_scheme, unit) prog" where
  "fdwait fd dir =
     bnd start_fdtask (\<lambda>_.
     bnd (get npollfd) (\<lambda>n.
     if MAXFD \<le> n then halt Abort
     else
       bnd (taskstate ''fdwait for %s'' [VStr (wait_text dir)]) (\<lambda>_.
       bnd (add_poller fd (poll_bits dir)) (\<lambda>_.
       taskswitch))))"

section \<open>Input and output\<close>

text \<open>\<open>int\<close> lengths are converted to \<open>size_t\<close> by the calls. The fuel counts the waits.\<close>

definition again :: "cint \<Rightarrow> ('z sys_scheme, bool) prog" where
  "again m = bnd (get errno) (\<lambda>e. ret (sint m < 0 \<and> e = EAGAIN))"

fun fdread1 :: "nat \<Rightarrow> cint \<Rightarrow> obj option \<Rightarrow> cint \<Rightarrow> ('z fds_scheme, cint) prog" where
  "fdread1 0 fd buf n = halt NoFuel"
| "fdread1 (Suc k) fd buf n =
     bnd (fdwait fd (CHR ''r'')) (\<lambda>_.
     bnd (sys_read fd buf n) (\<lambda>m.
     bnd (again m) (\<lambda>b.
     if b then fdread1 k fd buf n else ret m)))"

fun fdread :: "nat \<Rightarrow> cint \<Rightarrow> obj option \<Rightarrow> cint \<Rightarrow> ('z fds_scheme, cint) prog" where
  "fdread 0 fd buf n = halt NoFuel"
| "fdread (Suc k) fd buf n =
     bnd (sys_read fd buf n) (\<lambda>m.
     bnd (again m) (\<lambda>b.
     if b then bnd (fdwait fd (CHR ''r'')) (\<lambda>_. fdread k fd buf n) else ret m))"

text \<open>The inner loop of \<open>fdwrite\<close>, then the outer one.\<close>

fun write_some :: "nat \<Rightarrow> cint \<Rightarrow> obj option \<Rightarrow> cint \<Rightarrow> cint \<Rightarrow> ('z fds_scheme, cint) prog" where
  "write_some 0 fd buf tot n = halt NoFuel"
| "write_some (Suc k) fd buf tot n =
     bnd (sys_write fd buf (unat tot) (n - tot)) (\<lambda>m.
     bnd (again m) (\<lambda>b.
     if b then bnd (fdwait fd (CHR ''w'')) (\<lambda>_. write_some k fd buf tot n) else ret m))"

fun write_all :: "nat \<Rightarrow> nat \<Rightarrow> cint \<Rightarrow> obj option \<Rightarrow> cint \<Rightarrow> cint \<Rightarrow> ('z fds_scheme, cint) prog" where
  "write_all 0 w fd buf tot n = halt NoFuel"
| "write_all (Suc k) w fd buf tot n =
     (if sint tot < sint n then
        bnd (write_some w fd buf tot n) (\<lambda>m.
        if sint m < 0 then ret m
        else if m = 0 then ret tot
        else write_all k w fd buf (tot + m) n)
      else ret tot)"

text \<open>Every round of the outer loop writes a byte at least, so \<open>n\<close> rounds are enough.\<close>

definition fdwrite :: "nat \<Rightarrow> cint \<Rightarrow> obj option \<Rightarrow> cint \<Rightarrow> ('z fds_scheme, cint) prog" where
  "fdwrite w fd buf n = write_all (Suc (unat n)) w fd buf 0 n"

definition fdnoblock :: "cint \<Rightarrow> ('z sys_scheme, cint) prog" where
  "fdnoblock fd =
     bnd (sys_call (Getfl fd)) (\<lambda>fl.
     sys_call (Setfl fd (or fl ONONBLOCK)))"

section \<open>What the parts do to the queues\<close>

lemma runs_get_pollfd [simp]:
  "runs (get_pollfd i) s P \<longleftrightarrow> i < length (pollfd s) \<and> P (pollfd s ! i) s"
  by (auto simp: runs_def get_pollfd_def)

lemma runs_set_pollfd [simp]:
  "runs (set_pollfd i x) s P \<longleftrightarrow> i < length (pollfd s) \<and> P () (s\<lparr>pollfd := (pollfd s)[i := x]\<rparr>)"
  by (auto simp: runs_def set_pollfd_def)

lemma runs_get_polltask [simp]:
  "runs (get_polltask i) s P \<longleftrightarrow> i < length (polltask s) \<and> P (polltask s ! i) s"
  by (auto simp: runs_def get_polltask_def)

lemma runs_set_polltask [simp]:
  "runs (set_polltask i x) s P \<longleftrightarrow> i < length (polltask s) \<and> P () (s\<lparr>polltask := (polltask s)[i := x]\<rparr>)"
  by (auto simp: runs_def set_polltask_def)

subsection \<open>Going to sleep\<close>

lemma find_later_runs:
  assumes "tlist (tasks s) l xs" and "length xs < k"
  shows "find_later k w (hd_opt xs) s = Ret (hd_opt (dropWhile (\<lambda>p. alarm s p < w) xs)) s"
proof -
  have "find_later k w (hd_opt xs) s = Ret (hd_opt (dropWhile (\<lambda>p. alarm s p < w) xs)) s"
    if "dseg (tasks s) p xs None" "length xs < k" for p k
    using that
  proof (induction xs arbitrary: p k)
    case Nil
    then show ?case by (cases k) (simp_all add: ret_def)
  next
    case (Cons x xs)
    then obtain t where t: "tasks s x = Some t" "tnext t = hd_opt xs" by (auto split: if_splits)
    obtain m where m: "k = Suc m" "length xs < m" using Cons.prems(2) by (cases k) auto
    have ih: "find_later m w (hd_opt xs) s = Ret (hd_opt (dropWhile (\<lambda>p. alarm s p < w) xs)) s"
      using Cons.IH [of "Some x" m] Cons.prems(1) m(2) by simp
    have "alarm s x = alarmtime t" using t by (simp add: alarm_def)
    then show ?case
      using t ih by (simp add: m(1) bnd_def load_task_def ret_def)
  qed
  then show ?thesis using assms unfolding tlist_def by blast
qed

text \<open>\<open>s\<close> with the alarm of \<open>t\<close> set.\<close>

definition set_alarm :: "uvlong \<Rightarrow> tptr \<Rightarrow> 'z sched_scheme \<Rightarrow> 'z sched_scheme" where
  "set_alarm w t s = s\<lparr>tasks := (tasks s)(t := map_option (\<lambda>x. x\<lparr>alarmtime := w\<rparr>) (tasks s t))\<rparr>"

lemma link_tlist:
  assumes tl: "tlist (tasks s) (lists s Sleeping) (ys @ zs)" and t: "t \<notin> set (ys @ zs)"
    and run: "taskrunning s = Some t" and x: "tasks s t = Some x"
  shows "runs (link_sleeper w (hd_opt zs)) s (\<lambda>_ s'.
    tlist (tasks s') (lists s' Sleeping) (ys @ t # zs) \<and> relinked (set_alarm w t s) s' \<and>
    (\<forall>q'. q' \<noteq> Sleeping \<longrightarrow> lists s' q' = lists s q') \<and>
    (\<forall>p. p \<notin> set (ys @ t # zs) \<longrightarrow> tasks s' p = tasks s p))"
  using tl t run x
  by (cases ys rule: rev_cases; cases zs)
    (auto simp: link_sleeper_def runs_bnd tlist_def dseg_append relinked_def unlink_def set_alarm_def)

lemma link_spec:
  assumes ok: "queues_ok s L" and t: "\<not> queued L t" "taskrunning s = Some t" "t \<in> dom (tasks s)"
    and L: "L Sleeping = ys @ zs"
  shows "runs (link_sleeper w (hd_opt zs)) s (\<lambda>_ s'.
    queues_ok s' (L(Sleeping := ys @ t # zs)) \<and> relinked (set_alarm w t s) s')"
proof -
  obtain x where x: "tasks s t = Some x" using t(3) by blast
  have tl: "tlist (tasks s) (lists s Sleeping) (ys @ zs)" using queues_tlist [OF ok, of Sleeping] L by simp
  have fresh: "t \<notin> set (L q)" for q using t(1) by (auto simp: queued_def)
  then have "t \<notin> set (ys @ zs)" using L by metis
  have mem: "z \<in> set (L q') \<Longrightarrow> z \<in> set (ys @ t # zs) \<Longrightarrow> q' = Sleeping" for z q'
    using fresh [of q'] queues_once [OF ok, of z q' Sleeping] L by auto
  show ?thesis
  proof (rule runs_mono [OF link_tlist [OF tl \<open>t \<notin> set (ys @ zs)\<close> t(2) x]], elim conjE, intro conjI)
    fix s'
    assume "tlist (tasks s') (lists s' Sleeping) (ys @ t # zs)"
      "\<forall>q'. q' \<noteq> Sleeping \<longrightarrow> lists s' q' = lists s q'"
      "\<forall>p. p \<notin> set (ys @ t # zs) \<longrightarrow> tasks s' p = tasks s p"
    then show "queues_ok s' (L(Sleeping := ys @ t # zs))"
      using L by (intro queues_okI [OF ok _ _ _ mem]) auto
  qed
qed

subsection \<open>Waking those that polled\<close>

text \<open>The first entries of the two arrays, as pairs.\<close>

definition polled :: "'z fds_scheme \<Rightarrow> (pollent \<times> tptr) list \<Rightarrow> bool" where
  "polled s xs \<longleftrightarrow>
     length (pollfd s) = MAXFD \<and> length (polltask s) = MAXFD \<and> npollfd s = length xs \<and>
     length xs \<le> MAXFD \<and>
     (\<forall>i < length xs. pollfd s ! i = fst (xs ! i) \<and> polltask s ! i = Some (snd (xs ! i)))"

definition only_polls :: "'z fds_scheme \<Rightarrow> 'z fds_scheme \<Rightarrow> bool" where
  "only_polls s s' \<longleftrightarrow>
     (\<exists>a b n. sched.more s' = sched.more (s\<lparr>pollfd := a, polltask := b, npollfd := n\<rparr>))"

lemma fds_more:
  assumes "sched.more s' = sched.more s"
  shows "pollfd s' = pollfd s" "polltask s' = polltask s" "npollfd s' = npollfd s"
    "startedfdtask s' = startedfdtask s" "sleepingcounted s' = sleepingcounted s"
    "kernel s' = kernel s" "trace s' = trace s" "errno s' = errno s"
  using assms by (cases s, cases s', simp)+

lemma fds_own: "sched.more s' = sched.more s \<Longrightarrow> fds.more s' = fds.more s"
  by (cases s, cases s') simp

lemma polled_more:
  assumes "sched.more s' = sched.more s"
  shows "polled s' xs = polled s xs"
  unfolding polled_def fds_more [OF assms] ..

lemma only_pollsI: "sched.more s' = sched.more (s\<lparr>pollfd := a, polltask := b, npollfd := n\<rparr>) \<Longrightarrow> only_polls s s'"
  unfolding only_polls_def by blast

lemma only_polls_refl [simp]: "only_polls s s"
  by (rule only_pollsI [where a = "pollfd s" and b = "polltask s" and n = "npollfd s"]) simp

lemma only_pollsD:
  assumes "only_polls s s'"
  shows "chan s' = chan s" "alts s' = alts s" "umem s' = umem s" "cbrk s' = cbrk s" "abrk s' = abrk s"
    "startedfdtask s' = startedfdtask s" "sleepingcounted s' = sleepingcounted s" "kernel s' = kernel s"
    "ubrk s' = ubrk s" "fds.more s' = fds.more s"
proof -
  obtain a b n where m: "sched.more s' = sched.more (s\<lparr>pollfd := a, polltask := b, npollfd := n\<rparr>)"
    using assms unfolding only_polls_def by blast
  show "chan s' = chan s" "alts s' = alts s" "umem s' = umem s" "cbrk s' = cbrk s" "abrk s' = abrk s"
    "startedfdtask s' = startedfdtask s" "sleepingcounted s' = sleepingcounted s" "kernel s' = kernel s"
    "ubrk s' = ubrk s" "fds.more s' = fds.more s"
    using chans_more [OF m] fds_more [OF m] fds_own [OF m] by simp_all
qed

lemma only_polls_trans:
  assumes "only_polls s s'" and "only_polls s' s''"
  shows "only_polls s s''"
proof -
  obtain a b n where m: "sched.more s' = sched.more (s\<lparr>pollfd := a, polltask := b, npollfd := n\<rparr>)"
    using assms(1) unfolding only_polls_def by blast
  obtain c d k where "sched.more s'' = sched.more (s'\<lparr>pollfd := c, polltask := d, npollfd := k\<rparr>)"
    using assms(2) unfolding only_polls_def by blast
  then have "sched.more s'' = sched.more (s\<lparr>pollfd := c, polltask := d, npollfd := k\<rparr>)"
    using m by (cases s, cases s', cases s'') simp
  then show ?thesis by (rule only_pollsI)
qed

lemma move_last_nth:
  assumes "i < length xs" and "xs ! n = f y" and "xs ! j = f x"
  shows "xs[i := xs ! n] ! j = f (if j = i then y else x)"
  using assms by (cases "j = i") simp_all

lemma wake_entry_spec:
  assumes p: "polled s xs" and i: "i < length xs" and q: "queues_ok s L"
    and t: "snd (xs ! i) \<in> dom (tasks s)" "\<not> queued L (snd (xs ! i))"
  shows "runs (wake_entry i) s (\<lambda>_ s'. polled s' (butlast (xs[i := last xs])) \<and>
    queues_ok s' (L(RunQueue := L RunQueue @ [snd (xs ! i)])) \<and> calm s s' \<and> only_polls s s')"
proof -
  let ?t = "snd (xs ! i)" and ?n = "length xs - 1"
  have "xs \<noteq> []" using i by auto
  then have n: "?n < length xs" and last: "last xs = xs ! ?n" by (simp_all add: last_conv_nth)
  have get: "get_polltask i s = Ret (Some ?t) s" using p i by (simp add: polled_def get_polltask_def)
  obtain s1 where s1: "taskready ?t s = Ret () s1" "queues_ok s1 (L(RunQueue := L RunQueue @ [?t]))"
      "relinked (mark_ready ?t s) s1"
    using taskready_spec [OF q t] by (auto simp: runs_def)
  have m: "sched.more s1 = sched.more s" by (rule ready_more [OF s1(3)])
  have p1: "polled s1 xs" using p polled_more [OF m] by simp
  let ?s = "s1\<lparr>npollfd := ?n, pollfd := (pollfd s1)[i := pollfd s1 ! ?n], polltask := (polltask s1)[i := polltask s1 ! ?n]\<rparr>"
  have "runs (bnd (upd (\<lambda>s. s\<lparr>npollfd := npollfd s - 1\<rparr>)) (\<lambda>_. bnd (get npollfd) (\<lambda>n.
      bnd (get_pollfd n) (\<lambda>x. bnd (set_pollfd i x) (\<lambda>_. bnd (get_polltask n) (\<lambda>q. set_polltask i q)))))) s1
      (\<lambda>_ s'. s' = ?s)"
    using p1 i n by (simp add: runs_bnd polled_def)
  then have run: "runs (wake_entry i) s (\<lambda>_ s'. s' = ?s)"
    using get s1(1) by (simp add: wake_entry_def runs_def deref_def bnd_def [of "taskready _"])
  have len: "length (pollfd s1) = MAXFD" "length (polltask s1) = MAXFD" "length xs \<le> MAXFD"
    and at: "\<And>j. j < length xs \<Longrightarrow> pollfd s1 ! j = fst (xs ! j) \<and> polltask s1 ! j = Some (snd (xs ! j))"
    using p1 by (simp_all add: polled_def)
  have new: "butlast (xs[i := last xs]) ! j = (if j = i then last xs else xs ! j)" if "j < ?n" for j
    using that by (simp add: nth_butlast nth_list_update)
  have "polled ?s (butlast (xs[i := last xs]))"
    unfolding polled_def
  proof (intro conjI allI impI)
    fix j
    assume "j < length (butlast (xs[i := last xs]))"
    then have j: "j < ?n" by simp
    have in_range: "i < length (pollfd s1)" "i < length (polltask s1)" using len i by linarith+
    have l: "pollfd s1 ! ?n = fst (last xs)" "polltask s1 ! ?n = Some (snd (last xs))"
      unfolding last using at [OF n] by blast+
    have "j < length xs" using j by linarith
    note at_j = at [OF this]
    have "(pollfd s1)[i := pollfd s1 ! ?n] ! j = fst (if j = i then last xs else xs ! j)"
      by (rule move_last_nth [OF in_range(1)]) (use l at_j in simp_all)
    moreover have "(polltask s1)[i := polltask s1 ! ?n] ! j = (\<lambda>x. Some (snd x)) (if j = i then last xs else xs ! j)"
      by (rule move_last_nth [OF in_range(2)]) (use l at_j in simp_all)
    ultimately show "pollfd ?s ! j = fst (butlast (xs[i := last xs]) ! j)"
      "polltask ?s ! j = Some (snd (butlast (xs[i := last xs]) ! j))"
      unfolding new [OF j] by simp_all
  qed (use len in simp_all)
  moreover have "queues_ok ?s (L(RunQueue := L RunQueue @ [?t]))"
    by (rule queues_ok_cong [OF s1(2)]) simp_all
  moreover have "calm s ?s" using ready_calm [OF s1(3)] by (simp add: calm_def)
  moreover have "only_polls s ?s"
  proof (rule only_pollsI)
    show "sched.more ?s = sched.more (s\<lparr>pollfd := pollfd ?s, polltask := polltask ?s, npollfd := npollfd ?s\<rparr>)"
      using m by (cases s, cases s1) simp
  qed
  ultimately show ?thesis using run by (auto elim!: runs_mono)
qed

text \<open>
  The state of the two loops at entry \<open>i\<close>: the entries \<open>ws\<close> were found with events and their tasks
  are ready, in this order; the entries \<open>xs\<close> are left, those before \<open>i\<close> without events.
\<close>

definition scanned :: "'z fds_scheme \<Rightarrow> queues \<Rightarrow> (pollent \<times> tptr) list \<Rightarrow> nat \<Rightarrow> 'z fds_scheme
    \<Rightarrow> (pollent \<times> tptr) list \<Rightarrow> (pollent \<times> tptr) list \<Rightarrow> bool" where
  "scanned s0 L xs0 i s xs ws \<longleftrightarrow>
     polled s xs \<and> mset xs + mset ws = mset xs0 \<and> (\<forall>e \<in> set ws. revents (fst e) \<noteq> 0) \<and>
     (\<forall>j < i. j < length xs \<longrightarrow> revents (fst (xs ! j)) = 0) \<and>
     queues_ok s (L(RunQueue := L RunQueue @ map snd ws)) \<and> calm s0 s \<and> only_polls s0 s"

lemma mset_butlast_update:
  assumes "i < length xs"
  shows "mset (butlast (xs[i := last xs])) + {#xs ! i#} = mset xs"
proof -
  obtain ys y where xs: "xs = ys @ [y]" using assms by (cases xs rule: rev_cases) auto
  show ?thesis
  proof (cases "i < length ys")
    case True
    then have "butlast (xs[i := last xs]) = ys[i := y]" "xs ! i = ys ! i" "ys ! i \<in># mset ys"
      by (simp_all add: xs list_update_append nth_append)
    then show ?thesis using True by (simp add: xs mset_update)
  next
    case False
    then show ?thesis using assms by (simp add: xs list_update_append nth_append less_Suc_eq)
  qed
qed

lemma scan_step:
  assumes sc: "scanned s0 L xs0 i s xs ws" and i: "i < length xs" and ev: "revents (fst (xs ! i)) \<noteq> 0"
    and d: "distinct (map snd xs0)" and t: "\<And>p. p \<in> snd ` set xs0 \<Longrightarrow> p \<in> dom (tasks s0) \<and> \<not> queued L p"
  shows "runs (wake_entry i) s (\<lambda>_ s'. scanned s0 L xs0 i s' (butlast (xs[i := last xs])) (ws @ [xs ! i]))"
proof -
  have sc': "polled s xs" "mset xs + mset ws = mset xs0" "\<forall>e \<in> set ws. revents (fst e) \<noteq> 0"
    "\<forall>j < i. j < length xs \<longrightarrow> revents (fst (xs ! j)) = 0"
    "queues_ok s (L(RunQueue := L RunQueue @ map snd ws))" "calm s0 s" "only_polls s0 s"
    using sc by (simp_all add: scanned_def)
  let ?L = "L(RunQueue := L RunQueue @ map snd ws)" and ?t = "snd (xs ! i)"
  have "mset (map snd (xs @ ws)) = mset (map snd xs0)" using sc'(2) by (metis mset_append mset_map)
  then have dist: "distinct (map snd (xs @ ws))" using d mset_eq_imp_distinct_iff by metis
  moreover have "?t \<in> set (map snd xs)" using i by simp
  ultimately have away: "?t \<notin> set (map snd ws)" by (metis disjoint_iff distinct_append map_append)
  have "set xs \<subseteq> set xs0" using sc'(2) by (metis mset_append set_mset_mset set_append sup_ge1)
  then have mem: "?t \<in> snd ` set xs0" using nth_mem [OF i] by blast
  have live: "?t \<in> dom (tasks s)" using t [OF mem] calm_dom [OF sc'(6)] by simp
  have "\<not> queued ?L ?t" using t [OF mem] away by (auto simp: queued_def split: if_splits)
  from wake_entry_spec [OF sc'(1) i sc'(5) live this]
  show ?thesis
  proof (rule runs_mono)
    fix u s'
    assume a: "polled s' (butlast (xs[i := last xs])) \<and>
      queues_ok s' (?L(RunQueue := ?L RunQueue @ [?t])) \<and> calm s s' \<and> only_polls s s'"
    have "mset (butlast (xs[i := last xs])) + mset (ws @ [xs ! i]) = mset xs0"
      using mset_butlast_update [OF i] sc'(2) by (metis add.commute add.left_commute mset_append mset_single_iff_right)
    moreover have "revents (fst (butlast (xs[i := last xs]) ! j)) = 0"
      if "j < i" "j < length (butlast (xs[i := last xs]))" for j
      using that sc'(4) i by (simp add: nth_butlast)
    moreover have "queues_ok s' (L(RunQueue := L RunQueue @ map snd (ws @ [xs ! i])))" using a by simp
    moreover have "calm s0 s'" using calm_trans [OF sc'(6)] a by blast
    moreover have "only_polls s0 s'" using only_polls_trans [OF sc'(7)] a by blast
    ultimately show "scanned s0 L xs0 i s' (butlast (xs[i := last xs])) (ws @ [xs ! i])"
      using a sc'(3) ev by (simp add: scanned_def)
  qed
qed

lemma wake_here_runs:
  assumes sc: "scanned s0 L xs0 i s xs ws" and d: "distinct (map snd xs0)"
    and t: "\<And>p. p \<in> snd ` set xs0 \<Longrightarrow> p \<in> dom (tasks s0) \<and> \<not> queued L p" and k: "length xs < k"
  shows "runs (wake_here k i) s (\<lambda>_ s'. \<exists>xs' ws'. scanned s0 L xs0 (Suc i) s' xs' ws' \<and> length xs' \<le> length xs)"
  using sc k
proof (induction "length xs" arbitrary: s xs ws k rule: less_induct)
  case less
  obtain m where m: "k = Suc m" using less.prems(2) by (cases k) auto
  have p: "polled s xs" using less.prems(1) by (simp add: scanned_def)
  then have n: "npollfd s = length xs" by (simp add: polled_def)
  show ?case
  proof (cases "i < length xs \<and> revents (fst (xs ! i)) \<noteq> 0")
    case True
    let ?xs = "butlast (xs[i := last xs])"
    have get: "get_pollfd i s = Ret (fst (xs ! i)) s" using p True by (simp add: polled_def get_pollfd_def)
    have "wake_here k i s = bnd (wake_entry i) (\<lambda>_. wake_here m i) s"
      using True n get by (simp add: m bnd_def get_def)
    moreover have "runs (bnd (wake_entry i) (\<lambda>_. wake_here m i)) s
        (\<lambda>_ s'. \<exists>xs' ws'. scanned s0 L xs0 (Suc i) s' xs' ws' \<and> length xs' \<le> length xs)"
    proof (rule runs_bndI, rule runs_mono [OF scan_step [OF less.prems(1) _ _ d t]])
      show "i < length xs" "revents (fst (xs ! i)) \<noteq> 0" using True by simp_all
      fix u s1
      assume s1: "scanned s0 L xs0 i s1 ?xs (ws @ [xs ! i])"
      have "length ?xs < length xs" "length ?xs < m" using True less.prems(2) m by auto
      from less.hyps [OF this(1) s1 this(2)]
      show "runs (wake_here m i) s1
          (\<lambda>_ s'. \<exists>xs' ws'. scanned s0 L xs0 (Suc i) s' xs' ws' \<and> length xs' \<le> length xs)"
        by (rule runs_mono) (use \<open>length ?xs < length xs\<close> in \<open>auto intro: order_trans\<close>)
    qed assumption
    ultimately show ?thesis by (simp add: runs_def)
  next
    case False
    have "wake_here k i s = Ret () s"
    proof (cases "i < length xs")
      case True
      then have "get_pollfd i s = Ret (fst (xs ! i)) s" using p by (simp add: polled_def get_pollfd_def)
      then show ?thesis using True False n by (simp add: m bnd_def get_def ret_def)
    qed (use n in \<open>simp add: m bnd_def get_def ret_def\<close>)
    moreover have "scanned s0 L xs0 (Suc i) s xs ws"
      using less.prems(1) False by (auto simp: scanned_def less_Suc_eq)
    ultimately show ?thesis unfolding runs_def by blast
  qed
qed

lemma wake_from_runs:
  assumes sc: "scanned s0 L xs0 i s xs ws" and d: "distinct (map snd xs0)"
    and t: "\<And>p. p \<in> snd ` set xs0 \<Longrightarrow> p \<in> dom (tasks s0) \<and> \<not> queued L p" and k: "length xs - i < k"
  shows "runs (wake_from k i) s (\<lambda>_ s'. \<exists>j xs' ws'. scanned s0 L xs0 j s' xs' ws' \<and> length xs' \<le> j)"
  using sc k
proof (induction k arbitrary: i s xs ws)
  case (Suc k)
  have n: "npollfd s = length xs" using Suc.prems(1) by (simp add: scanned_def polled_def)
  show ?case
  proof (cases "i < length xs")
    case True
    then have "wake_from (Suc k) i s = bnd (wake_here (Suc (length xs)) i) (\<lambda>_. wake_from k (Suc i)) s"
      using n by (simp add: bnd_def get_def)
    moreover have "runs (bnd (wake_here (Suc (length xs)) i) (\<lambda>_. wake_from k (Suc i))) s
        (\<lambda>_ s'. \<exists>j xs' ws'. scanned s0 L xs0 j s' xs' ws' \<and> length xs' \<le> j)"
    proof (rule runs_bndI, rule runs_mono [OF wake_here_runs [OF Suc.prems(1) d t]])
      fix u s1
      assume "\<exists>xs' ws'. scanned s0 L xs0 (Suc i) s1 xs' ws' \<and> length xs' \<le> length xs"
      then obtain xs' ws' where s1: "scanned s0 L xs0 (Suc i) s1 xs' ws'" "length xs' \<le> length xs" by blast
      then have "length xs' - Suc i < k" using Suc.prems(2) True by linarith
      then show "runs (wake_from k (Suc i)) s1
          (\<lambda>_ s'. \<exists>j xs' ws'. scanned s0 L xs0 j s' xs' ws' \<and> length xs' \<le> j)"
        by (rule Suc.IH [OF s1(1)])
    qed simp_all
    ultimately show ?thesis by (simp add: runs_def)
  next
    case False
    then have "wake_from (Suc k) i s = Ret () s" using n by (simp add: bnd_def get_def ret_def)
    moreover have "length xs \<le> i" using False by simp
    ultimately show ?thesis using Suc.prems(1) unfolding runs_def by blast
  qed
qed simp

text \<open>Together: exactly the entries without events are left.\<close>

lemma wake_polled_spec:
  assumes p: "polled s xs" and q: "queues_ok s L" and d: "distinct (map snd xs)"
    and t: "\<And>p. p \<in> snd ` set xs \<Longrightarrow> p \<in> dom (tasks s) \<and> \<not> queued L p"
  shows "runs wake_polled s (\<lambda>_ s'. \<exists>xs' ws. polled s' xs' \<and>
    mset xs' = filter_mset (\<lambda>e. revents (fst e) = 0) (mset xs) \<and>
    mset ws = filter_mset (\<lambda>e. revents (fst e) \<noteq> 0) (mset xs) \<and>
    queues_ok s' (L(RunQueue := L RunQueue @ map snd ws)) \<and> calm s s' \<and> only_polls s s')"
proof -
  have "scanned s L xs 0 s xs []" using p q by (simp add: scanned_def)
  then have "runs (wake_from (Suc (length xs)) 0) s
      (\<lambda>_ s'. \<exists>j xs' ws'. scanned s L xs j s' xs' ws' \<and> length xs' \<le> j)"
    by (rule wake_from_runs [OF _ d t]) simp_all
  then have "runs wake_polled s (\<lambda>_ s'. \<exists>j xs' ws'. scanned s L xs j s' xs' ws' \<and> length xs' \<le> j)"
    using p by (simp add: wake_polled_def runs_bnd polled_def del: wake_from.simps)
  then show ?thesis
  proof (rule runs_mono, elim exE conjE)
    fix s' j xs' ws
    assume sc: "scanned s L xs j s' xs' ws" and j: "length xs' \<le> j"
    have zero: "revents (fst e) = 0" if "e \<in> set xs'" for e
      using sc j that by (auto simp: scanned_def in_set_conv_nth)
    have m: "mset xs = mset xs' + mset ws" and ev: "\<forall>e \<in> set ws. revents (fst e) \<noteq> 0"
      using sc by (simp_all add: scanned_def)
    have "filter_mset (\<lambda>e. revents (fst e) = 0) (mset xs') = mset xs'"
      "filter_mset (\<lambda>e. revents (fst e) \<noteq> 0) (mset xs') = {#}"
      using zero by (auto simp: filter_mset_eq_conv)
    moreover have "filter_mset (\<lambda>e. revents (fst e) = 0) (mset ws) = {#}"
      "filter_mset (\<lambda>e. revents (fst e) \<noteq> 0) (mset ws) = mset ws"
      using ev by (auto simp: filter_mset_eq_conv)
    ultimately show "\<exists>xs' ws. polled s' xs' \<and>
      mset xs' = filter_mset (\<lambda>e. revents (fst e) = 0) (mset xs) \<and>
      mset ws = filter_mset (\<lambda>e. revents (fst e) \<noteq> 0) (mset xs) \<and>
      queues_ok s' (L(RunQueue := L RunQueue @ map snd ws)) \<and> calm s s' \<and> only_polls s s'"
      using sc m by (intro exI [of _ xs'] exI [of _ ws]) (simp add: scanned_def)
  qed
qed

subsection \<open>Counting the sleepers\<close>

text \<open>
  Steps that may change \<open>taskcount\<close> and \<open>sleepingcounted\<close>, apart from the queues.
\<close>

definition drowsy :: "'z fds_scheme \<Rightarrow> 'z fds_scheme \<Rightarrow> bool" where
  "drowsy s s' \<longleftrightarrow> calm s (s'\<lparr>taskcount := taskcount s\<rparr>) \<and>
     (\<exists>c. sched.more s' = sched.more (s\<lparr>sleepingcounted := c\<rparr>))"

lemma drowsyI:
  "calm s (s'\<lparr>taskcount := taskcount s\<rparr>) \<Longrightarrow> sched.more s' = sched.more (s\<lparr>sleepingcounted := c\<rparr>) \<Longrightarrow> drowsy s s'"
  unfolding drowsy_def by blast

lemma drowsy_trans:
  assumes "drowsy s s'" and "drowsy s' s''"
  shows "drowsy s s''"
proof -
  obtain c where m: "sched.more s' = sched.more (s\<lparr>sleepingcounted := c\<rparr>)"
    using assms(1) unfolding drowsy_def by blast
  obtain d where "sched.more s'' = sched.more (s'\<lparr>sleepingcounted := d\<rparr>)"
    using assms(2) unfolding drowsy_def by blast
  then have "sched.more s'' = sched.more (s\<lparr>sleepingcounted := d\<rparr>)"
    using m by (cases s, cases s', cases s'') simp
  moreover have "calm s (s''\<lparr>taskcount := taskcount s\<rparr>)"
    using assms by (simp add: drowsy_def calm_def)
  ultimately show ?thesis by (rule drowsyI [rotated])
qed

lemma calm_drowsy: "calm s s' \<Longrightarrow> sched.more s' = sched.more s \<Longrightarrow> drowsy s s'"
  by (rule drowsyI [where c = "sleepingcounted s"]) (simp_all add: calm_def)

lemma drowsy_refl [simp]: "drowsy s s"
  by (rule calm_drowsy) simp_all

lemma drowsyD:
  assumes "drowsy s s'"
  shows "user_tasks s' = user_tasks s" "alarm s' p = alarm s p" "dom (tasks s') = dom (tasks s)"
    "brk s' = brk s" "taskrunning s' = taskrunning s" "starts_ok P s \<Longrightarrow> starts_ok P s'"
    "chan s' = chan s" "alts s' = alts s" "umem s' = umem s" "cbrk s' = cbrk s" "abrk s' = abrk s"
    "pollfd s' = pollfd s" "polltask s' = polltask s" "npollfd s' = npollfd s" "kernel s' = kernel s"
    "startedfdtask s' = startedfdtask s" "ubrk s' = ubrk s" "fds.more s' = fds.more s"
proof -
  let ?s = "s'\<lparr>taskcount := taskcount s\<rparr>"
  have c: "calm s ?s" using assms by (simp add: drowsy_def)
  show "user_tasks s' = user_tasks s" using calm_user_tasks [OF c] by (simp add: user_tasks_def)
  show "alarm s' p = alarm s p" using calm_alarm [OF c, of p] by (simp add: alarm_def)
  show "dom (tasks s') = dom (tasks s)" using calm_dom [OF c] by simp
  show "brk s' = brk s" "taskrunning s' = taskrunning s" using c by (simp_all add: calm_def)
  show "starts_ok P s \<Longrightarrow> starts_ok P s'" using calm_starts [OF _ c, of P P] by (simp add: starts_ok_def)
  obtain k where m: "sched.more s' = sched.more (s\<lparr>sleepingcounted := k\<rparr>)"
    using assms unfolding drowsy_def by blast
  show "chan s' = chan s" "alts s' = alts s" "umem s' = umem s" "cbrk s' = cbrk s" "abrk s' = abrk s"
    "ubrk s' = ubrk s"
    using chans_more [OF m] by simp_all
  show "pollfd s' = pollfd s" "polltask s' = polltask s" "npollfd s' = npollfd s" "kernel s' = kernel s"
    "startedfdtask s' = startedfdtask s" "fds.more s' = fds.more s"
    using fds_more [OF m] fds_own [OF m] by simp_all
qed

lemma drowsy_sched_inv:
  assumes inv: "sched_inv s L" and d: "drowsy s s'" and q: "queues_ok s' L'"
    and ex: "\<And>p x. tasks s p = Some x \<Longrightarrow> exiting x \<Longrightarrow> \<not> queued L' p"
  shows "sched_inv s' L'"
proof -
  let ?s = "s'\<lparr>taskcount := taskcount s\<rparr>"
  have "calm s ?s" using d by (simp add: drowsy_def)
  moreover have "queues_ok ?s L'" by (rule queues_ok_cong [OF q]) simp_all
  ultimately have i: "sched_inv ?s L'" by (rule calm_sched_inv [OF inv _ _ ex])
  have "alltask_ok s'"
    by (rule alltask_ok_cong [of ?s]) (use i in \<open>simp_all add: sched_inv_def slot_def fun_eq_iff\<close>)
  then show ?thesis using i q by (simp add: sched_inv_def fresh_ok_def)
qed

text \<open>Inserting as \<open>taskdelay\<close> does is the library's insertion into a sorted list.\<close>

lemma insort_key_split:
  "insort_key f x xs = takeWhile (\<lambda>y. f y < f x) xs @ x # dropWhile (\<lambda>y. f y < f x) xs"
  by (induction xs) (auto simp: not_le)

lemma counts_sleep:
  assumes c: "counts_ok s L n" and f: "finite (user_tasks s)" and t: "t \<notin> set (L Sleeping)"
    and u: "user_tasks s' = user_tasks s" and a: "\<And>p. p \<in> set (L Sleeping) \<Longrightarrow> alarm s' p = alarm s p"
    and L': "L' Sleeping = insort_key (alarm s') t (L Sleeping)"
    and tc: "taskcount s' = taskcount s + (if t \<in> user_tasks s \<and> n = 0 then 1 else 0)"
  shows "counts_ok s' L' (n + (if t \<in> user_tasks s then 1 else 0))"
proof -
  have n: "n = int (card (nappers s L))" and s: "sorted (map (alarm s) (L Sleeping))"
    and tc0: "taskcount s = int (card (user_tasks s)) + (if n = 0 then 0 else 1)"
    using c by (simp_all add: counts_ok_def)
  have "map (alarm s') (L Sleeping) = map (alarm s) (L Sleeping)" using a by simp
  then have "sorted (map (alarm s') (L Sleeping))" using s by (simp only:)
  then have "sorted (map (alarm s') (L' Sleeping))" unfolding L' by (rule sorted_insort_key [THEN iffD2])
  moreover have "nappers s' L' = (if t \<in> user_tasks s then insert t (nappers s L) else nappers s L)"
    by (auto simp: nappers_def L' u set_insort_key)
  moreover have "t \<notin> nappers s L" "finite (nappers s L)" using t f by (simp_all add: nappers_def)
  ultimately show ?thesis
    using n tc tc0 u by (simp add: counts_ok_def)
qed

lemma counts_wake:
  assumes c: "counts_ok s L n" and f: "finite (user_tasks s)" and L: "L Sleeping = t # ts" "distinct (t # ts)"
    and u: "user_tasks s' = user_tasks s" and a: "\<And>p. alarm s' p = alarm s p" and L': "L' Sleeping = ts"
    and tc: "taskcount s' = taskcount s - (if t \<in> user_tasks s \<and> n = 1 then 1 else 0)"
  shows "counts_ok s' L' (n - (if t \<in> user_tasks s then 1 else 0))"
proof -
  have n: "n = int (card (nappers s L))" and s: "sorted (map (alarm s) (t # ts))"
    and tc0: "taskcount s = int (card (user_tasks s)) + (if n = 0 then 0 else 1)"
    using c L(1) by (simp_all add: counts_ok_def)
  have "map (alarm s') ts = map (alarm s) ts" using a by simp
  then have s': "sorted (map (alarm s') ts)" using s by (simp del: map_eq_conv)
  have fin: "finite (nappers s L)" using f by (simp add: nappers_def)
  have nap: "nappers s' L' = nappers s L - {t}" using L by (auto simp: nappers_def L' u)
  show ?thesis
  proof (cases "t \<in> user_tasks s")
    case True
    then have "t \<in> nappers s L" using L by (simp add: nappers_def)
    then have "card (nappers s L) = Suc (card (nappers s' L'))"
      unfolding nap using fin by (rule card.remove [rotated])
    then show ?thesis using True n tc tc0 u s' L' by (auto simp: counts_ok_def)
  next
    case False
    then have "nappers s' L' = nappers s L" unfolding nap by (auto simp: nappers_def)
    then show ?thesis using False n tc tc0 u s' L' by (simp add: counts_ok_def)
  qed
qed

text \<open>The first sleeper wakes up.\<close>

lemma wake_sleeper_spec:
  assumes q: "queues_ok s L" and c: "counts_ok s L (sleepingcounted s)" and f: "finite (user_tasks s)"
    and L: "L Sleeping = t # ts"
  shows "runs (wake_sleeper t) s (\<lambda>_ s'. drowsy s s' \<and>
    queues_ok s' (L(Sleeping := ts, RunQueue := L RunQueue @ [t])) \<and>
    counts_ok s' (L(Sleeping := ts, RunQueue := L RunQueue @ [t])) (sleepingcounted s'))"
proof -
  let ?L = "L(Sleeping := ts)" and ?n = "sleepingcounted s"
  have d: "distinct (t # ts)" using queues_tlist [OF q, of Sleeping] L by (simp add: tlist_def)
  have mem: "t \<in> set (L Sleeping)" and rm: "remove1 t (L Sleeping) = ts" using L by simp_all
  obtain s1 where s1: "deltask Sleeping t s = Ret () s1" "queues_ok s1 ?L" "relinked s s1"
    using deltask_spec [OF q mem] by (auto simp: runs_def rm)
  have c1: "calm s s1" by (rule relinked_calm [OF s1(3)])
  have m1: "sched.more s1 = sched.more s" by (rule relinked_more [OF s1(3)])
  have n1: "sleepingcounted s1 = ?n" by (rule fds_more [OF m1])
  obtain x where x: "tasks s1 t = Some x"
    using queued_live [OF q, of t] mem calm_dom [OF c1] by (auto simp: queued_def)
  have user: "tsystem x \<longleftrightarrow> t \<notin> user_tasks s"
    using x unfolding calm_user_tasks [OF c1, symmetric] by (simp add: user_tasks_def)
  let ?k = "if t \<in> user_tasks s then 1 else 0 :: int"
  define s2 where "s2 = s1\<lparr>sleepingcounted := ?n - ?k,
    taskcount := taskcount s - (if t \<in> user_tasks s \<and> ?n = 1 then 1 else 0)\<rparr>"
  have tc1: "taskcount s1 = taskcount s" using c1 by (simp add: calm_def)
  have step: "bnd (load_task t) (\<lambda>x. bnd (whenp (\<not> tsystem x)
           (bnd (upd (\<lambda>s. s\<lparr>sleepingcounted := sleepingcounted s - 1\<rparr>)) (\<lambda>_.
            bnd (get sleepingcounted) (\<lambda>n.
            whenp (n = 0) (upd (\<lambda>s. s\<lparr>taskcount := taskcount s - 1\<rparr>)))))) (\<lambda>_. taskready t)) s1 = taskready t s2"
    using x user n1 tc1
    by (cases s1) (simp add: bnd_def load_task_def whenp_def ret_def upd_def get_def s2_def)
  have q2: "queues_ok s2 ?L" by (rule queues_ok_cong [OF s1(2)]) (simp_all add: s2_def)
  have "t \<in> dom (tasks s2)" using x by (auto simp: s2_def)
  moreover have "\<not> queued ?L t"
    using queues_once [OF q mem] d by (auto simp: queued_def split: if_splits)
  ultimately obtain s3 where s3: "taskready t s2 = Ret () s3"
      "queues_ok s3 (?L(RunQueue := ?L RunQueue @ [t]))" "relinked (mark_ready t s2) s3"
    using taskready_spec [OF q2] by (auto simp: runs_def)
  have c3: "calm s2 s3" by (rule ready_calm [OF s3(3)])
  have m3: "sched.more s3 = sched.more s2" by (rule ready_more [OF s3(3)])
  have n3: "sleepingcounted s3 = ?n - ?k" using fds_more(5) [OF m3] by (simp add: s2_def)
  have dr: "drowsy s s3"
  proof (rule drowsyI)
    show "calm s (s3\<lparr>taskcount := taskcount s\<rparr>)"
      using c1 c3 by (simp add: calm_def s2_def)
    show "sched.more s3 = sched.more (s\<lparr>sleepingcounted := ?n - ?k\<rparr>)"
      using m1 m3 by (cases s, cases s1) (simp add: s2_def)
  qed
  have "counts_ok s3 (L(Sleeping := ts, RunQueue := L RunQueue @ [t])) (?n - ?k)"
  proof (rule counts_wake [OF c f L d])
    show "taskcount s3 = taskcount s - (if t \<in> user_tasks s \<and> ?n = 1 then 1 else 0)"
      using c3 by (simp add: calm_def s2_def)
  qed (simp_all add: drowsyD(1,2) [OF dr])
  moreover have "wake_sleeper t s = Ret () s3"
    using s1(1) s3(1) step by (simp add: wake_sleeper_def)
  ultimately show ?thesis
    using dr s3(2) n3 by (simp add: runs_def)
qed

text \<open>All sleepers whose time has come, in the order of the list.\<close>

lemma wake_sleepers_spec:
  assumes q: "queues_ok s L" and c: "counts_ok s L (sleepingcounted s)" and f: "finite (user_tasks s)"
    and k: "length (L Sleeping) < k"
  shows "runs (wake_sleepers k now) s (\<lambda>_ s'. drowsy s s' \<and>
    (\<exists>L'. L' = L(Sleeping := dropWhile (\<lambda>p. alarm s p \<le> now) (L Sleeping),
        RunQueue := L RunQueue @ takeWhile (\<lambda>p. alarm s p \<le> now) (L Sleeping)) \<and>
      queues_ok s' L' \<and> counts_ok s' L' (sleepingcounted s')))"
  using assms
proof (induction "L Sleeping" arbitrary: s L k)
  case Nil
  then have e: "L(Sleeping := dropWhile P (L Sleeping), RunQueue := L RunQueue @ takeWhile P (L Sleeping)) = L" for P
    by (auto simp: fun_eq_iff)
  obtain m where "k = Suc m" using Nil.prems(4) by (cases k) auto
  moreover have "head (lists s Sleeping) = None" using head_hd [OF Nil.prems(1), of Sleeping] Nil.hyps by simp
  ultimately have "wake_sleepers k now s = Ret () s" by (simp add: bnd_def get_def ret_def)
  then show ?case unfolding runs_def e using Nil.prems by simp
next
  case (Cons t ts)
  have L: "L Sleeping = t # ts" using Cons.hyps(2) by simp
  obtain m where m: "k = Suc m" "length ts < m" using Cons.prems(4) L by (cases k) auto
  have h: "head (lists s Sleeping) = Some t" using head_hd [OF Cons.prems(1), of Sleeping] L by simp
  obtain x where x: "tasks s t = Some x"
    using queued_live [OF Cons.prems(1), of t] L unfolding queued_def by (metis domD list.set_intros(1))
  have a: "alarm s t = alarmtime x" using x by (simp add: alarm_def)
  show ?case
  proof (cases "alarmtime x \<le> now")
    case False
    then have "L(Sleeping := t # ts, RunQueue := L RunQueue @ []) = L" using L by (auto simp: fun_eq_iff)
    then show ?thesis using False h x a L Cons.prems by (simp add: m(1) runs_bnd)
  next
    case True
    let ?L = "L(Sleeping := ts, RunQueue := L RunQueue @ [t])"
    let ?post = "\<lambda>s'. drowsy s s' \<and> (\<exists>L'. L' = L(Sleeping := dropWhile (\<lambda>p. alarm s p \<le> now) (L Sleeping),
        RunQueue := L RunQueue @ takeWhile (\<lambda>p. alarm s p \<le> now) (L Sleeping)) \<and>
      queues_ok s' L' \<and> counts_ok s' L' (sleepingcounted s'))"
    have "runs (bnd (wake_sleeper t) (\<lambda>_. wake_sleepers m now)) s (\<lambda>_. ?post)"
    proof (rule runs_bndI, rule runs_mono [OF wake_sleeper_spec [OF Cons.prems(1-3) L]], elim conjE)
      fix u s1
      assume s1: "drowsy s s1" "queues_ok s1 ?L" "counts_ok s1 ?L (sleepingcounted s1)"
      have Leq: "L(Sleeping := dropWhile P (L Sleeping), RunQueue := L RunQueue @ takeWhile P (L Sleeping)) =
          ?L(Sleeping := dropWhile P ts, RunQueue := ?L RunQueue @ takeWhile P ts)" if "P t" for P
        using that L by (auto simp: fun_eq_iff)
      have al: "alarm s1 = alarm s" using drowsyD(2) [OF s1(1)] by (simp add: fun_eq_iff)
      have "runs (wake_sleepers m now) s1 (\<lambda>_ s'. drowsy s1 s' \<and>
          (\<exists>L'. L' = ?L(Sleeping := dropWhile (\<lambda>p. alarm s1 p \<le> now) (?L Sleeping),
            RunQueue := ?L RunQueue @ takeWhile (\<lambda>p. alarm s1 p \<le> now) (?L Sleeping)) \<and>
          queues_ok s' L' \<and> counts_ok s' L' (sleepingcounted s')))"
        by (rule Cons.hyps(1)) (use s1 Cons.prems(3) drowsyD(1) [OF s1(1)] m(2) in simp_all)
      then show "runs (wake_sleepers m now) s1 (\<lambda>_. ?post)"
      proof (rule runs_mono, elim conjE exE)
        fix u s' L'
        assume p: "drowsy s1 s'" "queues_ok s' L'" "counts_ok s' L' (sleepingcounted s')"
          "L' = ?L(Sleeping := dropWhile (\<lambda>p. alarm s1 p \<le> now) (?L Sleeping),
            RunQueue := ?L RunQueue @ takeWhile (\<lambda>p. alarm s1 p \<le> now) (?L Sleeping))"
        have "L' = L(Sleeping := dropWhile (\<lambda>p. alarm s p \<le> now) (L Sleeping),
            RunQueue := L RunQueue @ takeWhile (\<lambda>p. alarm s p \<le> now) (L Sleeping))"
          using p(4) Leq [of "\<lambda>p. alarm s p \<le> now"] True a by (simp add: al)
        then show "?post s'" using p(2,3) drowsy_trans [OF s1(1) p(1)] by blast
      qed
    qed
    then show ?thesis using True h x by (simp add: m(1) runs_bnd)
  qed
qed

text \<open>The running task joins the sleepers, at its place in the order of the alarm times.\<close>

lemma enter_sleep_spec:
  assumes q: "queues_ok s L" and t: "\<not> queued L t" "taskrunning s = Some t" "t \<in> dom (tasks s)"
    and c: "counts_ok s L (sleepingcounted s)" and f: "fresh_ok s"
  shows "runs (enter_sleep w) s (\<lambda>_ s'. drowsy (set_alarm w t s) s' \<and>
    (\<exists>L'. L' = L(Sleeping := insort_key (alarm (set_alarm w t s)) t (L Sleeping)) \<and>
       queues_ok s' L' \<and> counts_ok s' L' (sleepingcounted s')))"
proof -
  let ?n = "sleepingcounted s" and ?sa = "set_alarm w t s"
  define P where "P = (\<lambda>p. alarm s p < w)"
  define L' where "L' = L(Sleeping := insort_key (alarm ?sa) t (L Sleeping))"
  obtain x where x: "tasks s t = Some x" using t(3) by blast
  have away: "t \<notin> set (L Sleeping)" using t(1) by (auto simp: queued_def)
  have at: "alarm ?sa t = w" and as: "\<And>p. p \<noteq> t \<Longrightarrow> alarm ?sa p = alarm s p"
    using x by (simp_all add: alarm_def set_alarm_def)
  have split: "insort_key (alarm ?sa) t (L Sleeping) =
      takeWhile P (L Sleeping) @ t # dropWhile P (L Sleeping)"
  proof -
    have P: "(alarm ?sa p < alarm ?sa t) = P p" if "p \<in> set (L Sleeping)" for p
    proof -
      have "p \<noteq> t" using that away by auto
      then show ?thesis using as at by (simp add: P_def)
    qed
    then have "takeWhile (\<lambda>p. alarm ?sa p < alarm ?sa t) (L Sleeping) = takeWhile P (L Sleeping)"
      "dropWhile (\<lambda>p. alarm ?sa p < alarm ?sa t) (L Sleeping) = dropWhile P (L Sleeping)"
      by (auto intro!: takeWhile_cong dropWhile_cong)
    then show ?thesis unfolding insort_key_split by (simp only:)
  qed
  have tl: "tlist (tasks s) (lists s Sleeping) (L Sleeping)" by (rule queues_tlist [OF q])
  then have h: "head (lists s Sleeping) = hd_opt (L Sleeping)" by (simp add: tlist_def)
  have "length (L Sleeping) < Suc (brk s)" using queue_length [OF q f, of Sleeping] by simp
  from find_later_runs [OF tl this, of w]
  have find: "find_later (Suc (brk s)) w (hd_opt (L Sleeping)) s = Ret (hd_opt (dropWhile P (L Sleeping))) s"
    by (simp only: P_def)
  obtain s1 where s1: "link_sleeper w (hd_opt (dropWhile P (L Sleeping))) s = Ret () s1"
      "queues_ok s1 L'" "relinked ?sa s1"
    using link_spec [OF q t, of "takeWhile P (L Sleeping)" "dropWhile P (L Sleeping)" w]
    unfolding L'_def split by (auto simp: runs_def)
  have c1: "calm ?sa s1" by (rule relinked_calm [OF s1(3)])
  have m1: "sched.more s1 = sched.more s" using relinked_more [OF s1(3)] by (simp add: set_alarm_def)
  have n1: "sleepingcounted s1 = ?n" by (rule fds_more [OF m1])
  have run1: "taskrunning s1 = Some t" and tc1: "taskcount s1 = taskcount s"
    using c1 t(2) by (simp_all add: calm_def set_alarm_def)
  obtain y where y: "tasks s1 t = Some y" using calm_dom [OF c1] x by (auto simp: set_alarm_def)
  have ut: "user_tasks ?sa = user_tasks s" using x by (auto simp: user_tasks_def set_alarm_def)
  have user: "tsystem y \<longleftrightarrow> t \<notin> user_tasks s"
    using y unfolding ut [symmetric] calm_user_tasks [OF c1, symmetric] by (simp add: user_tasks_def)
  let ?k = "if t \<in> user_tasks s then 1 else 0 :: int"
  define s2 where "s2 = s1\<lparr>sleepingcounted := ?n + ?k,
    taskcount := taskcount s + (if t \<in> user_tasks s \<and> ?n = 0 then 1 else 0)\<rparr>"
  have "count_sleeper s1 = Ret () s2"
    using y user n1 tc1 run1
    by (cases s1) (simp add: count_sleeper_def running_def deref_def bnd_def load_task_def whenp_def
        ret_def upd_def get_def s2_def)
  then have run: "enter_sleep w s = Ret () s2"
    using s1(1) find h by (simp add: enter_sleep_def bnd_def [of "get _"] get_def)
  have dr: "drowsy ?sa s2"
  proof (rule drowsyI)
    show "calm ?sa (s2\<lparr>taskcount := taskcount ?sa\<rparr>)" using c1 by (simp add: calm_def s2_def)
    show "sched.more s2 = sched.more (?sa\<lparr>sleepingcounted := ?n + ?k\<rparr>)"
      using m1 by (cases s, cases s1) (simp add: s2_def set_alarm_def)
  qed
  have "counts_ok s2 L' (?n + ?k)"
  proof (rule counts_sleep [OF c _ away])
    show "finite (user_tasks s)" by (rule finite_user_tasks [OF f])
    have al: "alarm s2 = alarm ?sa" using drowsyD(2) [OF dr] by (simp add: fun_eq_iff)
    show "L' Sleeping = insort_key (alarm s2) t (L Sleeping)" by (simp add: L'_def al)
    show "alarm s2 p = alarm s p" if "p \<in> set (L Sleeping)" for p
      using that away as [of p] by (auto simp: al)
    show "user_tasks s2 = user_tasks s" using drowsyD(1) [OF dr] ut by simp
  qed (simp add: s2_def)
  moreover have "queues_ok s2 L'" by (rule queues_ok_cong [OF s1(2)]) (simp_all add: s2_def)
  ultimately show ?thesis
    using run dr unfolding runs_def L'_def [symmetric] by (auto simp: s2_def)
qed

end
