(* ===== verification/Fdclient.thy ===== *)
theory Fdclient
  imports Fd
begin

text \<open>
  The library with fd.c: every call keeps the invariant. It says of fd.c that the first \<open>npollfd\<close>
  entries of \<open>polltask\<close> are different tasks that are parked and wait for no channel, and of the
  kernel what its manual promises; the parts about the sleepers are in \<open>counts_ok\<close>.
\<close>

section \<open>The invariant\<close>

text \<open>\<open>read\<close> gives no more bytes than asked for, \<open>write\<close> takes no more than it was given.\<close>

definition kern_ok :: "kern \<Rightarrow> bool" where
  "kern_ok K \<longleftrightarrow>
     (\<forall>h fd n bs. k_read K h fd n = Inr bs \<longrightarrow> length bs \<le> unat n) \<and>
     (\<forall>h fd bs k. k_write K h fd bs = Inr k \<longrightarrow> k \<le> length bs)"

definition fd_rest :: "'z fds_scheme \<Rightarrow> tptr set \<Rightarrow> bool" where
  "fd_rest s A \<longleftrightarrow> kern_ok (kernel s) \<and>
     (\<exists>xs. polled s xs \<and> distinct (map snd xs) \<and> snd ` set xs \<subseteq> A)"

definition fd_J :: "'z fds_scheme \<Rightarrow> tptr set \<Rightarrow> bool" where
  "fd_J s A \<longleftrightarrow> chan_fresh s \<and> (\<exists>B \<subseteq> A. chan_inv s B \<and> fd_rest s (A - B))"

text \<open>
  The program's own variables, in the rest of the state: \<open>G\<close> says of their values whether they are
  set up, and which of the channels in them have elements of which size. That they are set up is kept
  once it holds.
\<close>

type_synonym 'z globals = "'z \<Rightarrow> (cptr \<Rightarrow> uint option) option"

definition globals_ok :: "'z globals \<Rightarrow> 'z fds_scheme \<Rightarrow> bool" where
  "globals_ok G s \<longleftrightarrow> (\<exists>C. G (fds.more s) = Some C \<and> env_ok C Map.empty s)"

definition grows :: "'z globals \<Rightarrow> 'z fds_scheme \<Rightarrow> 'z fds_scheme \<Rightarrow> bool" where
  "grows G s s' \<longleftrightarrow> env_grows s s' \<and> (globals_ok G s \<longrightarrow> globals_ok G s')"

definition fd_keep :: "'z globals \<Rightarrow> tptr \<Rightarrow> 'z fds_scheme \<Rightarrow> 'z fds_scheme \<Rightarrow> bool" where
  "fd_keep G u s s' \<longleftrightarrow> chan_keep u s s' \<and> (globals_ok G s \<longrightarrow> globals_ok G s')"

text \<open>
  The task \<open>fdtask\<close> has no argument; the others reach channels and objects from theirs, and all but
  the first use the program's variables.
\<close>

definition fd_pre :: "'z globals \<Rightarrow> (nat \<Rightarrow> uint \<Rightarrow> cptr \<Rightarrow> uint option) \<Rightarrow> (nat \<Rightarrow> uint \<Rightarrow> nat \<Rightarrow> nat option)
    \<Rightarrow> 'z fds_scheme \<Rightarrow> nat \<Rightarrow> uint \<Rightarrow> bool" where
  "fd_pre G C M s fn arg \<longleftrightarrow>
     fn = fn_fdtask \<or> env_ok (C fn arg) (M fn arg) s \<and> (fn \<noteq> 0 \<longrightarrow> globals_ok G s)"

lemma globals_grow: "env_grows s s' \<Longrightarrow> fds.more s' = fds.more s \<Longrightarrow> globals_ok G s \<Longrightarrow> globals_ok G s'"
  unfolding globals_ok_def using env_ok_grows by metis

lemma own_grows: "env_grows s s' \<Longrightarrow> fds.more s' = fds.more s \<Longrightarrow> grows G s s'"
  unfolding grows_def using globals_grow by blast

lemma own_keep: "chan_keep u s s' \<Longrightarrow> fds.more s' = fds.more s \<Longrightarrow> fd_keep G u s s'"
  unfolding fd_keep_def chan_keep_def using globals_grow by blast

lemma keep_grows: "fd_keep G u s s' \<Longrightarrow> grows G s s'"
  by (simp add: fd_keep_def grows_def chan_keep_def)

lemma only_chans_fds:
  assumes "only_chans s s'"
  shows "pollfd s' = pollfd s" "polltask s' = polltask s" "npollfd s' = npollfd s"
    "sleepingcounted s' = sleepingcounted s" "kernel s' = kernel s" "fds.more s' = fds.more s"
proof -
  obtain f cb g ab m ub k where e: "sched.more s' = sched.more (s\<lparr>chan := f, cbrk := cb, alts := g, abrk := ab,
        umem := m, ubrk := ub, rnds := k\<rparr>)"
    using assms unfolding only_chans_def by blast
  show "pollfd s' = pollfd s" "polltask s' = polltask s" "npollfd s' = npollfd s"
    "sleepingcounted s' = sleepingcounted s" "kernel s' = kernel s" "fds.more s' = fds.more s"
    using fds_more [OF e] fds_own [OF e] by simp_all
qed

lemma fd_rest_cong:
  assumes "pollfd s' = pollfd s" "polltask s' = polltask s" "npollfd s' = npollfd s" "kernel s' = kernel s"
  shows "fd_rest s' A = fd_rest s A"
  unfolding fd_rest_def polled_def assms ..

lemma fd_rest_mono: "fd_rest s A \<Longrightarrow> A \<subseteq> A' \<Longrightarrow> fd_rest s A'"
  unfolding fd_rest_def by blast

lemma chan_parts_cong:
  assumes "chan s' = chan s" "alts s' = alts s" "umem s' = umem s" "cbrk s' = cbrk s" "abrk s' = abrk s"
    "ubrk s' = ubrk s"
  shows "chan_fresh s \<Longrightarrow> chan_fresh s'" and "chan_inv s B \<Longrightarrow> chan_inv s' B" and "chan_keep u s s'"
    and "env_grows s s'"
proof -
  show "chan_fresh s \<Longrightarrow> chan_fresh s'" by (simp add: chan_fresh_def assms)
  show "chan_inv s B \<Longrightarrow> chan_inv s' B" by (rule chan_inv_cong) (use assms in simp_all)
  show k: "chan_keep u s s'" for u by (rule keep_cong) (use assms in simp_all)
  from k show "env_grows s s'" unfolding chan_keep_def by blast
qed

lemma fd_J_cong:
  fixes s s' :: "'z fds_scheme"
  assumes J: "fd_J s A"
    and e: "chan s' = chan s" "alts s' = alts s" "umem s' = umem s" "cbrk s' = cbrk s" "abrk s' = abrk s"
      "ubrk s' = ubrk s"
    and f: "pollfd s' = pollfd s" "polltask s' = polltask s" "npollfd s' = npollfd s" "kernel s' = kernel s"
  shows "fd_J s' A"
proof -
  obtain B where "B \<subseteq> A" "chan_inv s B" "fd_rest s (A - B)" using J unfolding fd_J_def by blast
  then have "chan_inv s' B" "fd_rest s' (A - B)"
    using chan_parts_cong(2) [OF e] fd_rest_cong [OF f] by blast+
  moreover have "chan_fresh s'" using chan_parts_cong(1) [OF e] J unfolding fd_J_def by blast
  ultimately show ?thesis unfolding fd_J_def using \<open>B \<subseteq> A\<close> by blast
qed

lemma fd_J_more: "fd_J s A \<Longrightarrow> sched.more s' = sched.more s \<Longrightarrow> fd_J s' A"
  using fd_J_cong [OF _ chans_more(1-6) fds_more(1-3,6)] by blast

lemma fd_J_mono:
  assumes "fd_J s A" and "A \<subseteq> A'"
  shows "fd_J s A'"
proof -
  obtain B where B: "B \<subseteq> A" "chan_inv s B" "fd_rest s (A - B)" using assms(1) unfolding fd_J_def by blast
  have "fd_rest s (A' - B)" by (rule fd_rest_mono [OF B(3)]) (use assms(2) in blast)
  moreover have "B \<subseteq> A'" "chan_fresh s" using B(1) assms by (auto simp: fd_J_def)
  ultimately show ?thesis unfolding fd_J_def using B(2) by blast
qed

interpretation fds: chan_client fd_J "fd_keep G" sleepingcounted "fd_pre G C M" fd_rest
  for C :: "nat \<Rightarrow> uint \<Rightarrow> cptr \<Rightarrow> uint option" and M :: "nat \<Rightarrow> uint \<Rightarrow> nat \<Rightarrow> nat option"
    and G :: "'z globals"
proof unfold_locales
  fix s s' s'' :: "'z fds_scheme" and t u A A' B w r z fn arg
  show "fd_J s A \<Longrightarrow> sched.more s' = sched.more s \<Longrightarrow> fd_J s' A"
    by (rule fd_J_more)
  show "fd_J s A \<Longrightarrow> A \<subseteq> B \<Longrightarrow> fd_J s B" by (rule fd_J_mono)
  show "sched.more s' = sched.more s \<Longrightarrow> fd_keep G t s s'"
    by (rule own_keep [OF chan_keep_more]) (use fds_own in blast)+
  show "fd_keep G t s s' \<Longrightarrow> fd_keep G t s' s'' \<Longrightarrow> fd_keep G t s s''"
    unfolding fd_keep_def using chan_keep_trans by blast
  show "sched.more s' = sched.more s \<Longrightarrow> sleepingcounted s' = sleepingcounted s" by (rule fds_more)
  show "fd_keep G t s s' \<Longrightarrow> fd_pre G C M s fn arg \<Longrightarrow> fd_pre G C M s' fn arg"
    unfolding fd_keep_def chan_keep_def fd_pre_def using env_ok_grows by blast
  show "fd_J s A \<Longrightarrow> fd_J (s\<lparr>qowner := w\<rparr>) A" by (erule fd_J_cong) simp_all
  show "fd_keep G t s (s\<lparr>qowner := w\<rparr>)" by (rule own_keep [OF keep_cong]) simp_all
  show "fd_J s A \<Longrightarrow> fd_J (s\<lparr>rw := r\<rparr>) A" by (erule fd_J_cong) simp_all
  show "fd_keep G t s (s\<lparr>rw := r\<rparr>)" by (rule own_keep [OF keep_cong]) simp_all
  show "fd_J s A \<longleftrightarrow> chan_fresh s \<and> (\<exists>B \<subseteq> A. chan_inv s B \<and> fd_rest s (A - B))"
    by (simp add: fd_J_def)
  show "fd_rest s A \<Longrightarrow> A \<subseteq> A' \<Longrightarrow> fd_rest s A'" by (rule fd_rest_mono)
  show "only_chans s s' \<Longrightarrow> fd_rest s' A = fd_rest s A"
    by (rule fd_rest_cong) (use only_chans_fds in blast)+
  show "only_chans s s' \<Longrightarrow> sleepingcounted s' = sleepingcounted s" by (rule only_chans_fds)
  show "fd_keep G u s s' \<Longrightarrow> chan_keep u s s'" by (simp add: fd_keep_def)
  show "only_chans s s' \<Longrightarrow> chan_keep u s s' \<Longrightarrow> fd_keep G u s s'"
    by (rule own_keep) (simp_all add: only_chans_fds(6))
qed simp_all

section \<open>Steps of fd.c\<close>

text \<open>What the steps of fd.c do not touch.\<close>

definition same_chans :: "'z chans_scheme \<Rightarrow> 'z chans_scheme \<Rightarrow> bool" where
  "same_chans s s' \<longleftrightarrow> chan s' = chan s \<and> alts s' = alts s \<and> umem s' = umem s \<and> cbrk s' = cbrk s \<and>
     abrk s' = abrk s \<and> ubrk s' = ubrk s"

lemma same_chansD:
  assumes "same_chans s s'"
  shows "chan_fresh s \<Longrightarrow> chan_fresh s'" and "chan_inv s B \<Longrightarrow> chan_inv s' B" and "chan_keep u s s'"
  using chan_parts_cong [of s' s] assms unfolding same_chans_def by blast+

lemma same_Others: "same_chans s s' \<Longrightarrow> fds.more s' = fds.more s \<Longrightarrow> fds.Others G t s s'"
  by (simp add: fds.Others_def same_chansD own_keep)

text \<open>The tasks \<open>B\<close> wait for channels, the entries \<open>xs\<close> for descriptors.\<close>

definition fd_state :: "'z globals \<Rightarrow> (nat \<Rightarrow> uint \<Rightarrow> cptr \<Rightarrow> uint option) \<Rightarrow> (nat \<Rightarrow> uint \<Rightarrow> nat \<Rightarrow> nat option)
    \<Rightarrow> tptr \<Rightarrow> queues \<Rightarrow> tptr set \<Rightarrow> (pollent \<times> tptr) list \<Rightarrow> 'z fds_scheme \<Rightarrow> bool" where
  "fd_state G C M t L B xs s \<longleftrightarrow> fds.RunL G C M t L s \<and> B \<subseteq> parked s L \<and> chan_inv s B \<and> chan_fresh s \<and>
     kern_ok (kernel s) \<and> polled s xs \<and> distinct (map snd xs) \<and> snd ` set xs \<subseteq> parked s L - B"

lemma fd_J_I:
  "chan_fresh s \<Longrightarrow> chan_inv s B \<Longrightarrow> kern_ok (kernel s) \<Longrightarrow> polled s xs \<Longrightarrow> distinct (map snd xs) \<Longrightarrow>
   B \<subseteq> A \<Longrightarrow> snd ` set xs \<subseteq> A - B \<Longrightarrow> fd_J s A"
  unfolding fd_J_def fd_rest_def by blast

lemma Run_state: "fds.Run G C M t s \<longleftrightarrow> (\<exists>L B xs. fd_state G C M t L B xs s)"
proof
  assume "fds.Run G C M t s"
  then obtain L where r: "fds.RunL G C M t L s" by (auto simp: fds.Run_RunL)
  from fds.RunL_D(7) [OF r] obtain B xs where "chan_fresh s" "B \<subseteq> parked s L" "chan_inv s B"
      "kern_ok (kernel s)" "polled s xs" "distinct (map snd xs)" "snd ` set xs \<subseteq> parked s L - B"
    unfolding fd_J_def fd_rest_def by blast
  with r have "fd_state G C M t L B xs s" by (simp add: fd_state_def)
  then show "\<exists>L B xs. fd_state G C M t L B xs s" by blast
next
  assume "\<exists>L B xs. fd_state G C M t L B xs s"
  then obtain L where "fds.RunL G C M t L s" unfolding fd_state_def by blast
  then show "fds.Run G C M t s" by (rule fds.RunL_Run)
qed

lemma state_own:
  assumes st: "fd_state G C M t L B xs s" and c: "calm s s'" and q: "queues_ok s' L'"
    and S: "L' Sleeping = L Sleeping" and n: "sleepingcounted s' = sleepingcounted s"
    and ch: "same_chans s s'" and k: "kernel s' = kernel s" and own: "globals_ok G s \<Longrightarrow> globals_ok G s'"
    and p: "polled s' xs'" "distinct (map snd xs')" "snd ` set xs' \<subseteq> snd ` set xs"
    and L': "\<And>p. queued L' p \<Longrightarrow> queued L p \<or> p \<in> snd ` set xs - snd ` set xs'"
  shows "fd_state G C M t L' B xs' s' \<and> fds.Others G t s s'"
proof -
  have r: "fds.RunL G C M t L s" and B: "B \<subseteq> parked s L" "chan_inv s B" "chan_fresh s" "kern_ok (kernel s)"
    and x: "snd ` set xs \<subseteq> parked s L - B"
    using st by (simp_all add: fd_state_def)
  note D = fds.RunL_D [OF r]
  have o: "fds.Others G t s s'" using same_chansD(3) [OF ch] own by (simp add: fds.Others_def fd_keep_def)
  have still: "p \<in> parked s' L'" if "p \<in> parked s L" "p \<notin> snd ` set xs - snd ` set xs'" for p
    using that L' [of p] calm_dom [OF c] c by (auto simp: parked_def calm_def)
  have B': "B \<subseteq> parked s' L'" using still B(1) x by blast
  have x': "snd ` set xs' \<subseteq> parked s' L' - B" using still x p(3) by blast
  have J: "fd_J s' (parked s' L')"
    using fd_J_I [OF same_chansD(1) [OF ch B(3)] same_chansD(2) [OF ch B(2)] _ p(1,2) B' x'] B(4) k by simp
  have "t \<notin> parked s L" using D(2) by (simp add: parked_def)
  then have "\<not> queued L' t" using L' D(4) x by blast
  then have "fds.RunL G C M t L' s'"
    by (rule fds.calm_RunL [OF r fds.mildI [where L = L and L' = L', OF c q S n o] J])
  then show ?thesis
    using o B' x' p(1,2) same_chansD(1) [OF ch B(3)] same_chansD(2) [OF ch B(2)] B(4) k
    by (simp add: fd_state_def)
qed

lemma state_quiet:
  assumes "fd_state G C M t L B xs s" and "calm s s'" and "queues_ok s' L'"
    and "L' Sleeping = L Sleeping" and "sleepingcounted s' = sleepingcounted s"
    and ch: "same_chans s s'" and "kernel s' = kernel s" and own: "fds.more s' = fds.more s"
    and "polled s' xs'" "distinct (map snd xs')" "snd ` set xs' \<subseteq> snd ` set xs"
    and "\<And>p. queued L' p \<Longrightarrow> queued L p \<or> p \<in> snd ` set xs - snd ` set xs'"
  shows "fd_state G C M t L' B xs' s' \<and> fds.Others G t s s'"
proof (rule state_own [OF assms(1-7) _ assms(9-11)])
  show "queued L' p \<Longrightarrow> queued L p \<or> p \<in> snd ` set xs - snd ` set xs'" for p by (rule assms(12))
  have "env_grows s s'" using same_chansD(3) [OF ch] unfolding chan_keep_def by blast
  then show "globals_ok G s \<Longrightarrow> globals_ok G s'" using globals_grow own by blast
qed

text \<open>Calls of the kernel.\<close>

lemma only_sys_state:
  assumes st: "fd_state G C M t L B xs s" and o: "only_sys s s'"
  shows "fd_state G C M t L B xs s' \<and> fds.Others G t s s'"
proof -
  obtain tr e where s': "s' = s\<lparr>trace := tr, errno := e\<rparr>" using o unfolding only_sys_def by blast
  have r: "fds.RunL G C M t L s" and q: "polled s xs" "distinct (map snd xs)"
    using st by (simp_all add: fd_state_def)
  show ?thesis
  proof (rule state_quiet [OF st])
    show "queues_ok s' L" by (rule queues_ok_cong [OF fds.RunL_D(1) [OF r]]) (simp_all add: s')
    show "polled s' xs" using q(1) by (simp add: s' polled_def)
  qed (use q(2) in \<open>simp_all add: s' calm_def same_chans_def\<close>)
qed

lemma OK_only_sys:
  assumes "\<And>s L B xs. fd_state G C M t L B xs s \<Longrightarrow> runs m s (\<lambda>_ s'. only_sys s s')"
  shows "fds.OK G C M t m"
proof (rule fds.Safe_runs)
  fix s :: "'a fds_scheme"
  assume "fds.Run G C M t s"
  then obtain L B xs where st: "fd_state G C M t L B xs s" by (auto simp: Run_state)
  show "runs m s (\<lambda>a s'. fds.Run G C M t s' \<and> fds.Others G t s s' \<and> True)"
    by (rule runs_mono [OF assms [OF st]]) (use only_sys_state [OF st] in \<open>auto simp: Run_state\<close>)
qed

lemma OK_state:
  assumes "\<And>s L B xs. fd_state G C M t L B xs s \<Longrightarrow>
    runs m s (\<lambda>_ s'. (\<exists>L' B' xs'. fd_state G C M t L' B' xs' s') \<and> fds.Others G t s s')"
  shows "fds.OK G C M t m"
proof (rule fds.Safe_runs)
  fix s :: "'a fds_scheme"
  assume "fds.Run G C M t s"
  then obtain L B xs where st: "fd_state G C M t L B xs s" by (auto simp: Run_state)
  show "runs m s (\<lambda>a s'. fds.Run G C M t s' \<and> fds.Others G t s s' \<and> True)"
    by (rule runs_mono [OF assms [OF st]]) (auto simp: Run_state)
qed

lemma fd_stateD:
  assumes "fd_state G C M t L B xs s"
  shows "fds.RunL G C M t L s" "queues_ok s L" "taskrunning s = Some t" "t \<in> dom (tasks s)" "\<not> queued L t"
    "fresh_ok s" "finite (user_tasks s)" "counts_ok s L (sleepingcounted s)" "polled s xs"
    "distinct (map snd xs)" "\<And>p. p \<in> snd ` set xs \<Longrightarrow> p \<in> dom (tasks s) \<and> \<not> queued L p \<and> p \<noteq> t"
    "kern_ok (kernel s)" "chan_inv s B" "chan_fresh s" "t \<notin> B"
proof -
  have r: "fds.RunL G C M t L s" and x: "snd ` set xs \<subseteq> parked s L - B" and b: "B \<subseteq> parked s L"
    using assms by (simp_all add: fd_state_def)
  show "fds.RunL G C M t L s" by (rule r)
  show run: "taskrunning s = Some t" and "queues_ok s L" "t \<in> dom (tasks s)" "\<not> queued L t" "fresh_ok s"
    by (rule fds.RunL_D [OF r])+
  then show "finite (user_tasks s)" using finite_user_tasks by blast
  show "counts_ok s L (sleepingcounted s)" using r by (simp add: fds.RunL_def fds.Inv_def)
  show "polled s xs" "distinct (map snd xs)" "kern_ok (kernel s)" "chan_inv s B" "chan_fresh s"
    using assms by (simp_all add: fd_state_def)
  show "p \<in> dom (tasks s) \<and> \<not> queued L p \<and> p \<noteq> t" if "p \<in> snd ` set xs" for p
    using x that run unfolding parked_def by auto
  show "t \<notin> B" using b run by (auto simp: parked_def)
qed

section \<open>The parts of fdtask\<close>

lemma only_sys_trans: "only_sys s s' \<Longrightarrow> only_sys s' s'' \<Longrightarrow> only_sys s s''"
  by (cases s) (auto simp: only_sys_def)

lemma only_sys_refl [simp]: "only_sys s s"
  by (cases s) (auto simp: only_sys_def)

lemma nsec_only: "runs nsec s (\<lambda>_ s'. only_sys s s')"
  unfolding nsec_def
  by (rule runs_bndI, rule runs_mono [OF sys_time_only]) (auto split: option.split)

lemma OK_nsec: "fds.OK G C M t nsec" and OK_sys_call: "fds.OK G C M t (sys_call c)"
  and OK_write_bytes: "fds.OK G C M t (write_bytes fd bs)"
  by (rule OK_only_sys, rule nsec_only sys_call_only write_bytes_only)+

lemma OK_fdnoblock: "fds.OK G C M t (fdnoblock fd)"
  unfolding fdnoblock_def by (rule fds.OK_bnd [OF OK_sys_call OK_sys_call])

lemma OK_clear_errno: "fds.OK G C M t (upd (\<lambda>s. s\<lparr>errno := e\<rparr>))"
proof (rule OK_only_sys)
  fix s :: "'a fds_scheme"
  have "only_sys s (s\<lparr>errno := e\<rparr>)" by (cases s) (auto simp: only_sys_def)
  then show "runs (upd (\<lambda>s. s\<lparr>errno := e\<rparr>)) s (\<lambda>_ s'. only_sys s s')" by simp
qed

lemma OK_poll_timeout: "fds.OK G C M t poll_timeout"
proof (rule OK_only_sys)
  fix s :: "'a fds_scheme" and L B xs
  assume st: "fd_state G C M t L B xs s"
  show "runs poll_timeout s (\<lambda>_ s'. only_sys s s')"
  proof (cases "head (lists s Sleeping)")
    case None
    then show ?thesis by (simp add: poll_timeout_def runs_bnd)
  next
    case (Some u)
    then have "u \<in> set (L Sleeping)" using head_hd [OF fd_stateD(2) [OF st], of Sleeping] by (auto simp: hd_opt_Some)
    then have "u \<in> dom (tasks s)" using queued_live [OF fd_stateD(2) [OF st], of u] unfolding queued_def by blast
    then obtain x where x: "tasks s u = Some x" by blast
    have "runs (bnd (load_task u) (\<lambda>x. ret (poll_ms now (alarmtime x)))) s1 (\<lambda>_ s'. only_sys s s')"
      if "only_sys s s1" for s1 now
    proof -
      have "tasks s1 u = Some x" using that x by (auto simp: only_sys_def)
      then show ?thesis using that by (simp add: runs_bnd)
    qed
    then have "runs (bnd nsec (\<lambda>now. bnd (load_task u) (\<lambda>x. ret (poll_ms now (alarmtime x))))) s (\<lambda>_ s'. only_sys s s')"
      by (subst runs_bnd) (rule runs_mono [OF nsec_only])
    then show ?thesis using Some by (simp add: poll_timeout_def runs_bnd)
  qed
qed

lemma polled_with_revents:
  assumes "polled s xs" and s': "pollfd s' = with_revents f (npollfd s) (pollfd s)" "polltask s' = polltask s"
    "npollfd s' = npollfd s"
  shows "polled s' (map (\<lambda>i. ((fst (xs ! i))\<lparr>revents := f i\<rparr>, snd (xs ! i))) [0..<length xs])"
  using assms by (simp add: polled_def with_revents_def)

text \<open>The tasks of the entries stay the same.\<close>

lemma map_snd_revents: "map snd (map (\<lambda>i. ((fst (xs ! i))\<lparr>revents := f i\<rparr>, snd (xs ! i))) [0..<length xs]) = map snd xs"
  by (rule nth_equalityI) simp_all

lemma OK_sys_poll: "fds.OK G C M t (sys_poll ms)"
proof (rule OK_state)
  fix s :: "'a fds_scheme" and L B xs
  assume st: "fd_state G C M t L B xs s"
  let ?Q = "\<lambda>s'. (\<exists>L' B' xs'. fd_state G C M t L' B' xs' s') \<and> fds.Others G t s s'"
  have fin: "?Q s'" if "only_sys s s'" for s' using only_sys_state [OF st that] by blast
  have new: "?Q (s\<lparr>pollfd := with_revents f (npollfd s) (pollfd s), trace := e # trace s\<rparr>)" for f e
  proof -
    let ?s = "s\<lparr>pollfd := with_revents f (npollfd s) (pollfd s), trace := e # trace s\<rparr>"
    let ?xs = "map (\<lambda>i. ((fst (xs ! i))\<lparr>revents := f i\<rparr>, snd (xs ! i))) [0..<length xs]"
    have "fd_state G C M t L B ?xs ?s \<and> fds.Others G t s ?s"
    proof (rule state_quiet [OF st])
      show "queues_ok ?s L" by (rule queues_ok_cong [OF fd_stateD(2) [OF st]]) simp_all
      show "polled ?s ?xs" by (rule polled_with_revents [OF fd_stateD(9) [OF st]]) simp_all
      show "distinct (map snd ?xs)" unfolding map_snd_revents by (rule fd_stateD(10) [OF st])
      show "snd ` set ?xs \<subseteq> snd ` set xs" unfolding image_set map_snd_revents by simp
    qed (simp_all add: calm_def same_chans_def)
    then show ?thesis by blast
  qed
  show "runs (sys_poll ms) s (\<lambda>_. ?Q)"
    using fin [OF only_sysI(2)] new by (auto simp: sys_poll_def runs_bnd Let_def split: sum.split)
qed

lemma OK_wake_polled: "fds.OK G C M t wake_polled"
proof (rule OK_state)
  fix s :: "'a fds_scheme" and L B xs
  assume st: "fd_state G C M t L B xs s"
  note D = fd_stateD [OF st]
  have t: "p \<in> snd ` set xs \<Longrightarrow> p \<in> dom (tasks s) \<and> \<not> queued L p" for p using D(11) by blast
  show "runs wake_polled s (\<lambda>_ s'. (\<exists>L' B' xs'. fd_state G C M t L' B' xs' s') \<and> fds.Others G t s s')"
  proof (rule runs_mono [OF wake_polled_spec [OF D(9,2,10) t]], assumption, elim exE conjE)
    fix s' xs' and ws :: "(pollent \<times> tptr) list"
    let ?L = "L(RunQueue := L RunQueue @ map snd ws)"
    assume p: "polled s' xs'" and m: "mset xs' = filter_mset (\<lambda>e. revents (fst e) = 0) (mset xs)"
        "mset ws = filter_mset (\<lambda>e. revents (fst e) \<noteq> 0) (mset xs)"
      and q: "queues_ok s' ?L" and c: "calm s s'" and o: "only_polls s s'"
    have "mset (xs' @ ws) = mset xs" unfolding mset_append m by (simp add: multiset_partition [symmetric])
    then have "mset (map snd (xs' @ ws)) = mset (map snd xs)" by (metis mset_map)
    then have d: "distinct (map snd (xs' @ ws))" and e: "set (map snd (xs' @ ws)) = set (map snd xs)"
      using D(10) mset_eq_imp_distinct_iff mset_eq_setD by metis+
    have "fd_state G C M t ?L B xs' s' \<and> fds.Others G t s s'"
    proof (rule state_quiet [OF st c q _ _ _ _ _ p])
      show "distinct (map snd xs')" using d by simp
      show "snd ` set xs' \<subseteq> snd ` set xs" using e by auto
      show "queued ?L p \<Longrightarrow> queued L p \<or> p \<in> snd ` set xs - snd ` set xs'" for p
      proof -
        assume "queued ?L p"
        then have "queued L p \<or> p \<in> snd ` set ws" by (auto simp: queued_def split: if_splits)
        moreover have "snd ` set ws \<subseteq> snd ` set xs" using e by auto
        moreover have "snd ` set ws \<inter> snd ` set xs' = {}" using d by auto
        ultimately show ?thesis by blast
      qed
    qed (use only_pollsD [OF o] in \<open>simp_all add: same_chans_def\<close>)
    then show "(\<exists>L' B' xs'. fd_state G C M t L' B' xs' s') \<and> fds.Others G t s s'" by blast
  qed
qed

text \<open>The sleepers.\<close>

lemma drowsy_state:
  assumes st: "fd_state G C M t L B xs s" and d: "drowsy s s'" and q: "queues_ok s' L'"
    and c: "counts_ok s' L' (sleepingcounted s')" and L': "\<And>p. queued L' p \<Longrightarrow> queued L p"
  shows "fd_state G C M t L' B xs s' \<and> fds.Others G t s s'"
proof -
  note D = fd_stateD [OF st] and E = drowsyD [OF d]
  have ch: "same_chans s s'" using E by (simp add: same_chans_def)
  have o: "fds.Others G t s s'" by (rule same_Others [OF ch E(18)])
  have sub: "parked s L \<subseteq> parked s' L'" using L' E(3,5) by (auto simp: parked_def)
  have J: "fd_J s' (parked s' L')"
    using fd_J_mono [OF fd_J_cong [OF fds.RunL_D(7) [OF D(1)]] sub] E by simp
  have inv: "sched_inv s L" "starts_ok (fd_pre G C M s) s" using D(1) by (simp_all add: fds.RunL_def fds.Inv_def)
  have "sched_inv s' L'"
    by (rule drowsy_sched_inv [OF inv(1) d q]) (use fds.RunL_none_exiting [OF D(1)] in blast)
  moreover have "starts_ok (fd_pre G C M s') s'"
    by (rule starts_same [OF E(6) [OF inv(2)] fds.Others_Pre [OF o]]) auto
  ultimately have "fds.Inv G C M s' L'" using c J by (simp add: fds.Inv_def)
  moreover obtain y where "tasks s' t = Some y" "\<not> exiting y"
  proof -
    obtain x where x: "tasks s t = Some x" "\<not> exiting x" using D(1) by (auto simp: fds.RunL_def)
    have "calm s (s'\<lparr>taskcount := taskcount s\<rparr>)" using d by (simp add: drowsy_def)
    then obtain y where "tasks (s'\<lparr>taskcount := taskcount s\<rparr>) t = Some y" "exiting y = exiting x"
      using x(1) by (rule calm_task)
    then show ?thesis using that x(2) by simp
  qed
  moreover have "\<not> queued L' t" using L' D(5) by blast
  ultimately have "fds.RunL G C M t L' s'" using E(5) D(3) by (simp add: fds.RunL_def)
  moreover have "polled s' xs" using D(9) E by (simp add: polled_def)
  ultimately show ?thesis
    using st o sub same_chansD(1,2) [OF ch] D(12-14) E(15) unfolding fd_state_def by auto
qed

lemma OK_wake_sleepers: "fds.OK G C M t (bnd (get brk) (\<lambda>m. wake_sleepers (Suc m) now))"
proof (rule OK_state)
  fix s :: "'a fds_scheme" and L B xs
  assume st: "fd_state G C M t L B xs s"
  note D = fd_stateD [OF st]
  have k: "length (L Sleeping) < Suc (brk s)" using queue_length [OF D(2,6), of Sleeping] by simp
  have "runs (wake_sleepers (Suc (brk s)) now) s (\<lambda>_ s'. (\<exists>L' B' xs'. fd_state G C M t L' B' xs' s') \<and> fds.Others G t s s')"
  proof (rule runs_mono [OF wake_sleepers_spec [OF D(2,8,7) k]], elim exE conjE)
    fix s' L'
    let ?P = "\<lambda>p. alarm s p \<le> now"
    assume s': "drowsy s s'" "queues_ok s' L'" "counts_ok s' L' (sleepingcounted s')"
      and L': "L' = L(Sleeping := dropWhile ?P (L Sleeping), RunQueue := L RunQueue @ takeWhile ?P (L Sleeping))"
    have "queued L p" if queued': "queued L' p" for p
    proof -
      obtain q where "p \<in> set (L' q)" using queued' unfolding queued_def by blast
      then have "p \<in> set (L q) \<or> p \<in> set (L Sleeping)"
        by (auto simp: L' split: if_splits dest: set_takeWhileD set_dropWhileD)
      then show ?thesis by (auto simp: queued_def)
    qed
    with drowsy_state [OF st s'(1,2,3)]
    show "(\<exists>L' B' xs'. fd_state G C M t L' B' xs' s') \<and> fds.Others G t s s'" by blast
  qed
  then show "runs (bnd (get brk) (\<lambda>m. wake_sleepers (Suc m) now)) s
      (\<lambda>_ s'. (\<exists>L' B' xs'. fd_state G C M t L' B' xs' s') \<and> fds.Others G t s s')"
    by (simp add: runs_bnd del: wake_sleepers.simps)
qed

lemma OK_yield_all: "fds.OK G C M t (yield_all k)"
  by (induction k) (auto intro!: fds.OK_halt fds.OK_bnd [OF fds.OK_taskyield])

lemma OK_fdtask_round: "fds.OK G C M t fdtask_round"
  unfolding fdtask_round_def
  by (intro fds.OK_bnd OK_clear_errno fds.OK_taskstate OK_poll_timeout OK_sys_poll fds.OK_get
      fds.Safe_if fds.OK_ret fds.OK_taskexitall OK_wake_polled OK_nsec OK_wake_sleepers)
    (simp add: good_format_text)

lemma OK_fdtask: "fds.OK G C M t (fdtask k)"
proof -
  have "fds.OK G C M t (fdtask_loop k)"
  proof (induction k)
    case (Suc k)
    show ?case
      unfolding fdtask_loop.simps by (rule fds.OK_bnd [OF OK_yield_all fds.OK_bnd [OF OK_fdtask_round Suc.IH]])
  qed (simp add: fds.OK_halt)
  then show ?thesis
    unfolding fdtask_def
    by (intro fds.OK_bnd fds.OK_tasksystem fds.OK_taskname)
      (simp_all add: good_format_text)
qed

section \<open>Waiting\<close>

text \<open>The code of \<open>fdtask\<close> needs nothing of its argument.\<close>

lemma OK_flag: "fds.OK G C M t (upd (\<lambda>s. s\<lparr>startedfdtask := b\<rparr>))"
proof (rule OK_state)
  fix s :: "'a fds_scheme" and L B xs
  assume st: "fd_state G C M t L B xs s"
  let ?s = "s\<lparr>startedfdtask := b\<rparr>"
  have "fd_state G C M t L B xs ?s \<and> fds.Others G t s ?s"
  proof (rule state_quiet [OF st])
    show "queues_ok ?s L" by (rule queues_ok_cong [OF fd_stateD(2) [OF st]]) simp_all
    show "polled ?s xs" using fd_stateD(9) [OF st] by (simp add: polled_def)
  qed (use fd_stateD(10) [OF st] in \<open>simp_all add: calm_def same_chans_def\<close>)
  then show "runs (upd (\<lambda>s. s\<lparr>startedfdtask := b\<rparr>)) s
      (\<lambda>_ s'. (\<exists>L' B' xs'. fd_state G C M t L' B' xs' s') \<and> fds.Others G t s s')" by auto
qed

lemma OK_create_fdtask: "fds.OK G C M t (taskcreate fn_fdtask arg n)"
  by (rule fds.Safe_pre [OF fds.Safe_taskcreate]) (simp add: fd_pre_def)

lemma OK_start_fdtask: "fds.OK G C M t start_fdtask"
  unfolding start_fdtask_def
  by (intro fds.OK_bnd [OF fds.OK_get] fds.OK_whenp fds.OK_bnd [OF OK_flag]
      fds.OK_bnd [OF OK_create_fdtask] fds.OK_ret)

text \<open>The running task becomes the last poller; its turn may end.\<close>

lemma add_poller_runs:
  assumes st: "fd_state G C M t L B xs s" and n: "npollfd s < MAXFD"
  shows "runs (add_poller fd bits) s (\<lambda>_ s'. polled s' (xs @ [(\<lparr>pfd = fd, events = bits, revents = 0\<rparr>, t)]) \<and>
    queues_ok s' L \<and> calm s s' \<and> only_polls s s')"
proof -
  note D = fd_stateD [OF st]
  let ?e = "\<lparr>pfd = fd, events = bits, revents = 0\<rparr>"
  let ?s = "s\<lparr>polltask := (polltask s)[npollfd s := Some t], pollfd := (pollfd s)[npollfd s := ?e],
    npollfd := Suc (npollfd s)\<rparr>"
  have p: "length (pollfd s) = MAXFD" "length (polltask s) = MAXFD" "npollfd s = length xs"
    "\<And>i. i < length xs \<Longrightarrow> pollfd s ! i = fst (xs ! i) \<and> polltask s ! i = Some (snd (xs ! i))"
    using D(9) by (simp_all add: polled_def)
  have "polled ?s (xs @ [(?e, t)])"
    unfolding polled_def using p n by (auto simp: nth_append nth_list_update)
  moreover have "queues_ok ?s L" by (rule queues_ok_cong [OF D(2)]) simp_all
  moreover have "calm s ?s" by (simp add: calm_def)
  moreover have "only_polls s ?s"
  proof (rule only_pollsI)
    show "sched.more ?s = sched.more (s\<lparr>pollfd := pollfd ?s, polltask := polltask ?s, npollfd := npollfd ?s\<rparr>)"
      by (cases s) simp
  qed
  ultimately show ?thesis using D(3) p n by (simp add: add_poller_def runs_bnd)
qed

lemma OK_add_poller: "fds.Safe G C M t (\<lambda>s. npollfd s < MAXFD)
    (bnd (add_poller fd bits) (\<lambda>_. taskswitch)) (\<lambda>_ _. True)"
proof (rule fds.Safe_suspend [where S = "\<lambda>_. True"])
  fix s :: "'a fds_scheme"
  assume "fds.Run G C M t s" and n: "npollfd s < MAXFD"
  then obtain L B xs where st: "fd_state G C M t L B xs s" by (auto simp: Run_state)
  note D = fd_stateD [OF st]
  let ?e = "(\<lparr>pfd = fd, events = bits, revents = 0\<rparr>, t)"
  show "runs (add_poller fd bits) s (\<lambda>a s'. fds.Stop G C M t s' \<and> fds.Others G t s s' \<and> True)"
  proof (rule runs_mono [OF add_poller_runs [OF st n]], elim conjE)
    fix s'
    assume p: "polled s' (xs @ [?e])" and q: "queues_ok s' L" and c: "calm s s'" and o: "only_polls s s'"
    note same = only_pollsD [OF o]
    have ch: "same_chans s s'" using same by (simp add: same_chans_def)
    have oth: "fds.Others G t s s'" by (rule same_Others [OF ch same(10)])
    let ?P = "parked (s'\<lparr>taskrunning := None\<rparr>) L"
    have P: "?P = insert t (parked s L)"
      using calm_dom [OF c] D(3,4,5) by (auto simp: parked_def)
    have "B \<subseteq> parked s L" "snd ` set xs \<subseteq> parked s L - B" using st by (simp_all add: fd_state_def)
    then have "B \<subseteq> ?P" "snd ` set (xs @ [?e]) \<subseteq> ?P - B" unfolding P using D(15) by auto
    moreover have "t \<notin> snd ` set xs" using D(11) by blast
    then have "distinct (map snd (xs @ [?e]))" using D(10) by simp
    moreover have "chan_fresh s'" "chan_inv s' B" "kern_ok (kernel s')"
      using same_chansD(1) [OF ch D(14)] same_chansD(2) [OF ch D(13)] D(12) same by simp_all
    ultimately have "fd_J s' ?P" using p by (intro fd_J_I)
    then have "fds.Stop G C M t s'"
      by (rule fds.calm_Stop_parked [OF D(1) fds.mildI [where L = L and L' = L, OF c q refl same(7) oth]])
    then show "fds.Stop G C M t s' \<and> fds.Others G t s s' \<and> True" using oth by simp
  qed
qed simp

lemma wait_format: "good_format ''fdwait for %s'' [VStr str]"
  by (simp add: good_format_def vsnprint_def vseprint_def verb_def no_flags_def)

lemma few_entries:
  "fds.Safe G C M t (\<lambda>s. npollfd s < MAXFD) (taskstate ''fdwait for %s'' [VStr str])
    (\<lambda>_ s. npollfd s < MAXFD)"
proof (rule fds.Safe_runs)
  fix s :: "'a fds_scheme"
  assume run: "fds.Run G C M t s" and n: "npollfd s < MAXFD"
  then obtain L where r: "fds.RunL G C M t L s" by (auto simp: fds.Run_RunL)
  obtain x where x: "tasks s t = Some x" using fds.RunL_D(3) [OF r] by blast
  obtain out where out: "vsnprint (prt s) 256 ''fdwait for %s'' [VStr str] = Inr out"
    using vseprint_bounds [of 256 "prt s" "''fdwait for %s''" "[VStr str]"] wait_format
    by (auto simp: good_format_def vsnprint_def)
  let ?s = "s\<lparr>tasks := (tasks s)(t \<mapsto> x\<lparr>tstate := out\<rparr>)\<rparr>"
  have "calm s ?s" by (rule calm_mod [OF x]) (simp add: vital_def)
  moreover have "queues_ok ?s L" using fds.RunL_D(1) [OF r] x by simp
  ultimately have "fds.Run G C M t ?s \<and> fds.Others G t s ?s" by (intro fds.quiet_same [OF r]) simp_all
  then show "runs (taskstate ''fdwait for %s'' [VStr str]) s
      (\<lambda>_ s'. fds.Run G C M t s' \<and> fds.Others G t s s' \<and> npollfd s' < MAXFD)"
    using fds.RunL_D(2) [OF r] x out n
    by (simp add: taskstate_def vsnprintp_def runs_bnd)
qed

lemma OK_fdwait: "fds.OK G C M t (fdwait fd dir)"
  unfolding fdwait_def
proof (rule fds.OK_bnd [OF OK_start_fdtask])
  let ?rest = "\<lambda>n. if MAXFD \<le> n then halt Abort else
       bnd (taskstate ''fdwait for %s'' [VStr (wait_text dir)]) (\<lambda>_.
       bnd (add_poller fd (poll_bits dir)) (\<lambda>_. taskswitch))"
  show "fds.OK G C M t (bnd (get npollfd) ?rest)"
  proof (rule fds.Safe_bnd [where Q = "\<lambda>n s. npollfd s = n"])
    show "fds.Safe G C M t (\<lambda>_. True) (get npollfd) (\<lambda>n s. npollfd s = n)" by (rule fds.Safe_get) simp
    show "fds.Safe G C M t (\<lambda>s. npollfd s = n) (?rest n) (\<lambda>_ _. True)" for n
    proof (rule fds.Safe_if)
      show "fds.Safe G C M t (\<lambda>s. npollfd s = n) (halt Abort) (\<lambda>_ _. True)" by (rule fds.Safe_halt) simp
      assume "\<not> MAXFD \<le> n"
      then show "fds.Safe G C M t (\<lambda>s. npollfd s = n) (bnd (taskstate ''fdwait for %s'' [VStr (wait_text dir)]) (\<lambda>_.
          bnd (add_poller fd (poll_bits dir)) (\<lambda>_. taskswitch))) (\<lambda>_ _. True)"
        by (intro fds.Safe_pre [OF fds.Safe_bnd [OF few_entries OK_add_poller]]) simp
    qed
  qed
qed

text \<open>Going to sleep.\<close>

lemma set_alarm_state:
  assumes r: "fds.RunL G C M t L s"
  shows "fds.RunL G C M t L (set_alarm w t s)"
proof -
  let ?s = "set_alarm w t s"
  note D = fds.RunL_D [OF r]
  obtain x where x: "tasks s t = Some x" "\<not> exiting x" using r by (auto simp: fds.RunL_def)
  have dom: "dom (tasks ?s) = dom (tasks s)" using x by (auto simp: set_alarm_def)
  have more: "sched.more ?s = sched.more s" by (simp add: set_alarm_def)
  have inv: "sched_inv s L" "starts_ok (fd_pre G C M s) s" "counts_ok s L (sleepingcounted s)"
    using r by (simp_all add: fds.RunL_def fds.Inv_def)
  have "queues_ok ?s L" by (rule queues_ok_cong [OF D(1)]) (auto simp: set_alarm_def)
  moreover have "alltask_ok ?s"
    by (rule alltask_ok_cong [OF D(5)]) (use x in \<open>auto simp: set_alarm_def slot_def\<close>)
  moreover have "fresh_ok ?s" using D(6) dom by (simp add: fresh_ok_def) (simp add: set_alarm_def)
  moreover have "\<not> exiting y" if "tasks ?s p = Some y" for p y
    using that fds.RunL_none_exiting [OF r] by (auto simp: set_alarm_def split: if_splits)
  ultimately have "sched_inv ?s L" by (auto simp: sched_inv_def)
  moreover have "counts_ok ?s L (sleepingcounted ?s)"
  proof -
    have "t \<notin> set (L Sleeping)" using D(4) by (auto simp: queued_def)
    then have "alarm ?s p = alarm s p" if "p \<in> set (L Sleeping)" for p
      using that by (auto simp: alarm_def set_alarm_def)
    moreover have "user_tasks ?s = user_tasks s" using x by (auto simp: user_tasks_def set_alarm_def)
    ultimately show ?thesis
      using counts_same [OF inv(3), of ?s L] by (simp add: set_alarm_def)
  qed
  moreover have "starts_ok (fd_pre G C M ?s) ?s"
    by (rule starts_same [OF inv(2) fds.Pre_more [OF more]]) (use x in \<open>auto simp: set_alarm_def split: if_splits\<close>)
  moreover have "fd_J ?s (parked ?s L)"
  proof -
    have "parked ?s L = parked s L" using dom by (simp add: parked_def) (simp add: set_alarm_def)
    then show ?thesis using fd_J_more [OF D(7) more] by simp
  qed
  moreover have "\<exists>y. tasks ?s t = Some y \<and> \<not> exiting y" using x by (simp add: set_alarm_def)
  ultimately show ?thesis using D(2,4) by (simp add: fds.RunL_def fds.Inv_def) (simp add: set_alarm_def)
qed

lemma OK_enter_sleep: "fds.OK G C M t (bnd (enter_sleep w) (\<lambda>_. taskswitch))"
proof (rule fds.Safe_suspend [where S = "\<lambda>_. True"])
  fix s :: "'a fds_scheme"
  assume "fds.Run G C M t s"
  then obtain L B xs where st: "fd_state G C M t L B xs s" by (auto simp: Run_state)
  note D = fd_stateD [OF st]
  have r: "fds.RunL G C M t L (set_alarm w t s)" by (rule set_alarm_state [OF D(1)])
  note R = fds.RunL_D [OF r]
  show "runs (enter_sleep w) s (\<lambda>a s'. fds.Stop G C M t s' \<and> fds.Others G t s s' \<and> True)"
  proof (rule runs_mono [OF enter_sleep_spec [OF D(2,5,3,4,8,6)]], elim exE conjE)
    fix s' L'
    assume d: "drowsy (set_alarm w t s) s'" and q: "queues_ok s' L'" and c: "counts_ok s' L' (sleepingcounted s')"
      and L': "L' = L(Sleeping := insort_key (alarm (set_alarm w t s)) t (L Sleeping))"
    note E = drowsyD [OF d]
    have ch: "same_chans (set_alarm w t s) s'" using E by (simp add: same_chans_def)
    then have "same_chans s s'" by (simp add: same_chans_def set_alarm_def)
    then have o: "fds.Others G t s s'" using E(18) by (intro same_Others) (simp_all add: set_alarm_def)
    have queued: "queued L' p \<longleftrightarrow> queued L p \<or> p = t" for p
    proof -
      have "p \<in> set (L' k) \<longleftrightarrow> p \<in> set (L k) \<or> p = t \<and> k = Sleeping" for k
        by (auto simp: L' set_insort_key)
      then show ?thesis unfolding queued_def by blast
    qed
    have inv: "sched_inv (set_alarm w t s) L" "starts_ok (fd_pre G C M (set_alarm w t s)) (set_alarm w t s)"
      using r by (simp_all add: fds.RunL_def fds.Inv_def)
    have "sched_inv s' L'"
      by (rule drowsy_sched_inv [OF inv(1) d q]) (use fds.RunL_none_exiting [OF r] in blast)
    moreover have "starts_ok (fd_pre G C M s') s'"
      by (rule starts_same [OF E(6) [OF inv(2)] fds.Others_Pre [OF same_Others [OF ch E(18)]]]) auto
    moreover have "fd_J s' (parked s' L')"
    proof (rule fd_J_mono [OF fd_J_cong [OF R(7)]])
      show "parked (set_alarm w t s) L \<subseteq> parked s' L'" using queued E(3,5) R(2) by (auto simp: parked_def)
    qed (use E in simp_all)
    ultimately have "fds.Inv G C M s' L'" using c by (simp add: fds.Inv_def)
    moreover have "taskrunning s' = Some t" "t \<in> dom (tasks s')" using E(3,5) R(2,3) by simp_all
    ultimately have "fds.Stop G C M t s'" by (rule fds.Stop_Inv)
    then show "fds.Stop G C M t s' \<and> fds.Others G t s s' \<and> True" using o by simp
  qed
qed simp

lemma OK_sleep_then:
  assumes "\<And>u. fds.OK G C M t (f u)"
  shows "fds.OK G C M t (bnd (enter_sleep w) (\<lambda>_. bnd taskswitch f))"
  using fds.OK_bnd [OF OK_enter_sleep assms] by (simp add: bnd_assoc)

lemma OK_taskdelay: "fds.OK G C M t (taskdelay ms)"
  unfolding taskdelay_def
  by (intro fds.OK_bnd [OF OK_start_fdtask] fds.OK_bnd [OF OK_nsec] OK_sleep_then fds.OK_ret)

section \<open>Input and output\<close>

lemma Safe_keeps:
  assumes m: "fds.OK G C M t m" and stable: "\<And>s s'. grows G s s' \<Longrightarrow> P s \<Longrightarrow> P s'"
  shows "fds.Safe G C M t P m (\<lambda>_. P)"
proof -
  have "fds.Safe G C M t (\<lambda>s. True \<and> P s) m (\<lambda>_ s. True \<and> P s)"
    by (rule fds.Safe_frame [OF m]) (use stable keep_grows in blast)
  then show ?thesis by simp
qed

text \<open>Writing into an object of the client, within its bounds.\<close>

lemma mem_update:
  assumes r: "fds.RunB G C M t L B s" and m: "same_room s m"
  shows "fds.Run G C M t (s\<lparr>umem := m\<rparr>) \<and> fds.Others G t s (s\<lparr>umem := m\<rparr>) \<and> grows G s (s\<lparr>umem := m\<rparr>)"
proof -
  let ?s = "s\<lparr>umem := m\<rparr>"
  note D = fds.RunB_D [OF r]
  have "same_room s (umem ?s)" using m by simp
  then have acc: "accepts ?s v n = accepts s v n" for v n by (rule same_room_accepts)
  have env: "env_grows s ?s" by (simp add: env_grows_def acc)
  have "fds.Run G C M t ?s \<and> fds.Others G t s ?s"
  proof (rule fds.chan_update [OF r _ _ _ env])
    show "calm s ?s" by (simp add: calm_def)
    show "queues_ok ?s L" by (rule queues_ok_cong [OF D(3)]) simp_all
    show "only_chans s ?s"
    proof (rule only_chansI)
      show "sched.more ?s = sched.more (s\<lparr>chan := chan s, cbrk := cbrk s, alts := alts s,
          abrk := abrk s, umem := m, ubrk := ubrk s, rnds := rnds s\<rparr>)" by (cases s) simp
    qed
    show "chan_fresh ?s" using D(9) same_room_below [OF m] by (simp add: chan_fresh_def)
    show "chan_inv ?s B"
    proof (rule chan_inv_sub [OF D(7), where X = "{}"])
      show "rel_option (chan_moved s c) (chan s c) (chan ?s c)" for c
        using chan_invD(1,2) [OF D(7)] by (cases "chan s c") (auto simp: chan_moved_def arrays_ok_def)
    qed (simp_all add: waits_def acc)
    show "own_kept u s ?s" for u by (rule own_kept_same) (simp_all add: acc)
  qed
  then show ?thesis using own_grows [OF env] by simp
qed

lemma Safe_write_mem:
  assumes stable: "\<And>s s'. grows G s s' \<Longrightarrow> P s \<Longrightarrow> P s'"
    and room: "\<And>s. P s \<Longrightarrow> accepts s (Some (Object p)) n" and n: "length bs \<le> n"
  shows "fds.Safe G C M t P (write_mem (Obj (Object p)) bs) (\<lambda>_. P)"
proof (rule fds.Safe_runs)
  fix s :: "'a fds_scheme"
  assume run: "fds.Run G C M t s" and P: "P s"
  then obtain L B where r: "fds.RunB G C M t L B s" by (auto simp: fds.Run_RunB)
  obtain xs where xs: "umem s (Object p) = Some xs" "n \<le> length xs" using room [OF P] by (auto simp: accepts_def)
  let ?m = "(umem s)(Object p \<mapsto> overwrite 0 bs xs)"
  have "same_room s ?m" using xs n by (auto simp: same_room_def length_overwrite)
  from mem_update [OF r this] have m: "fds.Run G C M t (s\<lparr>umem := ?m\<rparr>)" "fds.Others G t s (s\<lparr>umem := ?m\<rparr>)"
    "P (s\<lparr>umem := ?m\<rparr>)" using stable P by blast+
  show "runs (write_mem (Obj (Object p)) bs) s (\<lambda>_ s'. fds.Run G C M t s' \<and> fds.Others G t s s' \<and> P s')"
    using m xs n by (simp add: runs_def write_mem.simps)
qed

lemma OK_failed: "fds.OK G C M t (failed e ev)" and OK_logged: "fds.OK G C M t (logged ev)"
  and OK_again: "fds.OK G C M t (again m)"
  by (rule OK_only_sys, simp add: only_sysI again_def runs_bnd)+

text \<open>What the kernel promises of an answer.\<close>

lemma Safe_kernel:
  assumes "\<And>s. P s \<Longrightarrow> kern_ok (kernel s) \<Longrightarrow> Q (f s)"
  shows "fds.Safe G C M t P (get f) (\<lambda>r s. P s \<and> Q r)"
proof (rule fds.Safe_runs)
  fix s :: "'a fds_scheme"
  assume run: "fds.Run G C M t s" and P: "P s"
  then obtain L B xs where st: "fd_state G C M t L B xs s" by (auto simp: Run_state)
  show "runs (get f) s (\<lambda>r s'. fds.Run G C M t s' \<and> fds.Others G t s s' \<and> P s' \<and> Q r)"
    using run P assms [OF P fd_stateD(12) [OF st]] by simp
qed

lemma Safe_sys_read:
  assumes stable: "\<And>s s'. grows G s s' \<Longrightarrow> P s \<Longrightarrow> P s'"
    and room: "\<And>s. P s \<Longrightarrow> accepts s (Some (Object p)) (unat n)"
  shows "fds.Safe G C M t P (sys_read fd (Some (Object p)) n) (\<lambda>_. P)"
  unfolding sys_read_def
proof (rule fds.Safe_bnd)
  let ?Q = "\<lambda>r :: cint + uchar list. \<forall>bs. r = Inr bs \<longrightarrow> length bs \<le> unat n"
  show "fds.Safe G C M t P (get (\<lambda>s. k_read (kernel s) (trace s) fd n)) (\<lambda>r s. P s \<and> ?Q r)"
    by (rule Safe_kernel) (auto simp: kern_ok_def)
  fix r :: "cint + uchar list"
  show "fds.Safe G C M t (\<lambda>s. P s \<and> ?Q r) (case r of
       Inl e \<Rightarrow> failed e (ERead fd (Inl e))
     | Inr bs \<Rightarrow> bnd (if bs = [] then ret () else write_mem (ref (Some (Object p))) bs) (\<lambda>_.
         bnd (logged (ERead fd (Inr bs))) (\<lambda>_. ret (of_nat (length bs))))) (\<lambda>_. P)"
  proof (cases r)
    case (Inl e)
    have "fds.Safe G C M t P (failed e (ERead fd (Inl e))) (\<lambda>_. P)" by (rule Safe_keeps [OF OK_failed stable])
    then show ?thesis using Inl by simp
  next
    case (Inr bs)
    show ?thesis
    proof (cases "length bs \<le> unat n")
      case True
      have "fds.Safe G C M t P (write_mem (Obj (Object p)) bs) (\<lambda>_. P)"
        by (rule Safe_write_mem [OF stable room True])
      then have "fds.Safe G C M t P (if bs = [] then ret () else write_mem (ref (Some (Object p))) bs) (\<lambda>_. P)"
        by (auto simp: ref_def intro: fds.Safe_ret)
      then have "fds.Safe G C M t P (bnd (if bs = [] then ret () else write_mem (ref (Some (Object p))) bs) (\<lambda>_.
         bnd (logged (ERead fd (Inr bs))) (\<lambda>_. ret (of_nat (length bs) :: cint)))) (\<lambda>_. P)"
        by (rule fds.Safe_bnd) (rule Safe_keeps [OF fds.OK_bnd [OF OK_logged fds.OK_ret] stable])
      then show ?thesis using Inr by (simp only: sum.case) (erule fds.Safe_pre, simp)
    next
      case False
      then show ?thesis using Inr by (simp add: fds.Safe_def)
    qed
  qed
qed

lemma Safe_read_loop:
  assumes stable: "\<And>s s'. grows G s s' \<Longrightarrow> P s \<Longrightarrow> P s'"
    and room: "\<And>s. P s \<Longrightarrow> accepts s (Some (Object p)) (unat n)"
  shows "fds.Safe G C M t P (fdread k fd (Some (Object p)) n) (\<lambda>_. P)"
    and "fds.Safe G C M t P (fdread1 k fd (Some (Object p)) n) (\<lambda>_. P)"
proof -
  note wait = Safe_keeps [OF OK_fdwait stable] and get = Safe_sys_read [OF stable room]
    and more = Safe_keeps [OF OK_again stable]
  show "fds.Safe G C M t P (fdread k fd (Some (Object p)) n) (\<lambda>_. P)"
    by (induction k)
      (auto intro!: fds.Safe_halt fds.Safe_bnd [OF get] fds.Safe_bnd [OF more] fds.Safe_bnd [OF wait] fds.Safe_ret)
  show "fds.Safe G C M t P (fdread1 k fd (Some (Object p)) n) (\<lambda>_. P)"
    by (induction k)
      (auto intro!: fds.Safe_halt fds.Safe_bnd [OF get] fds.Safe_bnd [OF more] fds.Safe_bnd [OF wait] fds.Safe_ret)
qed

text \<open>Writing: the kernel takes at most what is left.\<close>

lemma Safe_sys_write:
  assumes stable: "\<And>s s'. grows G s s' \<Longrightarrow> P s \<Longrightarrow> P s'"
    and room: "\<And>s. P s \<Longrightarrow> accepts s (Some (Object p)) (from + unat n)" and n: "unat n < 2 ^ 31"
  shows "fds.Safe G C M t P (sys_write fd (Some (Object p)) from n)
    (\<lambda>m s. P s \<and> (0 \<le> sint m \<longrightarrow> unat m \<le> unat n))"
  unfolding sys_write_def write_bytes_def
proof (rule fds.Safe_bnd)
  have get: "fds.Safe G C M t P (read_mem (Obj (Object p)) k) (\<lambda>bs s. P s \<and> length bs = k)"
    if "\<And>s. P s \<Longrightarrow> accepts s (Some (Object p)) k" for k
  proof (rule fds.Safe_runs)
    fix s :: "'a fds_scheme"
    assume "fds.Run G C M t s" "P s"
    then show "runs (read_mem (Obj (Object p)) k) s
        (\<lambda>bs s'. fds.Run G C M t s' \<and> fds.Others G t s s' \<and> P s' \<and> length bs = k)"
      using that [of s] by (auto simp: accepts_def runs_def read_mem.simps)
  qed
  show "fds.Safe G C M t P (read_mem (ref (Some (Object p))) (from + unat n))
      (\<lambda>bs s. P s \<and> length bs = from + unat n)"
    using get room by (simp add: ref_def)
  fix bs :: "uchar list"
  let ?Q = "\<lambda>r :: cint + nat. \<forall>k. r = Inr k \<longrightarrow> k \<le> unat n"
  show "fds.Safe G C M t (\<lambda>s. P s \<and> length bs = from + unat n)
      (bnd (get (\<lambda>s. k_write (kernel s) (trace s) fd (drop from bs))) (\<lambda>r. case r of
         Inl e \<Rightarrow> failed e (EWrite fd (Inl e))
       | Inr k \<Rightarrow> bnd (logged (EWrite fd (Inr (take k (drop from bs))))) (\<lambda>_. ret (of_nat k))))
      (\<lambda>m s. P s \<and> (0 \<le> sint m \<longrightarrow> unat m \<le> unat n))"
  proof (rule fds.Safe_bnd)
    show "fds.Safe G C M t (\<lambda>s. P s \<and> length bs = from + unat n)
        (get (\<lambda>s. k_write (kernel s) (trace s) fd (drop from bs)))
        (\<lambda>r s. (P s \<and> length bs = from + unat n) \<and> ?Q r)"
      by (rule Safe_kernel) (force simp: kern_ok_def)
    fix r :: "cint + nat"
    have log: "fds.Safe G C M t P (bnd (logged ev) (\<lambda>_. ret (of_nat k :: cint)))
        (\<lambda>m s. P s \<and> (0 \<le> sint m \<longrightarrow> unat m \<le> unat n))" if k: "k \<le> unat n" for ev k
    proof -
      have "unat (of_nat k :: cint) \<le> unat n"
        using k by (simp add: le_unat_uoi [OF k])
      then show ?thesis
        by (intro fds.Safe_bnd [OF Safe_keeps [OF OK_logged stable]] fds.Safe_ret) simp_all
    qed
    have fail: "fds.Safe G C M t P (failed e ev) (\<lambda>m s. P s \<and> (0 \<le> sint m \<longrightarrow> unat m \<le> unat n))" for e ev
      unfolding failed_def
      by (rule fds.Safe_bnd [OF Safe_keeps [OF OK_only_sys stable]])
        (auto simp: only_sysI intro!: fds.Safe_ret)
    show "fds.Safe G C M t (\<lambda>s. (P s \<and> length bs = from + unat n) \<and> ?Q r) (case r of
         Inl e \<Rightarrow> failed e (EWrite fd (Inl e))
       | Inr k \<Rightarrow> bnd (logged (EWrite fd (Inr (take k (drop from bs))))) (\<lambda>_. ret (of_nat k)))
      (\<lambda>m s. P s \<and> (0 \<le> sint m \<longrightarrow> unat m \<le> unat n))"
    proof (cases r)
      case (Inl e)
      show ?thesis unfolding Inl sum.case by (rule fds.Safe_pre [OF fail]) simp
    next
      case (Inr k)
      show ?thesis
      proof (cases "k \<le> unat n")
        case True
        show ?thesis unfolding Inr sum.case by (rule fds.Safe_pre [OF log [OF True]]) simp
      next
        case False
        then show ?thesis using Inr by (simp add: fds.Safe_def)
      qed
    qed
  qed
qed

lemma Safe_write_some:
  assumes stable: "\<And>s s'. grows G s s' \<Longrightarrow> P s \<Longrightarrow> P s'"
    and room: "\<And>s. P s \<Longrightarrow> accepts s (Some (Object p)) (unat tot + unat (n - tot))"
    and n: "unat (n - tot) < 2 ^ 31"
  shows "fds.Safe G C M t P (write_some k fd (Some (Object p)) tot n)
    (\<lambda>m s. P s \<and> (0 \<le> sint m \<longrightarrow> unat m \<le> unat (n - tot)))"
proof (induction k)
  case 0
  then show ?case by (simp add: fds.Safe_halt)
next
  case (Suc k)
  let ?Q = "\<lambda>m s. P s \<and> (0 \<le> sint m \<longrightarrow> unat m \<le> unat (n - tot))"
  have more: "fds.Safe G C M t (?Q m) (again m) (\<lambda>_. ?Q m)" for m :: cint
    by (rule Safe_keeps [OF OK_again]) (use stable in auto)
  have rest: "fds.Safe G C M t (?Q m) (if b then bnd (fdwait fd (CHR ''w'')) (\<lambda>_. write_some k fd (Some (Object p)) tot n)
      else ret m) ?Q" for m b
    by (auto intro!: fds.Safe_ret fds.Safe_pre [OF fds.Safe_bnd [OF Safe_keeps [OF OK_fdwait stable] Suc.IH]])
  have once: "fds.Safe G C M t P (sys_write fd (Some (Object p)) (unat tot) (n - tot)) ?Q"
    by (rule Safe_sys_write [OF stable room n])
  show ?case
    unfolding write_some.simps by (rule fds.Safe_bnd [OF once fds.Safe_bnd [OF more rest]])
qed

lemma Safe_write_all:
  assumes stable: "\<And>s s'. grows G s s' \<Longrightarrow> P s \<Longrightarrow> P s'"
    and room: "\<And>s. P s \<Longrightarrow> accepts s (Some (Object p)) (unat n)" and tot: "0 \<le> sint tot"
  shows "fds.Safe G C M t P (write_all k w fd (Some (Object p)) tot n) (\<lambda>_. P)"
  using tot
proof (induction k arbitrary: tot)
  case 0
  then show ?case by (simp add: fds.Safe_halt)
next
  case (Suc k)
  show ?case
  proof (cases "sint tot < sint n")
    case True
    note s = step_words [OF Suc.prems True]
    let ?Q = "\<lambda>m s. P s \<and> (0 \<le> sint m \<longrightarrow> unat m \<le> unat (n - tot))"
    have some: "fds.Safe G C M t P (write_some w fd (Some (Object p)) tot n) ?Q"
      by (rule Safe_write_some [OF stable _ s(2)]) (use room in \<open>simp_all add: s(1)\<close>)
    have rest: "fds.Safe G C M t (?Q m) (if sint m < 0 then ret m else if m = 0 then ret tot
        else write_all k w fd (Some (Object p)) (tot + m) n) (\<lambda>_. P)" for m
    proof (cases "0 \<le> sint m \<and> unat m \<le> unat (n - tot)")
      case t: True
      then have "0 \<le> sint (tot + m)" by (intro word_add_le [OF Suc.prems True]) simp_all
      from Suc.IH [OF this] show ?thesis
        using t by (auto intro!: fds.Safe_ret elim: fds.Safe_pre)
    next
      case False
      show ?thesis
      proof (cases "sint m < 0")
        case True
        then show ?thesis by (simp add: fds.Safe_ret)
      next
        case False
        with \<open>\<not> (0 \<le> sint m \<and> unat m \<le> unat (n - tot))\<close> show ?thesis by (simp add: fds.Safe_def)
      qed
    qed
    show ?thesis using True by (simp add: fds.Safe_bnd [OF some rest])
  next
    case False
    then show ?thesis by (simp add: fds.Safe_ret)
  qed
qed

lemma Safe_fdwrite:
  assumes "\<And>s s'. grows G s s' \<Longrightarrow> P s \<Longrightarrow> P s'"
    and "\<And>s. P s \<Longrightarrow> accepts s (Some (Object p)) (unat n)"
  shows "fds.Safe G C M t P (fdwrite w fd (Some (Object p)) n) (\<lambda>_. P)"
  unfolding fdwrite_def by (rule Safe_write_all [OF assms]) simp_all

lemmas OK_fds = OK_fdwait OK_taskdelay OK_fdnoblock OK_fdtask

end
