(* ===== verification/Net.thy ===== *)
theory Net
  imports Fdclient
begin

text \<open>
  net.c: announcing, accepting and dialling. A host name is the text before its NUL, \<open>None\<close> the nil
  pointer. Addresses are handed on as the word \<open>*ip\<close>, in network order; a result of -1 of the
  lookups is \<open>None\<close>.
\<close>

section \<open>Addresses in text\<close>

text \<open>
  \<open>strtoul(p, &q, 0)\<close> of the C library: blanks, a sign, a prefix that chooses the base, digits. The
  result is the value, the rest \<open>q\<close> and whether the number was too large for \<open>unsigned long\<close>
  (32 bits), which sets \<open>errno\<close>.
\<close>

definition blank :: "char \<Rightarrow> bool" where
  "blank c \<longleftrightarrow> c = CHR '' '' \<or> c \<in> set (map char_of [9, 10, 11, 12, 13 :: nat])"

definition digit_of :: "char \<Rightarrow> nat" where
  "digit_of c =
     (let n = of_char c in
      if 48 \<le> n \<and> n \<le> 57 then n - 48
      else if 97 \<le> n \<and> n \<le> 122 then n - 87
      else if 65 \<le> n \<and> n \<le> 90 then n - 55
      else 36)"

fun scan_digits :: "nat \<Rightarrow> nat \<Rightarrow> string \<Rightarrow> nat \<times> string" where
  "scan_digits base v [] = (v, [])"
| "scan_digits base v (c # p) =
     (if digit_of c < base then scan_digits base (base * v + digit_of c) p else (v, c # p))"

definition number_base :: "string \<Rightarrow> nat \<times> string" where
  "number_base p =
     (case p of
        c # x # d # _ \<Rightarrow>
          if c = CHR ''0'' \<and> (x = CHR ''x'' \<or> x = CHR ''X'') \<and> digit_of d < 16 then (16, drop 2 p)
          else if c = CHR ''0'' then (8, p)
          else (10, p)
      | c # _ \<Rightarrow> if c = CHR ''0'' then (8, p) else (10, p)
      | [] \<Rightarrow> (10, p))"

definition strtoul :: "string \<Rightarrow> uint \<times> string \<times> bool" where
  "strtoul p =
     (let q = dropWhile blank p;
          neg = (q \<noteq> [] \<and> hd q = CHR ''-'');
          q = (if neg \<or> (q \<noteq> [] \<and> hd q = CHR ''+'') then tl q else q);
          (base, q) = number_base q
      in if q = [] \<or> base \<le> digit_of (hd q) then (0, p, False)
         else
           let (v, rest) = scan_digits base 0 q
           in if 2 ^ 32 \<le> v then (- 1, rest, True)
              else (if neg then - of_nat v else of_nat v, rest, False))"

text \<open>The loop over the parts of an address: the bytes \<open>addr[0]\<close>, \<open>addr[1]\<close>, ... it stores.\<close>

abbreviation (input) ERANGE :: cint where "ERANGE \<equiv> 34"

fun parse_parts :: "nat \<Rightarrow> string \<Rightarrow> ('z sys_scheme, uchar list option) prog" where
  "parse_parts 0 p = ret (Some [])"
| "parse_parts (Suc k) p =
     (if p = [] then ret (Some [])
      else
        case strtoul p of (x, q, big) \<Rightarrow>
          bnd (whenp big (upd (\<lambda>s. s\<lparr>errno := ERANGE\<rparr>))) (\<lambda>_.
          if sint x < 0 \<or> 256 \<le> sint x then ret None
          else if q \<noteq> [] \<and> hd q \<noteq> CHR ''.'' then ret None
          else
            bnd (parse_parts k (if q \<noteq> [] then tl q else q)) (\<lambda>r.
            ret (map_option ((#) (ucast x)) r))))"

text \<open>The class of an address says where the bytes go when fewer than four were given.\<close>

definition addr_class :: "uchar \<Rightarrow> uchar" where
  "addr_class b = drop_bit 6 b"

definition fill_addr :: "nat \<Rightarrow> uchar list \<Rightarrow> uchar list option" where
  "fill_addr i a =
     (let c = addr_class (a ! 0) in
      if c = 0 \<or> c = 1 then
        if i = 3 then Some [a ! 0, 0, a ! 1, a ! 2]
        else if i = 2 then Some [a ! 0, 0, 0, a ! 1]
        else if i \<noteq> 4 then None
        else Some a
      else if c = 2 then
        if i = 3 then Some [a ! 0, a ! 1, 0, a ! 2]
        else if i \<noteq> 4 then None
        else Some a
      else Some a)"

text \<open>The bytes of \<open>addr\<close> that no part was stored in are uninitialised.\<close>

definition parseip :: "string \<Rightarrow> ('z sys_scheme, uint option) prog" where
  "parseip name =
     bnd (parse_parts 4 name) (\<lambda>r.
     case r of
       None \<Rightarrow> ret None
     | Some xs \<Rightarrow>
         bnd (get (\<lambda>s. bytes_of (frame_junk s 0))) (\<lambda>junk.
         ret (map_option of_bytes (fill_addr (length xs) (xs @ drop (length xs) junk)))))"

section \<open>Looking up, announcing, accepting, dialling\<close>

definition netlookup :: "string option \<Rightarrow> ('z sys_scheme, uint option) prog" where
  "netlookup server =
     bnd (case server of None \<Rightarrow> halt BadMem | Some name \<Rightarrow> ret name) (\<lambda>name.
     bnd (parseip name) (\<lambda>r.
     case r of
       Some ip \<Rightarrow> ret (Some ip)
     | None \<Rightarrow>
         bnd (taskstate ''netlookup'' []) (\<lambda>_.
         bnd (gethostbyname name) (\<lambda>he.
         case he of
           Some ip \<Rightarrow> bnd (taskstate ''netlookup succeeded'' []) (\<lambda>_. ret (Some ip))
         | None \<Rightarrow> bnd (taskstate ''netlookup failed'' []) (\<lambda>_. ret None)))))"

abbreviation (input) AF_INET :: cint where "AF_INET \<equiv> 2"
abbreviation (input) SOCK_STREAM :: cint where "SOCK_STREAM \<equiv> 1"
abbreviation (input) SOCK_DGRAM :: cint where "SOCK_DGRAM \<equiv> 2"
abbreviation (input) SOL_SOCKET :: cint where "SOL_SOCKET \<equiv> 1"
abbreviation (input) SO_REUSEADDR :: cint where "SO_REUSEADDR \<equiv> 2"
abbreviation (input) SO_TYPE :: cint where "SO_TYPE \<equiv> 3"
abbreviation (input) SO_ERROR :: cint where "SO_ERROR \<equiv> 4"
abbreviation (input) SO_BROADCAST :: cint where "SO_BROADCAST \<equiv> 6"
abbreviation (input) IPPROTO_TCP :: cint where "IPPROTO_TCP \<equiv> 6"
abbreviation (input) TCP_NODELAY :: cint where "TCP_NODELAY \<equiv> 1"

text \<open>\<open>htons\<close> and \<open>ntohs\<close> swap the two bytes.\<close>

definition swap16 :: "16 word \<Rightarrow> 16 word" where
  "swap16 w = or (push_bit 8 w) (drop_bit 8 w)"

definition inet_addr :: "uint \<Rightarrow> cint \<Rightarrow> sockaddr_in" where
  "inet_addr ip port = \<lparr>sin_family = ucast AF_INET, sin_port = swap16 (ucast port), sin_addr = ip\<rparr>"

text \<open>A failure after the socket was made closes it; \<open>txt\<close> is the state the task shows.\<close>

definition fail_with :: "string \<Rightarrow> ('z sys_scheme, cint) prog" where
  "fail_with txt = bnd (taskstate txt []) (\<lambda>_. ret (- 1))"

definition set_reuse :: "cint \<Rightarrow> ('z sys_scheme, unit) prog" where
  "set_reuse fd =
     bnd (get (\<lambda>s. frame_junk s 2)) (\<lambda>sn.
     bnd (sys_getsockopt fd SOL_SOCKET SO_TYPE sn) (\<lambda>r.
     whenp (r \<noteq> None)
       (bnd (sys_call (Setsockopt fd SOL_SOCKET SO_REUSEADDR 1)) (\<lambda>_. ret ()))))"

definition netannounce :: "cint \<Rightarrow> string option \<Rightarrow> cint \<Rightarrow> ('z sys_scheme, cint) prog" where
  "netannounce istcp server port =
     bnd (taskstate ''netannounce'' []) (\<lambda>_.
     let proto = (if istcp \<noteq> 0 then SOCK_STREAM else SOCK_DGRAM) in
     bnd (if server \<noteq> None \<and> server \<noteq> Some ''*'' then netlookup server else ret (Some 0)) (\<lambda>addr.
     case addr of
       None \<Rightarrow> fail_with ''netlookup failed''
     | Some ip \<Rightarrow>
         bnd (sys_call (Socket AF_INET proto 0)) (\<lambda>fd.
         if sint fd < 0 then fail_with ''socket failed''
         else
           bnd (whenp (istcp \<noteq> 0) (set_reuse fd)) (\<lambda>_.
           bnd (sys_call (Bind fd (inet_addr ip port))) (\<lambda>b.
           if sint b < 0 then
             bnd (taskstate ''bind failed'' []) (\<lambda>_.
             bnd (sys_call (Close fd)) (\<lambda>_.
             ret (- 1)))
           else
             bnd (whenp (proto = SOCK_STREAM) (bnd (sys_call (Listen fd 16)) (\<lambda>_. ret ()))) (\<lambda>_.
             bnd (fdnoblock fd) (\<lambda>_.
             bnd (taskstate ''netannounce succeeded'' []) (\<lambda>_.
             ret fd))))))))"

text \<open>The name of a peer, with its NUL, into the 16 bytes at \<open>server\<close>; its port into \<open>*port\<close>.\<close>

definition quad_args :: "uint \<Rightarrow> vararg list" where
  "quad_args ip = map (\<lambda>b. V32 (ucast b)) (bytes_of ip)"

definition write_name :: "obj option \<Rightarrow> uint \<Rightarrow> ('z sys_scheme, unit) prog" where
  "write_name server ip =
     bnd (get (\<lambda>s. snprint (prt s) 16 ''%d.%d.%d.%d'' (quad_args ip))) (\<lambda>r.
     case r of
       Inl e \<Rightarrow> halt e
     | Inr str \<Rightarrow> write_mem (ref server) (map of_char str @ [0]))"

definition write_port :: "obj option \<Rightarrow> 16 word \<Rightarrow> ('z sys_scheme, unit) prog" where
  "write_port port w = write_mem (ref port) (bytes_of (ucast (swap16 w)))"

definition netaccept :: "cint \<Rightarrow> obj option \<Rightarrow> obj option \<Rightarrow> ('z fds_scheme, cint) prog" where
  "netaccept fd server port =
     bnd (fdwait fd (CHR ''r'')) (\<lambda>_.
     bnd (taskstate ''netaccept'' []) (\<lambda>_.
     bnd (sys_accept fd) (\<lambda>r.
     case r of
       None \<Rightarrow> fail_with ''accept failed''
     | Some (cfd, sa) \<Rightarrow>
         if sint cfd < 0 then fail_with ''accept failed''
         else
           bnd (whenp (server \<noteq> None) (write_name server (sin_addr sa))) (\<lambda>_.
           bnd (whenp (port \<noteq> None) (write_port port (sin_port sa))) (\<lambda>_.
           bnd (fdnoblock cfd) (\<lambda>_.
           bnd (sys_call (Setsockopt cfd IPPROTO_TCP TCP_NODELAY 1)) (\<lambda>_.
           bnd (taskstate ''netaccept succeeded'' []) (\<lambda>_.
           ret cfd))))))))"

text \<open>
  The end of \<open>netdial\<close>: is the socket connected? \<open>n\<close> is what the variable contains; it keeps that
  where the option cannot be read.
\<close>

definition dial_end :: "cint \<Rightarrow> cint \<Rightarrow> ('z sys_scheme, cint) prog" where
  "dial_end fd n =
     bnd (sys_call (Getpeername fd)) (\<lambda>p.
     if 0 \<le> sint p then bnd (taskstate ''connect succeeded'' []) (\<lambda>_. ret fd)
     else
       bnd (sys_getsockopt fd SOL_SOCKET SO_ERROR 4) (\<lambda>r.
       let n' = (case r of Some v \<Rightarrow> v | None \<Rightarrow> n);
           e = (if n' = 0 then ECONNREFUSED else n')
       in bnd (sys_call (Close fd)) (\<lambda>_.
          bnd (taskstate ''connect failed'' []) (\<lambda>_.
          bnd (upd (\<lambda>s. s\<lparr>errno := e\<rparr>)) (\<lambda>_.
          ret (- 1))))))"

definition netdial :: "cint \<Rightarrow> string option \<Rightarrow> cint \<Rightarrow> ('z fds_scheme, cint) prog" where
  "netdial istcp server port =
     bnd (netlookup server) (\<lambda>addr.
     case addr of
       None \<Rightarrow> ret (- 1)
     | Some ip \<Rightarrow>
         bnd (taskstate ''netdial'' []) (\<lambda>_.
         bnd (sys_call (Socket AF_INET (if istcp \<noteq> 0 then SOCK_STREAM else SOCK_DGRAM) 0)) (\<lambda>fd.
         if sint fd < 0 then fail_with ''socket failed''
         else
           bnd (fdnoblock fd) (\<lambda>_.
           bnd (get (\<lambda>s. frame_junk s 1)) (\<lambda>junk.
           bnd (whenp (istcp = 0)
                 (bnd (sys_call (Setsockopt fd SOL_SOCKET SO_BROADCAST 1)) (\<lambda>_. ret ()))) (\<lambda>_.
           bnd (sys_call (Connect fd (inet_addr ip port))) (\<lambda>c.
           bnd (get errno) (\<lambda>e.
           if sint c < 0 \<and> e \<noteq> EINPROGRESS then
             bnd (taskstate ''connect failed'' []) (\<lambda>_.
             bnd (sys_call (Close fd)) (\<lambda>_.
             ret (- 1)))
           else
             bnd (fdwait fd (CHR ''w'')) (\<lambda>_.
             dial_end fd (if istcp = 0 then 1 else junk))))))))))"

end
