(* ===== verification/Netclient.thy ===== *)
theory Netclient
  imports Net
begin

text \<open>
  net.c keeps the invariant of the library: its calls may be used by any task, with a host name that
  is not nil, and with room for what \<open>netaccept\<close> writes.
\<close>

section \<open>Lookups\<close>

lemma OK_text: "CHR ''%'' \<notin> set txt \<Longrightarrow> fds.OK G C M t (taskstate txt [])"
  by (rule fds.OK_taskstate) (rule good_format_text)

lemma OK_answer:
  shows OK_getsockopt: "fds.OK G C M t (sys_getsockopt fd level opt sn)"
    and OK_accept: "fds.OK G C M t (sys_accept fd)"
    and OK_gethostbyname: "fds.OK G C M t (gethostbyname name)"
  by (rule OK_only_sys, rule sys_getsockopt_only sys_accept_only gethostbyname_only)+

lemma parse_parts_only: "runs (parse_parts k p) s (\<lambda>_ s'. only_sys s s')"
proof (induction k arbitrary: p s)
  case (Suc k)
  obtain x q big where x: "strtoul p = (x, q, big)" by (cases "strtoul p") auto
  let ?then = "if sint x < 0 \<or> 256 \<le> sint x then ret None
      else if q \<noteq> [] \<and> hd q \<noteq> CHR ''.'' then ret None
      else bnd (parse_parts k (if q \<noteq> [] then tl q else q)) (\<lambda>r. ret (map_option ((#) (ucast x)) r))"
  have rest: "runs ?then s1 (\<lambda>_ s'. only_sys s s')" if "only_sys s s1" for s1
    using that only_sys_trans [OF that]
    by (auto simp: runs_bnd intro!: runs_mono [OF Suc.IH])
  have "only_sys s (s\<lparr>errno := 34\<rparr>)" by (cases s) (auto simp: only_sys_def)
  then have "runs (bnd (whenp big (upd (\<lambda>s. s\<lparr>errno := 34\<rparr>))) (\<lambda>_. ?then)) s (\<lambda>_ s'. only_sys s s')"
    using rest [of s] rest [of "s\<lparr>errno := 34\<rparr>"] unfolding runs_bnd by simp
  then show ?case by (simp add: x)
qed simp

lemma parseip_only: "runs (parseip name) s (\<lambda>_ s'. only_sys s s')"
  unfolding parseip_def
  by (rule runs_bndI, rule runs_mono [OF parse_parts_only]) (simp add: runs_bnd split: option.split)

lemma OK_parseip: "fds.OK G C M t (parseip name)"
  by (rule OK_only_sys) (rule parseip_only)

lemmas OK_steps = fds.OK_bnd fds.OK_ret fds.OK_get fds.OK_whenp OK_text OK_sys_call OK_fdnoblock
  OK_getsockopt OK_accept OK_gethostbyname OK_parseip OK_fdwait OK_clear_errno

lemma OK_option: "(r = None \<Longrightarrow> fds.OK G C M t m) \<Longrightarrow> (\<And>a. r = Some a \<Longrightarrow> fds.OK G C M t (f a)) \<Longrightarrow>
  fds.OK G C M t (case r of None \<Rightarrow> m | Some a \<Rightarrow> f a)"
  by (cases r) auto

lemma OK_netlookup: "fds.OK G C M t (netlookup (Some name))"
  unfolding netlookup_def option.case by (intro OK_steps OK_option) simp_all

lemma OK_fail_with: "CHR ''%'' \<notin> set txt \<Longrightarrow> fds.OK G C M t (fail_with txt)"
  unfolding fail_with_def by (intro OK_steps)

section \<open>Announcing and dialling\<close>

lemma OK_set_reuse: "fds.OK G C M t (set_reuse fd)"
  unfolding set_reuse_def by (intro OK_steps)

lemma OK_netannounce: "fds.OK G C M t (netannounce istcp server port)"
proof -
  have "fds.OK G C M t (if server \<noteq> None \<and> server \<noteq> Some ''*'' then netlookup server else ret (Some 0))"
    using OK_netlookup by (cases server) auto
  then show ?thesis
    unfolding netannounce_def Let_def
    by (intro OK_steps OK_option OK_fail_with OK_set_reuse fds.Safe_if) simp_all
qed

lemma OK_dial_end: "fds.OK G C M t (dial_end fd n)"
  unfolding dial_end_def Let_def by (intro OK_steps fds.Safe_if) simp_all

lemma OK_netdial: "fds.OK G C M t (netdial istcp (Some name) port)"
  unfolding netdial_def
  by (intro OK_steps OK_option OK_netlookup OK_fail_with OK_dial_end fds.Safe_if) simp_all

section \<open>Accepting\<close>

text \<open>The name of a peer always fits, whatever the uninitialised variable of the formatter holds.\<close>

lemma quad_format: "\<exists>str. snprint e 16 ''%d.%d.%d.%d'' (quad_args ip) = Inr str \<and> length str < 16"
proof -
  have four: "\<exists>a b c d. quad_args ip = [V32 a, V32 b, V32 c, V32 d]"
    by (simp add: quad_args_def bytes_of_def upt_rec)
  have "vseprint e 16 ''%d.%d.%d.%d'' (quad_args ip) \<noteq> Inl BadMem"
    using four by (auto simp: vseprint_def verb_def no_flags_def va_num_def split: sum.splits if_splits)
  then show ?thesis
    using vseprint_bounds [of 16 e "''%d.%d.%d.%d''" "quad_args ip"]
    by (auto simp: snprint_def vsnprint_def)
qed

lemma Safe_write_name:
  assumes stable: "\<And>s s'. grows G s s' \<Longrightarrow> P s \<Longrightarrow> P s'"
    and room: "\<And>s. P s \<Longrightarrow> accepts s (Some (Object p)) 16"
  shows "fds.Safe G C M t P (write_name (Some (Object p)) ip) (\<lambda>_. P)"
  unfolding write_name_def
proof (rule fds.Safe_bnd)
  let ?Q = "\<lambda>r. \<exists>str. r = Inr str \<and> length str < 16"
  show "fds.Safe G C M t P (get (\<lambda>s. snprint (prt s) 16 ''%d.%d.%d.%d'' (quad_args ip))) (\<lambda>r s. P s \<and> ?Q r)"
    by (rule fds.Safe_get) (use quad_format in blast)
  fix r :: "stop + string"
  show "fds.Safe G C M t (\<lambda>s. P s \<and> ?Q r) (case r of Inl e \<Rightarrow> halt e
     | Inr str \<Rightarrow> write_mem (ref (Some (Object p))) (map of_char str @ [0])) (\<lambda>_. P)"
  proof (cases "?Q r")
    case True
    then obtain str where str: "r = Inr str" "length str < 16" by blast
    have "fds.Safe G C M t P (write_mem (Obj (Object p)) (map of_char str @ [0])) (\<lambda>_. P)"
      by (rule Safe_write_mem [OF stable room]) (use str in simp_all)
    then show ?thesis unfolding str sum.case ref_def option.case by (rule fds.Safe_pre) simp
  qed (auto simp: fds.Safe_def)
qed

lemma Safe_write_port:
  assumes stable: "\<And>s s'. grows G s s' \<Longrightarrow> P s \<Longrightarrow> P s'"
    and room: "\<And>s. P s \<Longrightarrow> accepts s (Some (Object p)) 4"
  shows "fds.Safe G C M t P (write_port (Some (Object p)) w) (\<lambda>_. P)"
  unfolding write_port_def ref_def option.case
  by (rule Safe_write_mem [OF stable room]) (simp_all add: bytes_of_def)

text \<open>An output pointer may be nil.\<close>

definition out_room :: "'z chans_scheme \<Rightarrow> nat option \<Rightarrow> nat \<Rightarrow> bool" where
  "out_room s p n \<longleftrightarrow> (\<forall>q. p = Some q \<longrightarrow> accepts s (Some (Object q)) n)"

lemma Safe_netaccept:
  assumes stable: "\<And>s s'. grows G s s' \<Longrightarrow> P s \<Longrightarrow> P s'"
    and room: "\<And>s. P s \<Longrightarrow> out_room s server 16" "\<And>s. P s \<Longrightarrow> out_room s port 4"
  shows "fds.Safe G C M t P (netaccept fd (map_option Object server) (map_option Object port)) (\<lambda>_. P)"
proof -
  note keeps = Safe_keeps [OF _ stable]
  have name: "fds.Safe G C M t P (whenp (server \<noteq> None)
      (write_name (map_option Object server) ip)) (\<lambda>_. P)" for ip
    using room(1) by (cases server)
      (auto simp: whenp_def out_room_def intro!: fds.Safe_ret Safe_write_name [OF stable])
  have port: "fds.Safe G C M t P (whenp (port \<noteq> None)
      (write_port (map_option Object port) w)) (\<lambda>_. P)" for w
    using room(2) by (cases port)
      (auto simp: whenp_def out_room_def intro!: fds.Safe_ret Safe_write_port [OF stable])
  have rest: "fds.OK G C M t (bnd (fdnoblock cfd) (\<lambda>_. bnd (sys_call (Setsockopt cfd l d o')) (\<lambda>_.
      bnd (taskstate ''netaccept succeeded'' []) (\<lambda>_. ret cfd))))" for cfd l d o'
    by (intro OK_steps) simp_all
  have fail: "fds.Safe G C M t P (fail_with ''accept failed'') (\<lambda>_. P)"
    by (intro keeps OK_fail_with) simp
  have first: "fds.Safe G C M t P (fdwait fd (CHR ''r'')) (\<lambda>_. P)"
      "fds.Safe G C M t P (taskstate ''netaccept'' []) (\<lambda>_. P)" "fds.Safe G C M t P (sys_accept fd) (\<lambda>_. P)"
    by (intro keeps OK_steps; simp)+
  show ?thesis
    unfolding netaccept_def
    by (intro fds.Safe_bnd [OF first(1)] fds.Safe_bnd [OF first(2)] fds.Safe_bnd [OF first(3)])
      (auto simp del: not_None_eq split: option.split intro!: fail fds.Safe_bnd [OF name] fds.Safe_bnd [OF port] keeps [OF rest])
qed

end
