(* ===== verification/Turns.thy ===== *)
theory Turns
  imports Fd
begin

text \<open>
  Partial correctness of one turn of a task, without any assumption on the state: what the code
  leaves alone until it gives up the CPU. It serves the properties that relate what a call did
  before and after it waited.
\<close>

named_theorems turns \<open>introduction rules for \<open>turn\<close> and \<open>keeps\<close>\<close>

section \<open>One turn\<close>

text \<open>
  \<open>turn m s Q W\<close>: from \<open>s\<close>, where \<open>m\<close> returns \<open>Q\<close> holds of the result and the state, and where
  it gives up the CPU first \<open>W\<close> holds of the state and the rest of the code.
\<close>

definition turn :: "('s, 'a) prog \<Rightarrow> 's \<Rightarrow> ('a \<Rightarrow> 's \<Rightarrow> bool) \<Rightarrow> ('s \<Rightarrow> ('s, 'a) prog \<Rightarrow> bool) \<Rightarrow> bool" where
  "turn m s Q W \<longleftrightarrow>
     (case m s of Ret a s' \<Rightarrow> Q a s' | Switch s' k \<Rightarrow> W s' k | Halt _ _ \<Rightarrow> True)"

lemma turn_bndI [turns]:
  "turn m s (\<lambda>a s'. turn (f a) s' Q W) (\<lambda>s' k. W s' (bnd k f)) \<Longrightarrow> turn (bnd m f) s Q W"
  by (cases "m s") (simp_all add: turn_def bnd_def [abs_def])

lemma turn_ret [simp]: "turn (ret a) s Q W \<longleftrightarrow> Q a s"
  and turn_get [simp]: "turn (get g) s Q1 W1 \<longleftrightarrow> Q1 (g s) s"
  and turn_upd [simp]: "turn (upd h) s Q2 W2 \<longleftrightarrow> Q2 () (h s)"
  and turn_halt [simp]: "turn (halt e) s Q3 W3"
  by (simp_all add: turn_def sem_simps)

lemma turn_mono:
  "turn m s Q W \<Longrightarrow> (\<And>a s'. Q a s' \<Longrightarrow> Q' a s') \<Longrightarrow> (\<And>s' k. W s' k \<Longrightarrow> W' s' k) \<Longrightarrow> turn m s Q' W'"
  by (cases "m s") (simp_all add: turn_def)

lemma turn_whenp [turns]:
  "(b \<Longrightarrow> turn m s Q W) \<Longrightarrow> (\<not> b \<Longrightarrow> Q () s) \<Longrightarrow> turn (whenp b m) s Q W"
  by (simp add: whenp_def)

lemma turn_runs: "runs m s Q \<Longrightarrow> turn m s Q W"
  by (auto simp: runs_def turn_def)

text \<open>\<open>keeps f m\<close>: the code does not give up the CPU and does not change \<open>f\<close>.\<close>

definition keeps :: "('s \<Rightarrow> 'v) \<Rightarrow> ('s, 'a) prog \<Rightarrow> bool" where
  "keeps f m \<longleftrightarrow> (\<forall>s. turn m s (\<lambda>_ s'. f s' = f s) (\<lambda>_ _. False))"

lemma keeps_then:
  assumes "keeps f m" and "\<And>a s'. f s' = f s \<Longrightarrow> turn (g a) s' Q W"
  shows "turn (bnd m g) s Q W"
proof (rule turn_bndI, rule turn_mono)
  show "turn m s (\<lambda>_ s'. f s' = f s) (\<lambda>_ _. False)" using assms(1) by (simp add: keeps_def)
qed (use assms(2) in auto)

lemma keeps_bnd [turns]: "keeps f m \<Longrightarrow> (\<And>a. keeps f (g a)) \<Longrightarrow> keeps f (bnd m g)"
  unfolding keeps_def [of f "bnd m g"]
proof (intro allI, rule keeps_then)
  fix s s' a
  assume "\<And>a. keeps f (g a)" and "f s' = f s"
  then show "turn (g a) s' (\<lambda>_ s''. f s'' = f s) (\<lambda>_ _. False)" unfolding keeps_def by metis
qed

lemma keeps_prims [turns]:
  "keeps f (ret a)" "keeps f1 (get g)" "keeps f2 (halt e)"
  by (simp_all add: keeps_def)

lemma keeps_upd: "(\<And>s. f (h s) = f s) \<Longrightarrow> keeps f (upd h)"
  by (simp add: keeps_def)

lemma keeps_split [turns]:
  "(b \<Longrightarrow> keeps f m) \<Longrightarrow> (\<not> b \<Longrightarrow> keeps f m') \<Longrightarrow> keeps f (if b then m else m')"
  "(b \<Longrightarrow> keeps f m1) \<Longrightarrow> keeps f (whenp b m1)"
  "keeps f m2 \<Longrightarrow> (\<And>x. keeps f (g x)) \<Longrightarrow> keeps f (case p of None \<Rightarrow> m2 | Some x \<Rightarrow> g x)"
  "(\<And>x. keeps f (g1 x)) \<Longrightarrow> (\<And>y. keeps f (g2 y)) \<Longrightarrow>
     keeps f (case q of Inl x \<Rightarrow> g1 x | Inr y \<Rightarrow> g2 y)"
  by (auto simp: whenp_def keeps_def split: option.split sum.split)

lemma keeps_comp: "keeps f m \<Longrightarrow> keeps (\<lambda>s. g (f s)) m"
  unfolding keeps_def
  by (intro allI, rule turn_mono, erule spec) simp_all

section \<open>The calls of task.c\<close>

lemma keeps_deref [turns]: "keeps f (deref p)"
  by (cases p) (simp_all add: deref_def turns)

lemma keeps_tasks [turns]:
  "keeps sched.more (load_task p)" "keeps sched.more (mod_task p f)" "keeps sched.more (mod_list q g)"
  "keeps sched.more try_alloc" "keeps sched.more (set_alltask i v)" "keeps sched.more running"
  by (auto simp: keeps_def turn_def load_task_def mod_task_def mod_list_def try_alloc_def set_alltask_def
      running_def deref_def bnd_def sem_simps split: option.split)

lemma keeps_addtask [turns]: "keeps sched.more (addtask q p)"
  unfolding addtask_def by (intro turns)

lemma keeps_taskready [turns]: "keeps sched.more (taskready p)"
  unfolding taskready_def by (intro turns)

lemma keeps_taskstate [turns]: "keeps sched.more (taskstate fmt args)"
  unfolding taskstate_def vsnprintp_def by (intro turns)

lemma keeps_taskcreate: "keeps sched.more (taskcreate fn arg n)"
  unfolding taskcreate_def taskalloc_def
  by (intro turns keeps_upd) (simp_all add: grow_alltask_def)

lemma turn_taskswitch: "turn taskswitch s (\<lambda>_ _. False) (\<lambda>s' k. s' = s \<and> k = ret ())"
  by (auto simp: turn_def taskswitch_def needstack_def running_def deref_def load_task_def bnd_def sem_simps
      split: option.split)

section \<open>Waiting\<close>

text \<open>What \<open>fdwait\<close> does not touch.\<close>

definition outside_fd :: "'z fds_scheme \<Rightarrow> (cptr \<Rightarrow> chan option) \<times> (obj \<Rightarrow> uchar list option) \<times>
    event list \<times> kern \<times> (nat \<Rightarrow> uint)" where
  "outside_fd s = (chan s, umem s, trace s, kernel s, frame_junk s)"

lemma outside_fd_more: "sched.more s' = sched.more s \<Longrightarrow> outside_fd s' = outside_fd s"
  by (cases s, cases s') (simp add: outside_fd_def)

lemma keeps_outside:
  assumes "keeps sched.more m"
  shows "keeps outside_fd m"
  unfolding keeps_def
  by (intro allI, rule turn_mono, rule assms [unfolded keeps_def, rule_format], erule outside_fd_more)
    simp

lemma keeps_fds [turns]:
  "keeps outside_fd (set_polltask i p)" "keeps outside_fd (set_pollfd i x)"
  "keeps outside_fd (upd (\<lambda>s. s\<lparr>npollfd := n\<rparr>))" "keeps outside_fd (upd (\<lambda>s. s\<lparr>startedfdtask := b\<rparr>))"
  by (auto simp: keeps_def turn_def set_polltask_def set_pollfd_def outside_fd_def sem_simps)

text \<open>\<open>fdwait\<close> gives up the CPU exactly once, at its end.\<close>

lemma fdwait_turn:
  "turn (fdwait fd dir) s (\<lambda>_ _. False) (\<lambda>s' k. k = ret () \<and> outside_fd s' = outside_fd s)"
proof -
  have start: "keeps outside_fd start_fdtask"
    unfolding start_fdtask_def by (intro turns keeps_outside [OF keeps_taskcreate])
  have add: "keeps outside_fd (add_poller fd bits)" for bits
    unfolding add_poller_def by (intro turns)
  have shown: "keeps outside_fd (taskstate fmt args)" for fmt args
    by (intro keeps_outside turns)
  have stop: "turn taskswitch s' (\<lambda>_ _. False) (\<lambda>s'' k. k = ret () \<and> outside_fd s'' = outside_fd s)"
    if "outside_fd s' = outside_fd s" for s'
    by (rule turn_mono [OF turn_taskswitch]) (use that in auto)
  show ?thesis
    unfolding fdwait_def
    by (rule keeps_then [OF start], rule keeps_then [where f = outside_fd, OF keeps_prims(2)], split if_split, intro conjI impI,
        simp, rule keeps_then [OF shown], rule keeps_then [OF add], rule stop) simp
qed

end
