(* ===== verification/Fdprops.thy ===== *)
theory Fdprops
  imports Fdclient
begin

text \<open>Properties of fd.c, and small states in which they are instantiated.\<close>

section \<open>Instances\<close>

text \<open>A kernel in which two seconds have passed, every call succeeds and \<open>write\<close> takes two bytes.\<close>

definition calm_kernel :: kern where
  "calm_kernel = \<lparr>k_time = (\<lambda>_. Inr (2, 0)), k_poll = (\<lambda>_ _ _. Inr (\<lambda>_. 0)), k_read = (\<lambda>_ _ _. Inr []),
     k_write = (\<lambda>_ _ bs. Inr (min 2 (length bs))), k_call = (\<lambda>_ _. Inr 0),
     k_getsockopt = (\<lambda>_ _ _ _ _. Inr 0), k_accept = (\<lambda>_ _. Inl 1), k_host = (\<lambda>_ _. None)\<rparr>"

text \<open>
  Task 0 runs; the tasks 1 and 2 are in the list \<open>q\<close>; the entries of \<open>pollfd\<close> and \<open>polltask\<close> and
  the number of sleepers are given; one object of the client has three bytes.
\<close>

definition fd_demo :: "lptr \<Rightarrow> (pollent \<times> tptr) list \<Rightarrow> int \<Rightarrow> fds" where
  "fd_demo q xs c = demo q (qlocks_ext (\<lambda>_. None) (rwlocks_ext (\<lambda>_. \<lparr>readers = 0, writer = None\<rparr>)
     (rendezs_ext (\<lambda>_. None) (chans_ext (\<lambda>_. None) 0 (\<lambda>_. None) 0 [Object 0 \<mapsto> [1, 2, 3]] 1 (\<lambda>_. 0) 0 (\<lambda>_. 7)
     (sys_ext calm_kernel [] 0 (\<lambda>_. 0)
     (fds_ext (map fst xs @ replicate (MAXFD - length xs) \<lparr>pfd = 0, events = 0, revents = 0\<rparr>)
        (map (Some \<circ> snd) xs @ replicate (MAXFD - length xs) None) (length xs) True c ()))))))"

lemma fd_demo_simps [simp]:
  "taskrunning (fd_demo q xs c) = Some 0" "startedfdtask (fd_demo q xs c)" "sleepingcounted (fd_demo q xs c) = c"
  "kernel (fd_demo q xs c) = calm_kernel" "trace (fd_demo q xs c) = []"
  "umem (fd_demo q xs c) = [Object 0 \<mapsto> [1, 2, 3]]" "npollfd (fd_demo q xs c) = length xs"
  by (simp_all add: fd_demo_def demo_def)

lemma fd_demo_queues: "queues_ok (fd_demo q xs c) (demoL q)"
  unfolding fd_demo_def by (rule demo_queues)

lemma fd_demo_tasks:
  "dom (tasks (fd_demo q xs c)) = {0, 1, 2}" "user_tasks (fd_demo q xs c) = {0, 1, 2}" "fresh_ok (fd_demo q xs c)"
  unfolding fd_demo_def
  by (auto simp: demo_user_tasks demo_fresh) (auto simp: demo_def split: if_splits)

text \<open>Both sleep; task 2 until later.\<close>

definition nap_demo :: fds where
  "nap_demo = (fd_demo Sleeping [] 2)\<lparr>taskcount := 4, tasks := (tasks (fd_demo Sleeping [] 2))
     (2 \<mapsto> task_zero\<lparr>tid := 3, tprev := Some 1, alltaskslot := 2, alarmtime := 9000000000\<rparr>)\<rparr>"

lemma nap_demo_simps [simp]:
  "sleepingcounted nap_demo = 2" "taskrunning nap_demo = Some 0" "startedfdtask nap_demo"
  "kernel nap_demo = calm_kernel" "trace nap_demo = []" "0 \<in> dom (tasks nap_demo)"
  "alarm nap_demo (Suc 0) = 0" "alarm nap_demo 2 = 9000000000"
  by (simp_all add: nap_demo_def alarm_def) (auto simp: fd_demo_def demo_def task_zero_def)

lemma nap_demo_queues: "queues_ok nap_demo (demoL Sleeping)"
proof -
  have "tasks (fd_demo Sleeping [] 2) 2 = Some (task_zero\<lparr>tid := 3, tprev := Some 1, alltaskslot := 2\<rparr>)"
    by (simp add: fd_demo_def demo_def)
  then show ?thesis
    by (intro queues_ok_cong [OF fd_demo_queues [of Sleeping "[]" 2]]) (auto simp: nap_demo_def task_zero_def)
qed

lemma nap_demo_tasks: "fresh_ok nap_demo" "user_tasks nap_demo = {0, 1, 2}"
proof -
  have "dom (tasks nap_demo) = {0, 1, 2}" using fd_demo_tasks(1) [of Sleeping "[]" 2] by (auto simp: nap_demo_def)
  moreover have "brk nap_demo = 3" by (simp add: nap_demo_def fd_demo_def)
  ultimately show "fresh_ok nap_demo" by (simp add: fresh_ok_def)
  show "user_tasks nap_demo = {0, 1, 2}"
    by (auto simp: user_tasks_def nap_demo_def fd_demo_def demo_def task_zero_def split: if_splits)
qed

lemma nap_demo_counts: "counts_ok nap_demo (demoL Sleeping) 2"
proof -
  have "taskcount nap_demo = 4" by (simp add: nap_demo_def)
  moreover have "nappers nap_demo (demoL Sleeping) = {1, 2}" by (auto simp: nappers_def nap_demo_tasks)
  ultimately show ?thesis by (simp add: counts_ok_def nap_demo_tasks)
qed

section \<open>The polling task\<close>

text \<open>
  C9: after \<open>poll\<close>, \<open>fdtask\<close> readies exactly the tasks whose entry has an event, each once, and
  removes exactly their entries; the entries without events stay, with their tasks. Nothing else
  of the queues changes. The order in which the entries are moved together loses none of them.
\<close>

theorem fdtask_wakes_pollers:
  assumes "polled s xs" and "queues_ok s L" and "distinct (map snd xs)"
    and "\<And>p. p \<in> snd ` set xs \<Longrightarrow> p \<in> dom (tasks s) \<and> \<not> queued L p"
  shows "runs wake_polled s (\<lambda>_ s'. \<exists>xs' ws. polled s' xs' \<and>
    mset xs' = filter_mset (\<lambda>e. revents (fst e) = 0) (mset xs) \<and>
    mset ws = filter_mset (\<lambda>e. revents (fst e) \<noteq> 0) (mset xs) \<and>
    queues_ok s' (L(RunQueue := L RunQueue @ map snd ws)) \<and> calm s s' \<and> only_polls s s')"
  by (rule wake_polled_spec [OF assms])

theorem fdtask_wakes_pollers_witness:
  "runs wake_polled ((fd_demo RunQueue [(\<lparr>pfd = 5, events = 1, revents = 1\<rparr>, 1), (\<lparr>pfd = 6, events = 1, revents = 0\<rparr>, 2)] 0)
       \<lparr>lists := \<lambda>_. \<lparr>head = None, tail = None\<rparr>\<rparr>)
     (\<lambda>_ s'. queues_ok s' ((\<lambda>_. [])(RunQueue := [1])) \<and> npollfd s' = 1)"
proof -
  let ?a = "(\<lparr>pfd = 5, events = 1, revents = 1\<rparr>, 1) :: pollent \<times> tptr"
  let ?b = "(\<lparr>pfd = 6, events = 1, revents = 0\<rparr>, 2) :: pollent \<times> tptr"
  let ?s = "(fd_demo RunQueue [?a, ?b] 0)\<lparr>lists := \<lambda>_. \<lparr>head = None, tail = None\<rparr>\<rparr>"
  let ?L = "(\<lambda>_. []) :: queues"
  have p: "polled ?s [?a, ?b]"
    by (auto simp: polled_def fd_demo_def demo_def less_Suc_eq)
  have q: "queues_ok ?s ?L" by (simp add: queues_ok_def tlist_def)
  have t: "p \<in> snd ` set [?a, ?b] \<Longrightarrow> p \<in> dom (tasks ?s) \<and> \<not> queued ?L p" for p
    using fd_demo_tasks(1) [of RunQueue "[?a, ?b]" 0] by (auto simp: queued_def)
  have "runs wake_polled ?s (\<lambda>_ s'. \<exists>xs' ws. polled s' xs' \<and>
    mset xs' = filter_mset (\<lambda>e. revents (fst e) = 0) (mset [?a, ?b]) \<and>
    mset ws = filter_mset (\<lambda>e. revents (fst e) \<noteq> 0) (mset [?a, ?b]) \<and>
    queues_ok s' (?L(RunQueue := ?L RunQueue @ map snd ws)) \<and> calm ?s s' \<and> only_polls ?s s')"
    by (rule fdtask_wakes_pollers [OF p q _ t]) simp_all
  then show ?thesis
  proof (rule runs_mono, elim exE conjE)
    fix s' xs' and ws :: "(pollent \<times> tptr) list"
    assume a: "polled s' xs'" "mset xs' = filter_mset (\<lambda>e. revents (fst e) = 0) (mset [?a, ?b])"
      "mset ws = filter_mset (\<lambda>e. revents (fst e) \<noteq> 0) (mset [?a, ?b])"
      "queues_ok s' (?L(RunQueue := ?L RunQueue @ map snd ws))"
    then have "mset ws = {#?a#}" "mset xs' = {#?b#}" by simp_all
    then have "ws = [?a]" "length xs' = 1" using size_mset [of xs'] by (simp_all add: mset_single_iff)
    then show "queues_ok s' ((\<lambda>_. [])(RunQueue := [1])) \<and> npollfd s' = 1"
      using a(1,4) by (simp add: polled_def)
  qed
qed

text \<open>
  C10: the sleepers that \<open>fdtask\<close> readies are exactly those whose alarm time has come, in the order
  of their alarm times; the others stay asleep. Afterwards \<open>sleepingcounted\<close> is the number of user
  tasks that still sleep, and \<open>taskcount\<close> that of the user tasks, plus one while any of them
  sleeps. The loop ends within as many rounds as tasks were ever created.
\<close>

theorem fdtask_wakes_sleepers:
  assumes "queues_ok s L" and "counts_ok s L (sleepingcounted s)" and "fresh_ok s"
  shows "runs (wake_sleepers (Suc (brk s)) now) s (\<lambda>_ s'. \<exists>L'.
    L' = L(Sleeping := filter (\<lambda>p. now < alarm s p) (L Sleeping),
           RunQueue := L RunQueue @ filter (\<lambda>p. alarm s p \<le> now) (L Sleeping)) \<and>
    queues_ok s' L' \<and> counts_ok s' L' (sleepingcounted s') \<and> user_tasks s' = user_tasks s)"
proof -
  have srt: "sorted (map (alarm s) (L Sleeping))" using assms(2) by (simp add: counts_ok_def)
  have "takeWhile (\<lambda>p. alarm s p \<le> now) xs = filter (\<lambda>p. alarm s p \<le> now) xs \<and>
      dropWhile (\<lambda>p. alarm s p \<le> now) xs = filter (\<lambda>p. now < alarm s p) xs"
    if "sorted (map (alarm s) xs)" for xs
    using that
  proof (induction xs)
    case (Cons x xs)
    show ?case
    proof (cases "alarm s x \<le> now")
      case True
      then show ?thesis using Cons by (simp add: not_less)
    next
      case False
      then have "now < alarm s y" if "y \<in> set xs" for y using Cons.prems that by force
      then have "filter (\<lambda>p. alarm s p \<le> now) xs = []" "filter (\<lambda>p. now < alarm s p) xs = xs"
        by (auto simp: filter_empty_conv not_le filter_id_conv)
      then show ?thesis using False by simp
    qed
  qed simp
  note tw = this [OF srt]
  have k: "length (L Sleeping) < Suc (brk s)" using queue_length [OF assms(1,3), of Sleeping] by simp
  show ?thesis
    by (rule runs_mono [OF wake_sleepers_spec [OF assms(1,2) finite_user_tasks [OF assms(3)] k]])
      (use tw drowsyD(1) in auto)
qed

theorem fdtask_wakes_sleepers_witness:
  "runs (wake_sleepers (Suc (brk nap_demo)) 5) nap_demo
     (\<lambda>_ s'. queues_ok s' ((demoL Sleeping)(Sleeping := [2], RunQueue := [1])) \<and> sleepingcounted s' = 1)"
proof -
  have "runs (wake_sleepers (Suc (brk nap_demo)) 5) nap_demo (\<lambda>_ s'. \<exists>L'.
    L' = (demoL Sleeping)(Sleeping := filter (\<lambda>p. 5 < alarm nap_demo p) (demoL Sleeping Sleeping),
           RunQueue := demoL Sleeping RunQueue @ filter (\<lambda>p. alarm nap_demo p \<le> 5) (demoL Sleeping Sleeping)) \<and>
    queues_ok s' L' \<and> counts_ok s' L' (sleepingcounted s') \<and> user_tasks s' = user_tasks nap_demo)"
    by (rule fdtask_wakes_sleepers) (simp_all add: nap_demo_queues nap_demo_counts nap_demo_tasks)
  then show ?thesis
  proof (rule runs_mono, elim exE conjE)
    fix s' L'
    assume a: "L' = (demoL Sleeping)(Sleeping := filter (\<lambda>p. 5 < alarm nap_demo p) (demoL Sleeping Sleeping),
           RunQueue := demoL Sleeping RunQueue @ filter (\<lambda>p. alarm nap_demo p \<le> 5) (demoL Sleeping Sleeping))"
      and q: "queues_ok s' L'" and c: "counts_ok s' L' (sleepingcounted s')"
      and u: "user_tasks s' = user_tasks nap_demo"
    have L': "L' = (demoL Sleeping)(Sleeping := [2], RunQueue := [1])" using a by simp
    then have "nappers s' L' = {2}" by (auto simp: nappers_def u nap_demo_tasks)
    then show "queues_ok s' ((demoL Sleeping)(Sleeping := [2], RunQueue := [1])) \<and> sleepingcounted s' = 1"
      using q c L' by (simp add: counts_ok_def)
  qed
qed

text \<open>
  C11: \<open>taskdelay\<close> puts the caller among the sleepers exactly where the library's insertion into a
  sorted list puts it (before those that wake at the same time), with the alarm time now plus the
  delay, keeps the counters exact, and gives up the CPU. It fails only by the stack check.
\<close>

theorem taskdelay_inserts:
  assumes "queues_ok s L" and "taskrunning s = Some t" and "t \<in> dom (tasks s)" and "\<not> queued L t"
    and "counts_ok s L (sleepingcounted s)" and "fresh_ok s" and "startedfdtask s"
    and "k_time (kernel s) (trace s) = Inr (sec, usec)"
  shows "(\<exists>s' k L'. taskdelay ms s = Switch s' k \<and>
      L' = L(Sleeping := insort_key (alarm s') t (L Sleeping)) \<and>
      queues_ok s' L' \<and> counts_ok s' L' (sleepingcounted s') \<and>
      alarm s' t = scast sec * 1000000000 + scast (usec * 1000) + ucast ms * 1000000 \<and>
      (\<forall>p. p \<noteq> t \<longrightarrow> alarm s' p = alarm s p) \<and> user_tasks s' = user_tasks s) \<or>
    (\<exists>s'. taskdelay ms s = Halt Abort s')"
proof -
  define now :: uvlong where "now = scast sec * 1000000000 + scast (usec * 1000)"
  let ?w = "now + ucast ms * 1000000"
  define s1 where "s1 = s\<lparr>trace := ETime (Inr (sec, usec)) # trace s\<rparr>"
  have nsec: "nsec s = Ret now s1"
    using assms(8) by (simp add: nsec_def sys_time_def logged_def bnd_def sem_simps s1_def now_def)
  have same: "tasks s1 = tasks s" "lists s1 = lists s" "taskrunning s1 = taskrunning s"
      "sleepingcounted s1 = sleepingcounted s" "taskcount s1 = taskcount s" "brk s1 = brk s"
    by (simp_all add: s1_def)
  have q: "queues_ok s1 L" by (rule queues_ok_cong [OF assms(1)]) (simp_all add: same)
  have c: "counts_ok s1 L (sleepingcounted s1)"
    using counts_same [OF assms(5), of s1 L] by (simp add: same user_tasks_def alarm_def)
  have f: "fresh_ok s1" using assms(6) by (simp add: fresh_ok_def same)
  have "taskrunning s1 = Some t" "t \<in> dom (tasks s1)" using assms(2,3) by (simp_all add: same)
  from enter_sleep_spec [OF q assms(4) this c f, of ?w]
  obtain s2 L' where s2: "enter_sleep ?w s1 = Ret () s2" "drowsy (set_alarm ?w t s1) s2"
      "L' = L(Sleeping := insort_key (alarm (set_alarm ?w t s1)) t (L Sleeping))"
      "queues_ok s2 L'" "counts_ok s2 L' (sleepingcounted s2)"
    by (auto simp: runs_def)
  note D = drowsyD [OF s2(2)]
  have al: "alarm s2 = alarm (set_alarm ?w t s1)" using D(2) by (simp add: fun_eq_iff)
  obtain x where x: "tasks s t = Some x" using assms(3) by blast
  have at: "alarm s2 t = ?w" using x by (simp add: al) (simp add: alarm_def set_alarm_def same)
  have others: "\<forall>p. p \<noteq> t \<longrightarrow> alarm s2 p = alarm s p"
    by (simp add: al) (simp add: alarm_def set_alarm_def same)
  have users: "user_tasks s2 = user_tasks s"
    using x by (simp add: D(1)) (auto simp: user_tasks_def set_alarm_def same)
  have run: "taskrunning s2 = Some t" using D(5) assms(2) by (simp add: set_alarm_def same)
  have "dom (tasks s2) = dom (tasks s)" using D(3) x by (auto simp: set_alarm_def same)
  then obtain y where y: "tasks s2 t = Some y" using x by blast
  let ?rest = "\<lambda>_ :: unit. bnd nsec (\<lambda>later. ret (ucast ((later - now) div 1000000) :: uint))"
  have "start_fdtask s = Ret () s"
    using assms(7) by (simp add: start_fdtask_def whenp_def bnd_def get_def ret_def)
  then have "taskdelay ms s = bnd taskswitch ?rest s2"
    using nsec s2(1) by (simp add: taskdelay_def)
  moreover have "taskswitch s2 = Halt Abort s2 \<or> taskswitch s2 = Switch s2 (ret ())"
    using run y by (simp add: taskswitch_def needstack_def running_def bnd_def deref_def load_task_def sem_simps)
  ultimately consider k where "taskdelay ms s = Switch s2 k" | "taskdelay ms s = Halt Abort s2" by auto
  then show ?thesis
  proof cases
    case 1
    have "alarm s2 t = scast sec * 1000000000 + scast (usec * 1000) + ucast ms * 1000000"
      using at by (simp add: now_def)
    then show ?thesis
      using 1 s2(3-5) others users unfolding al [symmetric] by (intro disjI1 exI conjI)
  qed blast
qed

theorem taskdelay_inserts_witness:
  "(\<exists>s' k. taskdelay 1000 nap_demo = Switch s' k \<and>
      queues_ok s' ((demoL Sleeping)(Sleeping := [1, 0, 2])) \<and> sleepingcounted s' = 3) \<or>
    (\<exists>s'. taskdelay 1000 nap_demo = Halt Abort s')"
proof -
  have "k_time (kernel nap_demo) (trace nap_demo) = Inr (2, 0)" by (simp add: calm_kernel_def)
  from taskdelay_inserts [OF nap_demo_queues _ _ _ _ nap_demo_tasks(1) _ this, of 0 1000]
  consider s' k L' where "taskdelay 1000 nap_demo = Switch s' k"
      "L' = (demoL Sleeping)(Sleeping := insort_key (alarm s') 0 (demoL Sleeping Sleeping))"
      "queues_ok s' L'" "counts_ok s' L' (sleepingcounted s')"
      "alarm s' 0 = scast (2 :: cint) * 1000000000 + scast ((0 :: cint) * 1000) + ucast (1000 :: uint) * 1000000"
      "\<forall>p. p \<noteq> 0 \<longrightarrow> alarm s' p = alarm nap_demo p" "user_tasks s' = user_tasks nap_demo"
    | "\<exists>s'. taskdelay 1000 nap_demo = Halt Abort s'"
    using nap_demo_counts by auto
  then show ?thesis
  proof cases
    case 1
    have "alarm s' (Suc 0) = 0" "alarm s' 2 = 9000000000" "alarm s' 0 = 3000000000" using 1(5,6) by simp_all
    then have L': "L' = (demoL Sleeping)(Sleeping := [1, 0, 2])" using 1(2) by simp
    then have "nappers s' L' = {1, 0, 2}" using 1(7) by (auto simp: nappers_def nap_demo_tasks)
    then have "sleepingcounted s' = 3" using 1(4) by (simp add: counts_ok_def)
    then show ?thesis using 1(1,3) L' by blast
  qed blast
qed

text \<open>
  C12: while the clock is not about to wrap around, \<open>fdtask\<close> asks \<open>poll\<close> to wait neither longer than
  five seconds nor past the first alarm, and when that alarm is at most five seconds away the wait
  ends less than a millisecond before it.
\<close>

theorem poll_ms_bounds:
  assumes "unat now + 5000000000 < 2 ^ 64"
  shows "0 \<le> sint (poll_ms now a) \<and> sint (poll_ms now a) \<le> 5000 \<and>
   (now < a \<longrightarrow> unat now + unat (poll_ms now a) * 1000000 \<le> unat a) \<and>
   (now < a \<and> unat a \<le> unat now + 5000000000 \<longrightarrow> unat a < unat now + (unat (poll_ms now a) + 1) * 1000000)"
proof -
  have sum: "unat (now + 5 * 1000 * 1000 * 1000) = unat now + 5000000000"
    using assms by (subst unat_add_lem [THEN iffD1]) simp_all
  have le: "a \<le> now + 5 * 1000 * 1000 * 1000 \<longleftrightarrow> unat a \<le> unat now + 5000000000"
    by (simp only: word_le_nat_alt sum)
  have small: "0 \<le> sint w \<and> sint w \<le> 5000" if "unat w \<le> 5000" for w :: cint
  proof -
    have "0 \<le> sint w" using that by (simp add: sint_unat32(1))
    then show ?thesis using that sint_unat32(2) [of w] by linarith
  qed
  consider "a \<le> now" | "now < a" "unat a \<le> unat now + 5000000000" | "now < a" "unat now + 5000000000 < unat a"
    by (meson not_le)
  then show ?thesis
  proof cases
    case 1
    then show ?thesis by (auto simp: poll_ms_def)
  next
    case 2
    have d: "unat (a - now) = unat a - unat now" using 2(1) by (intro unat_sub) simp
    have lt: "unat now < unat a" using 2(1) by (simp add: word_less_nat_alt)
    let ?k = "(unat a - unat now) div 1000000"
    have k: "?k \<le> 5000" using 2(2) lt by (simp add: div_le_mono)
    have "unat (ucast ((a - now) div 1000000) :: cint) = ?k"
      using k by (simp add: unsigned_ucast_eq unat_div d take_bit_nat_eq_self)
    then have u: "unat (poll_ms now a) = ?k" using 2 le by (simp add: poll_ms_def not_le)
    show ?thesis
      using small [of "poll_ms now a"] k lt unfolding u by (auto simp: u)
  next
    case 3
    then have "poll_ms now a = 5000" using le by (simp add: poll_ms_def)
    then show ?thesis using 3 by simp
  qed
qed

theorem poll_ms_bounds_witness: "unat (poll_ms 3 9000000) * 1000000 + 3 \<le> 9000000"
proof -
  have "unat (3 :: uvlong) + unat (poll_ms 3 9000000) * 1000000 \<le> unat (9000000 :: uvlong)"
    using poll_ms_bounds [of 3 9000000] by simp
  then show ?thesis by simp
qed

end
