(* ===== verification/Netprops.thy ===== *)
theory Netprops
  imports Netclient Turns Fdprops
begin

text \<open>
  Properties of net.c: how addresses are read from and written into text, and that no descriptor
  is lost when announcing or dialling fails.
\<close>

section \<open>Decimal bytes\<close>

definition dec :: "uchar \<Rightarrow> string" where
  "dec b = (if b = 0 then ''0'' else digs 10 (unat b) [])"

fun dotted :: "uchar list \<Rightarrow> string" where
  "dotted [] = []"
| "dotted [b] = dec b"
| "dotted (b # bs) = dec b @ CHR ''.'' # dotted bs"

lemma hd_digs_nonzero:
  assumes "n \<noteq> 0"
  shows "digs 10 n acc \<noteq> [] \<and> hd (digs 10 n acc) \<in> set ''123456789''"
  using assms
proof (induction "10 :: nat" n acc rule: digs.induct)
  case (1 n acc)
  show ?case
  proof (cases "n < 10")
    case True
    then have "n \<in> set [1..<10]" using "1.prems" by auto
    moreover have "\<forall>d \<in> set [1..<10]. digits ! d \<in> set ''123456789''" by code_simp
    ultimately show ?thesis using "1.prems" True by (subst (1 2) digs.simps) (simp add: digs_Nil)
  next
    case False
    then have "n div 10 \<noteq> 0" by simp
    with 1 show ?thesis by (subst (1 2) digs.simps) simp
  qed
qed

lemma digs_decimal: "set (digs 10 n acc) \<subseteq> set ''0123456789'' \<union> set acc"
proof (induction "10 :: nat" n acc rule: digs.induct)
  case (1 n acc)
  have "\<forall>d \<in> set [0..<10]. digits ! d \<in> set ''0123456789''" by code_simp
  then have "digits ! (n mod 10) \<in> set ''0123456789''" by simp
  with 1 show ?case by (subst digs.simps) auto
qed

lemma dec_chars: "set (dec b) \<subseteq> set ''0123456789''" "dec b \<noteq> []" "length (dec b) \<le> 3"
proof -
  show "set (dec b) \<subseteq> set ''0123456789''" using digs_decimal [of "unat b" "[]"] by (auto simp: dec_def)
  show "dec b \<noteq> []" using hd_digs_nonzero [of "unat b" "[]"] by (simp add: dec_def unat_eq_zero)
  have "unat b < 2 ^ 8" using unsigned_less [of b] by simp
  then have "unat b < 10 ^ 3" by simp
  from digs_length [OF this, of "[]"] show "length (dec b) \<le> 3" by (simp add: dec_def)
qed

lemma decimal_digit: "c \<in> set ''0123456789'' \<Longrightarrow>
  digit_of c < 10 \<and> digit_of c = digit_val c \<and> \<not> blank c \<and> c \<noteq> CHR ''-'' \<and> c \<noteq> CHR ''+''"
proof -
  have "\<forall>c \<in> set ''0123456789''. digit_of c < 10 \<and> digit_of c = digit_val c \<and> \<not> blank c \<and> c \<noteq> CHR ''-'' \<and>
    c \<noteq> CHR ''+''" by code_simp
  then show "c \<in> set ''0123456789'' \<Longrightarrow> ?thesis" by blast
qed

lemma scan_stops:
  assumes "\<forall>c \<in> set xs. digit_of c < base" and "rest = [] \<or> base \<le> digit_of (hd rest)"
  shows "scan_digits base v (xs @ rest) = (foldl (\<lambda>a c. base * a + digit_of c) v xs, rest)"
  using assms
proof (induction xs arbitrary: v)
  case Nil
  then show ?case by (cases rest) auto
qed simp

text \<open>\<open>strtoul\<close> reads a decimal byte up to the next dot.\<close>

lemma strtoul_dec:
  assumes "rest = [] \<or> hd rest = CHR ''.''"
  shows "strtoul (dec b @ rest) = (ucast b, rest, False)"
proof -
  have dot: "digit_of CHR ''.'' = 36" by code_simp
  have zero: "digit_of CHR ''0'' = 0" by code_simp
  have stop: "rest = [] \<or> 10 \<le> digit_of (hd rest)" "rest = [] \<or> 8 \<le> digit_of (hd rest)"
    using assms dot by auto
  obtain c cs where c: "dec b = c # cs" using dec_chars(2) [of b] by (cases "dec b") auto
  then have c_dig: "c \<in> set ''0123456789''" using dec_chars(1) [of b] by auto
  note C = decimal_digit [OF c_dig]
  show ?thesis
  proof (cases "b = 0")
    case True
    have "number_base (CHR ''0'' # rest) = (8, CHR ''0'' # rest)"
      using assms by (cases rest; cases "tl rest") (auto simp: number_base_def)
    moreover have "scan_digits 8 0 (''0'' @ rest) = (0, rest)"
      by (subst scan_stops [OF _ stop(2)]) (simp_all add: zero)
    ultimately show ?thesis
      using True zero by (simp add: dec_def strtoul_def decimal_digit)
  next
    case False
    then have h: "hd (dec b) \<in> set ''123456789''"
      using hd_digs_nonzero [of "unat b" "[]"] by (simp add: dec_def unat_eq_zero)
    then have "number_base (c # cs @ rest) = (10, c # cs @ rest)"
      using c by (auto simp: number_base_def split: list.splits)
    moreover have "scan_digits 10 0 (c # cs @ rest) = (unat b, rest)"
    proof -
      have all: "\<forall>d \<in> set (dec b). digit_of d < 10 \<and> digit_of d = digit_val d"
        using dec_chars(1) [of b] decimal_digit by blast
      have "foldl (\<lambda>a d. 10 * a + digit_of d) v xs = foldl (\<lambda>a d. 10 * a + digit_val d) v xs"
        if "\<forall>d \<in> set xs. digit_of d = digit_val d" for v xs
        using that by (induction xs arbitrary: v) auto
      then have "foldl (\<lambda>a d. 10 * a + digit_of d) 0 (dec b) = num_val 10 (dec b)"
        using all by (simp add: num_val_def)
      also have "\<dots> = unat b" using False digs_val [of 10 "unat b"] by (simp add: dec_def)
      finally have "foldl (\<lambda>a d. 10 * a + digit_of d) 0 (dec b) = unat b" .
      moreover have "scan_digits 10 0 (dec b @ rest) = (foldl (\<lambda>a d. 10 * a + digit_of d) 0 (dec b), rest)"
        by (rule scan_stops) (use all stop(1) in auto)
      ultimately show ?thesis by (simp only: c append_Cons)
    qed
    moreover have "unat b < 2 ^ 8" using unsigned_less [of b] by simp
    then have "\<not> 2 ^ 32 \<le> unat b" by simp
    moreover have "(of_nat (unat b) :: uint) = ucast b" by (simp add: unsigned_ucast_eq word_unat_eq_iff take_bit_nat_eq_self)
    ultimately show ?thesis using C c by (simp add: strtoul_def not_le)
  qed
qed

section \<open>Addresses in text\<close>

lemma byte_int: "unat (ucast b :: uint) = unat (b :: uchar)" "0 \<le> sint (ucast b :: uint)"
  "sint (ucast b :: uint) < 256" "ucast (ucast b :: uint) = b"
proof -
  have lt: "unat b < 2 ^ 8" using unsigned_less [of b] by simp
  then have lt': "unat b < 256" by simp
  then have "unat b < 2 ^ 32" by simp
  then show u: "unat (ucast b :: uint) = unat b" by (simp add: unsigned_ucast_eq take_bit_nat_eq_self)
  show nn: "0 \<le> sint (ucast b :: uint)" using lt u sint_unat32(1) [of "ucast b"] by simp
  show "sint (ucast b :: uint) < 256" unfolding sint_unat32(2) [OF nn] u using lt' by linarith
  show "ucast (ucast b :: uint) = b" by (rule bit_word_eqI) (auto simp: bit_simps dest: bit_imp_le_length)
qed

lemma parse_dotted:
  assumes "xs \<noteq> []" and "length xs \<le> k"
  shows "parse_parts k (dotted xs) s = Ret (Some xs) s"
  using assms
proof (induction xs arbitrary: k rule: dotted.induct)
  case (2 b)
  then obtain k' where k: "k = Suc k'" by (cases k) auto
  have "parse_parts k' [] s = Ret (Some []) s" by (cases k') (simp_all add: ret_def)
  then show ?case
    using strtoul_dec [of "[]" b] dec_chars(2) [of b] byte_int [of b]
    by (simp add: k bnd_def whenp_def ret_def)
next
  case (3 b b' bs)
  then obtain k' where k: "k = Suc k'" "parse_parts k' (dotted (b' # bs)) s = Ret (Some (b' # bs)) s"
    by (cases k) auto
  then show ?case
    using strtoul_dec [of "CHR ''.'' # dotted (b' # bs)" b] byte_int [of b]
    by (simp add: bnd_def whenp_def ret_def)
qed simp

text \<open>
  The classful reading of an address: a network part of one byte (class A) or two (class B), the
  rest the number of the host, filled up with zeros on its left.
\<close>

definition classful :: "uchar list \<Rightarrow> uchar list \<Rightarrow> uchar list option" where
  "classful old xs =
     (let n = (if hd xs < 128 then 1 else if hd xs < 192 then 2 else 4)
      in if n = 4 then Some (xs @ drop (length xs) old)
         else if length xs \<le> n then None
         else Some (take n xs @ replicate (4 - length xs) 0 @ drop n xs))"

lemma addr_class_val: "addr_class b = 0 \<or> addr_class b = 1 \<longleftrightarrow> b < 128" "addr_class b = 2 \<longleftrightarrow> \<not> b < 128 \<and> b < 192"
proof -
  have "unat (addr_class b) = unat b div 64" by (simp add: addr_class_def drop_bit_eq_div unat_div)
  moreover have "addr_class b = c \<longleftrightarrow> unat (addr_class b) = unat c" for c by (simp add: word_unat_eq_iff)
  ultimately show "addr_class b = 0 \<or> addr_class b = 1 \<longleftrightarrow> b < 128" "addr_class b = 2 \<longleftrightarrow> \<not> b < 128 \<and> b < 192"
    by (auto simp: word_less_nat_alt)
qed

lemma fill_classful:
  assumes "xs \<noteq> []" and "length xs \<le> 4" and "length old = 4"
  shows "fill_addr (length xs) (xs @ drop (length xs) old) = classful old xs"
proof -
  consider a where "xs = [a]" | a b where "xs = [a, b]" | a b c where "xs = [a, b, c]"
    | a b c d where "xs = [a, b, c, d]"
    using assms(1,2) by (cases xs; cases "tl xs"; cases "tl (tl xs)"; cases "tl (tl (tl xs))") auto
  then show ?thesis
    using addr_class_val [of "hd xs"]
    assms(3) by cases (auto simp: fill_addr_def classful_def Let_def numeral_2_eq_2)
qed

text \<open>
  C18: an address in dotted decimal notation, of one to four parts, is read as the classful notation
  says: the bytes of the network part come first, those of the host last, with zeros in between,
  and an address that names no host is refused. From class C on missing parts are not filled in:
  the bytes are those of an uninitialised variable.
\<close>

theorem parseip_classful:
  assumes "xs \<noteq> []" and "length xs \<le> 4"
  shows "parseip (dotted xs) s =
    Ret (map_option of_bytes (classful (bytes_of (frame_junk s 0)) xs)) s"
  using parse_dotted [OF assms, of s] fill_classful [OF assms, of "bytes_of (frame_junk s 0)"]
  by (simp add: parseip_def bnd_def get_def ret_def)

theorem parseip_classful_witness:
  "parseip ''10.1'' (fd_demo RunQueue [] 0) = Ret (Some (of_bytes [10, 0, 0, 1])) (fd_demo RunQueue [] 0) \<and>
   parseip ''172.16.1'' (fd_demo RunQueue [] 0) = Ret (Some (of_bytes [172, 16, 0, 1])) (fd_demo RunQueue [] 0) \<and>
   parseip ''172.16'' (fd_demo RunQueue [] 0) = Ret None (fd_demo RunQueue [] 0)"
proof -
  have two: "replicate 2 (0 :: uchar) = [0, 0]" by (simp add: numeral_2_eq_2)
  have "dotted [10, 1] = ''10.1''" "dotted [172, 16, 1] = ''172.16.1''" "dotted [172, 16] = ''172.16''"
    by code_simp+
  then show ?thesis
    using parseip_classful [of "[10, 1]" "fd_demo RunQueue [] 0"] parseip_classful [of "[172, 16, 1]" "fd_demo RunQueue [] 0"]
      parseip_classful [of "[172, 16]" "fd_demo RunQueue [] 0"]
    by (simp add: classful_def two)
qed

section \<open>The name of a peer\<close>

lemma print_byte:
  assumes "\<not> neg_init e" and "length out + 3 < cap"
  shows "vse_loop e cap (''%d'' @ p) (V32 (ucast b) # as) out = vse_loop e cap p as (out @ dec (b :: uchar))"
proof -
  have v: "(scast (ucast b :: uint) :: uvlong) = ucast b"
    by (rule bit_word_eqI) (auto simp: bit_simps min_def dest: bit_imp_le_length split: if_splits)
  have lt: "unat b < 256" using unsigned_less [of b] by simp
  then have "unat b < 2 ^ 64" by simp
  then have u: "unat (ucast b :: uvlong) = unat b" by (simp add: unsigned_ucast_eq take_bit_nat_eq_self)
  have nn: "\<not> sint (ucast b :: uvlong) < 0"
    using bit_last_iff [of "ucast b :: uvlong"] by (auto simp: bit_simps dest: bit_imp_le_length)
  have "(ucast b :: uvlong) = 0 \<longleftrightarrow> b = 0" by (metis u unat_eq_zero)
  with u have "fmtnum False 10 False (scast (ucast b :: uint)) = dec b"
    using nn by (simp add: fmtnum_def v dec_def Let_def digs_Nil)
  moreover have "printstr cap out (dec b) 0 = out @ dec b"
    using printstr_pads [of out cap 0 _ "dec b"] dec_chars(3) [of b] assms(2) by simp
  ultimately show ?thesis
    using assms by (auto simp: verb_def no_flags_def va_num_def)
qed

lemma print_dot: "length out + 1 < cap \<Longrightarrow> vse_loop e cap (CHR ''.'' # p) as out = vse_loop e cap p as (out @ ''.'')"
  by auto

lemma print_quad:
  assumes "\<not> neg_init e"
  shows "snprint e 16 ''%d.%d.%d.%d'' (quad_args ip) = Inr (dotted (bytes_of ip))"
proof -
  obtain a b c d where ip: "bytes_of ip = [a, b, c, d]" by (simp add: bytes_of_def upt_rec)
  have l: "length (dec x) \<le> 3" for x by (rule dec_chars)
  let ?V = "\<lambda>x :: uchar. V32 (ucast x)"
  note B = print_byte [OF assms, of _ 16] and D = print_dot [of _ 16 e]
  let ?o1 = "dec a @ ''.''" and ?o2 = "(dec a @ ''.'') @ dec b"
  have "vse_loop e 16 (''%d'' @ ''.%d.%d.%d'') [?V a, ?V b, ?V c, ?V d] [] =
      vse_loop e 16 (CHR ''.'' # ''%d.%d.%d'') [?V b, ?V c, ?V d] ([] @ dec a)"
    by (rule B) simp
  also have "\<dots> = vse_loop e 16 (''%d'' @ ''.%d.%d'') [?V b, ?V c, ?V d] ?o1"
    using D [of "dec a"] l [of a] by simp
  also have "\<dots> = vse_loop e 16 (CHR ''.'' # ''%d.%d'') [?V c, ?V d] ?o2"
    by (rule B) (use l [of a] in simp)
  also have "\<dots> = vse_loop e 16 (''%d'' @ ''.%d'') [?V c, ?V d] (?o2 @ ''.'')"
    using D [of ?o2] l [of a] l [of b] by simp
  also have "\<dots> = vse_loop e 16 (CHR ''.'' # ''%d'') [?V d] ((?o2 @ ''.'') @ dec c)"
    by (rule B) (use l [of a] l [of b] in simp)
  also have "\<dots> = vse_loop e 16 (''%d'' @ []) [?V d] (((?o2 @ ''.'') @ dec c) @ ''.'')"
    using D [of "(?o2 @ ''.'') @ dec c"] l [of a] l [of b] l [of c] by simp
  also have "\<dots> = vse_loop e 16 [] [] ((((?o2 @ ''.'') @ dec c) @ ''.'') @ dec d)"
    by (rule B) (use l [of a] l [of b] l [of c] in simp)
  also have "\<dots> = Inr (dotted (bytes_of ip))" by (simp add: ip)
  finally show ?thesis
    using l [of a] l [of b] l [of c] l [of d]
    by (simp add: snprint_def vsnprint_def vseprint_def ip quad_args_def del: vse_loop.simps)
qed

text \<open>The text in a buffer: up to its NUL.\<close>

definition cstring :: "uchar list \<Rightarrow> string" where
  "cstring bs = map (\<lambda>b. char_of (unat b)) (takeWhile (\<lambda>b. b \<noteq> 0) bs)"

lemma dotted_subset: "(\<And>b. set (dec b) \<subseteq> D) \<Longrightarrow> set (dotted xs) \<subseteq> insert (CHR ''.'') D"
  by (induction xs rule: dotted.induct) auto

lemmas dotted_chars = dotted_subset [OF dec_chars(1)]

lemma cstring_text:
  assumes "set str \<subseteq> insert (CHR ''.'') (set ''0123456789'')"
  shows "cstring ((map of_char str @ [0]) @ zs) = str"
proof -
  have nz: "\<forall>c \<in> insert (CHR ''.'') (set ''0123456789''). (of_char c :: nat) \<noteq> 0" by simp
  have u: "unat (of_char c :: uchar) = of_char c" for c
  proof -
    have "unat (of_nat (of_char c) :: uchar) = of_char c" by (simp add: unat_of_nat)
    then show ?thesis by (simp only: of_nat_of_char)
  qed
  have c: "(of_char c :: uchar) \<noteq> 0 \<and> char_of (unat (of_char c :: uchar)) = c" if "c \<in> set str" for c
  proof -
    have "(of_char c :: nat) \<noteq> 0" by (rule nz [rule_format, OF subsetD [OF assms that]])
    then show ?thesis using u [of c] by (metis char_of_char unat_eq_zero)
  qed
  have "takeWhile (\<lambda>b. b \<noteq> 0) ((map of_char str @ [0]) @ zs) = map (of_char :: char \<Rightarrow> uchar) str"
    using c by (subst append_assoc, subst takeWhile_append2) auto
  moreover have "map ((\<lambda>b. char_of (unat b)) \<circ> (of_char :: char \<Rightarrow> uchar)) str = str"
    by (rule map_idI) (use c in simp)
  ultimately show ?thesis by (simp only: cstring_def map_map)
qed

text \<open>
  C17: the name of a peer that \<open>netaccept\<close> writes into the caller's buffer, read back by \<open>netlookup\<close>,
  is the address of the peer, for every address. At most the 16 bytes of the buffer are written.
\<close>

theorem peer_name_reads_back:
  assumes "\<not> neg_init (prt s)" and "umem s p = Some bs" and "16 \<le> length bs"
  shows "runs (write_name (Some p) ip) s (\<lambda>_ s'. \<exists>bs'. umem s' p = Some bs' \<and>
    length bs' = length bs \<and> drop 16 bs' = drop 16 bs \<and>
    netlookup (Some (cstring bs')) s' = Ret (Some ip) s')"
proof -
  let ?n = "dotted (bytes_of ip)"
  obtain a b c d where ip: "bytes_of ip = [a, b, c, d]" by (simp add: bytes_of_def upt_rec)
  have len: "length ?n < 16"
    using dec_chars(3) [of a] dec_chars(3) [of b] dec_chars(3) [of c] dec_chars(3) [of d] by (simp add: ip)
  have skip: "16 - length ?n = Suc (15 - length ?n)" using len by simp
  have "cstring (overwrite 0 (map of_char ?n @ [0]) bs) = ?n"
    using cstring_text [OF dotted_chars] by (simp add: overwrite_def)
  moreover have "classful (bytes_of w) [a, b, c, d] = Some [a, b, c, d]" for w
    by (simp add: classful_def bytes_of_def)
  then have "netlookup (Some ?n) s' = Ret (Some ip) s'" for s' :: "'a sys_scheme"
    using parseip_classful [of "bytes_of ip" s'] of_bytes_of [of ip]
    by (simp add: ip netlookup_def bnd_def ret_def)
  ultimately show ?thesis
    using assms(2,3) len
    by (simp add: write_name_def runs_bnd print_quad [OF assms(1)] ref_def length_overwrite)
      (simp add: overwrite_def skip)
qed

theorem peer_name_reads_back_witness:
  "\<exists>s' bs. write_name (Some (Object 0)) (of_bytes [10, 0, 0, 255])
      (fd_demo RunQueue [] 0\<lparr>umem := [Object 0 \<mapsto> replicate 16 7]\<rparr>) = Ret () s' \<and>
    umem s' (Object 0) = Some bs \<and> netlookup (Some (cstring bs)) s' = Ret (Some (of_bytes [10, 0, 0, 255])) s'"
proof -
  let ?s = "fd_demo RunQueue [] 0\<lparr>umem := [Object 0 \<mapsto> replicate 16 7]\<rparr>"
  have "\<not> neg_init (prt ?s)" by (simp add: fd_demo_def demo_def)
  from peer_name_reads_back [OF this, of "Object 0" "replicate 16 7" "of_bytes [10, 0, 0, 255]"]
  show ?thesis by (auto simp: runs_def)
qed

section \<open>Descriptors\<close>

text \<open>The descriptors of sockets that were opened and not closed, after the calls of a trace.\<close>

definition after_call :: "call \<Rightarrow> cint \<Rightarrow> cint multiset \<Rightarrow> cint multiset" where
  "after_call c r M =
     (case c of
        Socket _ _ _ \<Rightarrow> if sint r < 0 then M else add_mset r M
      | Close fd \<Rightarrow> M - {#fd#}
      | _ \<Rightarrow> M)"

definition after_event :: "event \<Rightarrow> cint multiset \<Rightarrow> cint multiset" where
  "after_event e M =
     (case e of
        ECall c r \<Rightarrow> after_call c (case r of Inl _ \<Rightarrow> - 1 | Inr v \<Rightarrow> v) M
      | EAccept _ (Inr (fd, _)) \<Rightarrow> if sint fd < 0 then M else add_mset fd M
      | _ \<Rightarrow> M)"

definition sockets :: "event list \<Rightarrow> cint multiset" where
  "sockets es = foldr after_event es {#}"

text \<open>The running task is \<open>t\<close>, and the open sockets are \<open>M\<close>.\<close>

definition holds :: "tptr \<Rightarrow> cint multiset \<Rightarrow> 'z sys_scheme \<Rightarrow> bool" where
  "holds t M s \<longleftrightarrow> taskrunning s = Some t \<and> t \<in> dom (tasks s) \<and> sockets (trace s) = M"

named_theorems holding \<open>what the steps of net.c do to the open sockets\<close>

lemma holds_bnd:
  "runs m s (\<lambda>_. holds t M) \<Longrightarrow> (\<And>a s'. holds t M s' \<Longrightarrow> runs (f a) s' Q) \<Longrightarrow> runs (bnd m f) s Q"
  by (rule runs_bndI) (rule runs_mono)

lemma holds_ret [holding]: "holds t M s \<Longrightarrow> runs (ret a) s (\<lambda>_. holds t M)"
  and holds_get [holding]: "holds t M s \<Longrightarrow> runs (get g) s (\<lambda>_. holds t M)"
  by simp_all

lemma holds_only: "runs m s (\<lambda>_ s'. only_sys s s' \<and> sockets (trace s') = N) \<Longrightarrow> holds t M s \<Longrightarrow>
  runs m s (\<lambda>_. holds t N)"
  by (auto simp: holds_def only_sys_def elim!: runs_mono)

lemma holds_text [holding]:
  assumes "CHR ''%'' \<notin> set txt" and "holds t M s"
  shows "runs (taskstate txt []) s (\<lambda>_. holds t M)"
proof -
  obtain x where "tasks s t = Some x" "taskrunning s = Some t" using assms(2) by (auto simp: holds_def)
  then show ?thesis
    using assms by (simp add: taskstate_def vsnprintp_def vsnprint_def vseprint_literal runs_bnd)
      (simp add: holds_def dom_def)
qed

lemma sockets_Cons: "sockets (e # es) = after_event e (sockets es)"
  by (simp add: sockets_def)

lemma holds_call:
  assumes "holds t M s"
  shows "runs (sys_call c) s (\<lambda>r. holds t (after_call c r M))"
  using assms
  by (auto simp: sys_call_def runs_bnd holds_def sockets_Cons after_event_def split: sum.split)

lemma holds_quiet_call [holding]:
  assumes "after_call c = (\<lambda>_ M. M)" and "holds t M s"
  shows "runs (sys_call c) s (\<lambda>_. holds t M)"
  using holds_call [OF assms(2), of c] by (simp add: assms(1))

lemma quiet_calls [simp]:
  "after_call (Getfl fd) = (\<lambda>_ M. M)" "after_call (Setfl fd v) = (\<lambda>_ M. M)"
  "after_call (Setsockopt fd a b d) = (\<lambda>_ M. M)" "after_call (Bind fd sa) = (\<lambda>_ M. M)"
  "after_call (Listen fd v) = (\<lambda>_ M. M)" "after_call (Connect fd sa) = (\<lambda>_ M. M)"
  "after_call (Getpeername fd) = (\<lambda>_ M. M)"
  by (simp_all add: after_call_def fun_eq_iff)

lemma holds_getsockopt [holding]: "holds t M s \<Longrightarrow> runs (sys_getsockopt fd l o' sn) s (\<lambda>_. holds t M)"
  and holds_host [holding]: "holds t M s \<Longrightarrow> runs (gethostbyname name) s (\<lambda>_. holds t M)"
  by (auto simp: sys_getsockopt_def gethostbyname_def runs_bnd holds_def sockets_Cons after_event_def
      split: sum.split)

lemma holds_parse_parts:
  fixes s :: "'z sys_scheme"
  shows "holds t M s \<Longrightarrow> runs (parse_parts k p) s (\<lambda>_. holds t M)"
proof (induction k arbitrary: p s)
  case (Suc k)
  obtain x q big where x: "strtoul p = (x, q, big)" by (cases "strtoul p") auto
  let ?then = "if sint x < 0 \<or> 256 \<le> sint x then ret None
      else if q \<noteq> [] \<and> hd q \<noteq> CHR ''.'' then ret None
      else bnd (parse_parts k (if q \<noteq> [] then tl q else q)) (\<lambda>r. ret (map_option ((#) (ucast x)) r))"
  have "runs ?then s1 (\<lambda>_. holds t M)" if "holds t M s1" for s1 :: "'z sys_scheme"
    using that by (auto intro!: holds_bnd [OF Suc.IH])
  moreover have "runs (whenp big (upd (\<lambda>s. s\<lparr>errno := 34\<rparr>))) s (\<lambda>_. holds t M)"
    using Suc.prems by (simp add: holds_def)
  ultimately have "runs (bnd (whenp big (upd (\<lambda>s. s\<lparr>errno := 34\<rparr>))) (\<lambda>_. ?then)) s (\<lambda>_. holds t M)"
    by (rule holds_bnd [rotated])
  then show ?case using Suc.prems by (simp add: x)
qed simp

lemma holds_parseip [holding]: "holds t M s \<Longrightarrow> runs (parseip name) s (\<lambda>_. holds t M)"
  unfolding parseip_def
  by (rule holds_bnd [OF holds_parse_parts]) (auto intro!: holds_bnd [OF holds_get] split: option.split)

lemma holds_option:
  "(r = None \<Longrightarrow> runs m s P) \<Longrightarrow> (\<And>a. r = Some a \<Longrightarrow> runs (f a) s P) \<Longrightarrow>
   runs (case r of None \<Rightarrow> m | Some a \<Rightarrow> f a) s P"
  by (cases r) auto

lemma holds_netlookup [holding]:
  assumes "holds t M s"
  shows "runs (netlookup (Some name)) s (\<lambda>_. holds t M)"
  unfolding netlookup_def option.case
  by (rule holds_bnd holds_ret assms holding holds_option | assumption | simp)+

lemma holds_fail_with: "CHR ''%'' \<notin> set txt \<Longrightarrow> holds t M s \<Longrightarrow> runs (fail_with txt) s (\<lambda>r s'. r = - 1 \<and> holds t M s')"
  unfolding fail_with_def by (rule holds_bnd [OF holds_text]) simp_all

lemma holds_fdnoblock [holding]: "holds t M s \<Longrightarrow> runs (fdnoblock fd) s (\<lambda>_. holds t M)"
  unfolding fdnoblock_def by (rule holds_bnd holding | assumption | simp)+

lemma holds_whenp [holding]:
  "holds t M s \<Longrightarrow> (b \<Longrightarrow> runs m s (\<lambda>_. holds t M)) \<Longrightarrow> runs (whenp b m) s (\<lambda>_. holds t M)"
  by simp

lemma holds_set_reuse [holding]: "holds t M s \<Longrightarrow> runs (set_reuse fd) s (\<lambda>_. holds t M)"
  unfolding set_reuse_def by (rule holds_bnd holding | assumption | simp)+

lemma holds_socket:
  assumes "holds t M s" and "\<And>fd s'. sint fd < 0 \<Longrightarrow> holds t M s' \<Longrightarrow> runs (f fd) s' Q"
    and "\<And>fd s'. 0 \<le> sint fd \<Longrightarrow> holds t (add_mset fd M) s' \<Longrightarrow> runs (f fd) s' Q"
  shows "runs (bnd (sys_call (Socket a b c)) f) s Q"
  using assms
  by (intro runs_bndI, intro runs_mono [OF holds_call [OF assms(1)]]) (auto simp: after_call_def not_less split: if_splits)

lemma holds_close:
  assumes "holds t M s" and "\<And>r s'. holds t (M - {#fd#}) s' \<Longrightarrow> runs (f r) s' Q"
  shows "runs (bnd (sys_call (Close fd)) f) s Q"
  using assms
  by (intro runs_bndI, intro runs_mono [OF holds_call [OF assms(1)]]) (simp add: after_call_def)

lemma holds_if:
  "(b \<Longrightarrow> runs m s Q) \<Longrightarrow> (\<not> b \<Longrightarrow> runs m' s Q) \<Longrightarrow> runs (if b then m else m') s Q"
  by simp

text \<open>
  C16: \<open>netannounce\<close> always returns in the same turn, and loses no descriptor: where it returns -1
  every socket it opened is closed again, otherwise the descriptor it returns is the only new one.
\<close>

theorem netannounce_descriptors:
  assumes "taskrunning s = Some t" and "t \<in> dom (tasks s)"
  shows "runs (netannounce istcp server port) s (\<lambda>r s'.
    sockets (trace s') = (if sint r < 0 then sockets (trace s) else add_mset r (sockets (trace s))) \<and>
    (sint r < 0 \<longrightarrow> r = - 1))"
proof -
  let ?M = "sockets (trace s)"
  let ?Q = "\<lambda>r s'. holds t (if sint r < 0 then ?M else add_mset r ?M) s' \<and> (sint r < 0 \<longrightarrow> r = - 1)"
  have h: "holds t ?M s" using assms by (simp add: holds_def)
  have fail: "runs (fail_with msg) s' ?Q" if "CHR ''%'' \<notin> set msg" "holds t ?M s'" for msg s'
    by (rule runs_mono [OF holds_fail_with [OF that]]) auto
  have addr: "runs (if server \<noteq> None \<and> server \<noteq> Some ''*'' then netlookup server else ret (Some 0)) s'
      (\<lambda>_. holds t ?M)" if "holds t ?M s'" for s' :: "'a sys_scheme"
    using that holds_netlookup [OF that] by (cases server) auto
  have "runs (netannounce istcp server port) s ?Q"
    unfolding netannounce_def Let_def
    by (rule h addr holds_if holds_socket holds_close holds_option fail holds_bnd holding | assumption | simp)+
  then show ?thesis by (rule runs_mono) (auto simp: holds_def)
qed

theorem netannounce_descriptors_witness:
  "\<exists>r s'. netannounce 1 (Some ''*'') 80 (fd_demo RunQueue [] 0) = Ret r s' \<and>
     sockets (trace s') = (if sint r < 0 then {#} else {#r#})"
proof -
  have "runs (netannounce 1 (Some ''*'') 80) (fd_demo RunQueue [] 0) (\<lambda>r s'.
      sockets (trace s') = (if sint r < 0 then sockets [] else add_mset r (sockets [])) \<and> (sint r < 0 \<longrightarrow> r = - 1))"
    using netannounce_descriptors [of "fd_demo RunQueue [] 0" 0 1 "Some ''*''" 80] fd_demo_tasks(1) [of RunQueue "[]" 0]
    by (simp cong: if_cong)
  then show ?thesis by (auto simp: runs_def sockets_def [of "[]"])
qed

text \<open>The same steps in code that gives up the CPU later.\<close>

lemma turn_holds:
  "runs m s (\<lambda>_. holds t M) \<Longrightarrow> (\<And>a s'. holds t M s' \<Longrightarrow> turn (f a) s' Q W) \<Longrightarrow> turn (bnd m f) s Q W"
  by (rule turn_bndI, rule turn_runs) (rule runs_mono)

lemma turn_socket:
  assumes "holds t M s" and "\<And>fd s'. sint fd < 0 \<Longrightarrow> holds t M s' \<Longrightarrow> turn (f fd) s' Q W"
    and "\<And>fd s'. 0 \<le> sint fd \<Longrightarrow> holds t (add_mset fd M) s' \<Longrightarrow> turn (f fd) s' Q W"
  shows "turn (bnd (sys_call (Socket a b c)) f) s Q W"
  by (rule turn_bndI, rule turn_runs, rule runs_mono [OF holds_call [OF assms(1)]])
    (use assms(2,3) in \<open>auto simp: after_call_def not_less split: if_splits\<close>)

lemma turn_cases:
  "(b \<Longrightarrow> turn m s Q W) \<Longrightarrow> (\<not> b \<Longrightarrow> turn m' s Q W) \<Longrightarrow> turn (if b then m else m') s Q W"
  "(r = None \<Longrightarrow> turn m s Q W) \<Longrightarrow> (\<And>a. r = Some a \<Longrightarrow> turn (f a) s Q W) \<Longrightarrow>
   turn (case r of None \<Rightarrow> m | Some a \<Rightarrow> f a) s Q W"
  by (auto split: option.split)

text \<open>The rest \<open>k\<close> of a call that holds the socket \<open>fd\<close>: it returns it, or closes it and fails.\<close>

definition dialled :: "cint \<Rightarrow> ('z sys_scheme, cint) prog \<Rightarrow> 'z sys_scheme \<Rightarrow> bool" where
  "dialled fd k s \<longleftrightarrow> runs k s (\<lambda>r s'.
     r = fd \<and> sockets (trace s') = sockets (trace s) \<or>
     r = - 1 \<and> sockets (trace s') = sockets (trace s) - {#fd#} \<and> errno s' \<noteq> 0)"

lemma holds_errno [simp]: "holds t M (s\<lparr>errno := e\<rparr>) = holds t M s"
  by (simp add: holds_def)

lemma dial_end_dialled:
  assumes h: "holds t M s"
  shows "dialled fd (dial_end fd n) s"
proof -
  let ?Q = "\<lambda>r s'. r = fd \<and> holds t M s' \<or> r = - 1 \<and> holds t (M - {#fd#}) s' \<and> errno s' \<noteq> 0"
  have set_errno: "runs (bnd (upd (\<lambda>s. s\<lparr>errno := e\<rparr>)) (\<lambda>_. ret (- 1))) s' ?Q"
    if "holds t (M - {#fd#}) s'" "e \<noteq> 0" for e and s' :: "'a sys_scheme"
    using that by (simp add: runs_bnd)
  have "runs (dial_end fd n) s ?Q"
    unfolding dial_end_def Let_def
    by (rule h holds_if set_errno holds_close holds_bnd holding | assumption | simp)+
  then show ?thesis
    unfolding dialled_def using h by (auto simp: holds_def elim!: runs_mono)
qed

text \<open>
  C15: \<open>netdial\<close> loses no descriptor either, although it waits in between. It gives up the CPU at most
  once, and then it holds exactly one new descriptor. When it goes on, it returns that one, or it
  closes it, returns -1 and leaves the reason in \<open>errno\<close>, which is not 0. Where it returns before it
  waited, every socket it opened is closed again.
\<close>

theorem netdial_descriptors:
  assumes "taskrunning s = Some t" and "t \<in> dom (tasks s)"
  shows "turn (netdial istcp (Some name) port) s
    (\<lambda>r s'. r = - 1 \<and> sockets (trace s') = sockets (trace s))
    (\<lambda>s1 k. \<exists>fd. 0 \<le> sint fd \<and> sockets (trace s1) = add_mset fd (sockets (trace s)) \<and>
       (\<forall>s2. taskrunning s2 = Some t \<longrightarrow> t \<in> dom (tasks s2) \<longrightarrow>
          dialled fd k s2))"
proof -
  let ?M = "sockets (trace s)"
  let ?W = "\<lambda>s1 k. \<exists>fd. 0 \<le> sint fd \<and> sockets (trace s1) = add_mset fd ?M \<and>
       (\<forall>s2. taskrunning s2 = Some t \<longrightarrow> t \<in> dom (tasks s2) \<longrightarrow> dialled fd k s2)"
  have h: "holds t ?M s" using assms by (simp add: holds_def)
  have wait: "turn (bnd (fdwait fd (CHR ''w'')) (\<lambda>_. dial_end fd n)) s' Q ?W"
    if "holds t (add_mset fd ?M) s'" "0 \<le> sint fd" for fd n Q and s' :: "'a fds_scheme"
  proof (rule turn_bndI, rule turn_mono [OF fdwait_turn])
    fix s1 and k :: "('a fds_scheme, unit) prog"
    assume "k = ret () \<and> outside_fd s1 = outside_fd s'"
    then have "bnd k (\<lambda>_. dial_end fd n) = dial_end fd n" "sockets (trace s1) = add_mset fd ?M"
      using that(1) by (simp_all add: outside_fd_def holds_def)
    then show "?W s1 (bnd k (\<lambda>_. dial_end fd n))"
      using that(2) by (intro exI [of _ fd] conjI allI impI) (simp_all add: dial_end_dialled [unfolded holds_def])
  qed simp
  let ?ends = "\<lambda>m s'. turn m s' (\<lambda>r s'. r = - 1 \<and> sockets (trace s') = ?M) ?W"
  have fail: "?ends (fail_with msg) s'" if "CHR ''%'' \<notin> set msg" "holds t ?M s'"
    for msg and s' :: "'a fds_scheme"
    by (rule turn_runs, rule runs_mono [OF holds_fail_with [OF that]]) (simp add: holds_def)
  have give_up: "?ends (ret (- 1)) s'" if "holds t ?M s'" for s' :: "'a fds_scheme"
    using that by (simp add: holds_def)
  have shut: "?ends (bnd (taskstate ''connect failed'' []) (\<lambda>_. bnd (sys_call (Close fd)) (\<lambda>_. ret (- 1)))) s'"
    if "holds t (add_mset fd ?M) s'" for fd and s' :: "'a fds_scheme"
  proof (rule turn_runs)
    have "runs (bnd (taskstate ''connect failed'' []) (\<lambda>_. bnd (sys_call (Close fd)) (\<lambda>_. ret (- 1)))) s'
        (\<lambda>r s'. r = - 1 \<and> holds t ?M s')"
      by (rule that holds_close holds_bnd holding | assumption | simp)+
    then show "runs (bnd (taskstate ''connect failed'' []) (\<lambda>_. bnd (sys_call (Close fd)) (\<lambda>_. ret (- 1)))) s'
        (\<lambda>r s'. r = - 1 \<and> sockets (trace s') = ?M)"
      by (rule runs_mono) (simp add: holds_def)
  qed
  show ?thesis
    unfolding netdial_def
    by (rule h give_up fail shut wait turn_cases turn_socket turn_holds holds_bnd holding | assumption | simp)+
qed

theorem netdial_descriptors_witness:
  "turn (netdial 1 (Some ''10.0.0.1'') 80) (fd_demo RunQueue [] 0)
    (\<lambda>r s'. r = - 1 \<and> sockets (trace s') = {#})
    (\<lambda>s1 k. \<exists>fd. 0 \<le> sint fd \<and> sockets (trace s1) = {#fd#} \<and>
       (\<forall>s2. taskrunning s2 = Some 0 \<longrightarrow> 0 \<in> dom (tasks s2) \<longrightarrow> dialled fd k s2))"
  using netdial_descriptors [of "fd_demo RunQueue [] 0" 0 1 "''10.0.0.1''" 80] fd_demo_tasks(1) [of RunQueue "[]" 0]
  by (simp add: sockets_def [of "[]"])

end
