(* ===== verification/Stream.thy ===== *)
theory Stream
  imports Fdprops Turns
begin

text \<open>
  \<open>fdwrite\<close> across its waits: what goes out on the descriptor is the contents of the buffer, in
  order and without gaps.
\<close>

section \<open>Progress of a write\<close>

text \<open>
  The first \<open>k\<close> bytes of the object \<open>p\<close> were sent after what was sent before. \<open>f\<close> is something
  else that the writer watches, and its value.
\<close>

definition sends :: "(event list \<Rightarrow> 'v) \<Rightarrow> 'v \<Rightarrow> cint \<Rightarrow> obj \<Rightarrow> uchar list \<Rightarrow> kern \<Rightarrow> uchar list \<Rightarrow> nat \<Rightarrow> 'z sys_scheme \<Rightarrow> bool" where
  "sends f v fd p bs K old k s \<longleftrightarrow>
     umem s p = Some bs \<and> kernel s = K \<and> sent fd (trace s) = old @ take k bs \<and> f (trace s) = v"

text \<open>Some write to the descriptor may fail because it would block.\<close>

definition may_block :: "kern \<Rightarrow> cint \<Rightarrow> bool" where
  "may_block K fd \<longleftrightarrow> (\<exists>h bs. k_write K h fd bs = Inl EAGAIN)"

text \<open>Some write may fail for another reason, or take nothing of what it was given.\<close>

definition lossy :: "kern \<Rightarrow> cint \<Rightarrow> bool" where
  "lossy K fd \<longleftrightarrow>
     (\<exists>h bs e. k_write K h fd bs = Inl e \<and> e \<noteq> EAGAIN) \<or> (\<exists>h bs. bs \<noteq> [] \<and> k_write K h fd bs = Inr 0)"

lemma safe_runs:
  assumes "runs m s P" and "\<And>a s'. P a s' \<Longrightarrow> safe R G E Q (f a s') s0"
  shows "safe R G E Q (bnd m f s) s0"
  using assms by (auto simp: runs_def)

lemma safe_fdwait:
  assumes "\<And>s1. outside_fd s1 = outside_fd s \<Longrightarrow> G s0 s1" and "\<And>e. E e"
    and "\<And>s1 s'. outside_fd s1 = outside_fd s \<Longrightarrow> R s1 s' \<Longrightarrow> safe R G E Q (f () s') s'"
  shows "safe R G E Q (bnd (fdwait fd dir) f s) s0"
  using fdwait_turn [of fd dir s] assms
  by (cases "fdwait fd dir s") (auto simp: turn_def bnd_def ret_def)

lemma sys_write_sends:
  assumes s: "sends f v fd p bs K old k s" and K: "kern_ok K" and n: "k + unat n \<le> length bs" "unat n < 2 ^ 31"
    and f: "\<And>r es. f (EWrite fd r # es) = f es"
  shows "runs (sys_write fd (Some p) k n) s (\<lambda>m s'.
    (\<exists>j \<le> unat n. m = of_nat j \<and> sends f v fd p bs K old (k + j) s' \<and> (j = 0 \<longrightarrow> unat n = 0 \<or> lossy K fd)) \<or>
    m = - 1 \<and> sends f v fd p bs K old k s' \<and> (if errno s' = EAGAIN then may_block K fd else lossy K fd))"
proof -
  have u: "umem s p = Some bs" "kernel s = K" "sent fd (trace s) = old @ take k bs" "f (trace s) = v"
    using s by (simp_all add: sends_def)
  let ?d = "drop k (take (k + unat n) bs)"
  have d: "?d = take (unat n) (drop k bs)" by (simp add: drop_take)
  show ?thesis
  proof (cases "k_write K (trace s) fd ?d")
    case (Inl e)
    then show ?thesis
      using u n f by (auto simp: sys_write_def write_bytes_def runs_bnd ref_def failed_def sends_def may_block_def lossy_def)
  next
    case (Inr j)
    have "length ?d = unat n" using n by simp
    then have j: "j \<le> unat n" using K Inr unfolding kern_ok_def by metis
    have l: "j = 0 \<longrightarrow> unat n = 0 \<or> lossy K fd"
      using Inr \<open>length ?d = unat n\<close> unfolding lossy_def by (metis list.size(3))
    have "take j ?d = take j (drop k bs)" using j by (simp add: d)
    then show ?thesis
      using u n f Inr j l by (auto simp: sys_write_def write_bytes_def runs_bnd ref_def sends_def take_add)
  qed
qed

text \<open>What the others must leave alone while \<open>fdwrite\<close> waits.\<close>

definition stream_rely :: "cint \<Rightarrow> obj \<Rightarrow> 'z sys_scheme \<Rightarrow> 'z sys_scheme \<Rightarrow> bool" where
  "stream_rely fd p s s' \<longleftrightarrow>
     umem s' p = umem s p \<and> kernel s' = kernel s \<and> sent fd (trace s') = sent fd (trace s)"

definition watch_rely :: "(event list \<Rightarrow> 'v) \<Rightarrow> cint \<Rightarrow> obj \<Rightarrow> 'z sys_scheme \<Rightarrow> 'z sys_scheme \<Rightarrow> bool" where
  "watch_rely f fd p s s' \<longleftrightarrow> stream_rely fd p s s' \<and> f (trace s') = f (trace s)"

lemma watch_nothing: "watch_rely (\<lambda>_. ()) = stream_rely"
  by (auto simp: watch_rely_def fun_eq_iff)

lemma sends_rely: "sends f v fd p bs K old k s \<Longrightarrow> watch_rely f fd p s s' \<Longrightarrow> sends f v fd p bs K old k s'"
  by (simp add: sends_def stream_rely_def watch_rely_def)

lemma sends_outside: "sends f v fd p bs K old k s \<Longrightarrow> outside_fd s' = outside_fd s \<Longrightarrow> sends f v fd p bs K old k s'"
  by (simp add: sends_def outside_fd_def)

lemma of_nat_int: "j < 2 ^ 31 \<Longrightarrow> 0 \<le> sint (of_nat j :: cint) \<and> unat (of_nat j :: cint) = j"
proof -
  assume j: "j < 2 ^ 31"
  then have "unat (of_nat j :: cint) = j" by (simp add: unat_of_nat)
  then show ?thesis using j sint_unat32(1) [of "of_nat j"] by simp
qed

lemma write_some_sends:
  fixes s s0 :: "'z fds_scheme"
  assumes K: "kern_ok K" and f: "\<And>r es. f (EWrite fd r # es) = f es" and n: "unat tot + unat (n - tot) = unat n" "unat n \<le> length bs" "unat (n - tot) < 2 ^ 31"
    and s: "sends f v fd p bs K old (unat tot) s"
    and E: "\<And>e. may_block K fd \<Longrightarrow> E e" and fuel: "w = 0 \<Longrightarrow> E NoFuel"
    and G: "\<And>s0 s1 k. may_block K fd \<Longrightarrow> k \<le> unat n \<Longrightarrow> sends f v fd p bs K old k s1 \<Longrightarrow> G s0 s1"
  shows "safe (watch_rely f fd p) G E
    (\<lambda>_ m s'. (\<exists>j \<le> unat (n - tot). m = of_nat j \<and> sends f v fd p bs K old (unat tot + j) s' \<and> (j = 0 \<longrightarrow> unat (n - tot) = 0 \<or> lossy K fd)) \<or>
       m = - 1 \<and> sends f v fd p bs K old (unat tot) s' \<and> errno s' \<noteq> EAGAIN \<and> lossy K fd)
    (write_some w fd (Some p) tot n s) s0"
  using s fuel
proof (induction w arbitrary: s s0)
  case 0
  then show ?case by (simp add: halt_def)
next
  case (Suc w s s0)
  let ?Q = "\<lambda>m s'. (\<exists>j \<le> unat (n - tot). m = of_nat j \<and> sends f v fd p bs K old (unat tot + j) s' \<and> (j = 0 \<longrightarrow> unat (n - tot) = 0 \<or> lossy K fd)) \<or>
       m = - 1 \<and> sends f v fd p bs K old (unat tot) s' \<and> errno s' \<noteq> EAGAIN \<and> lossy K fd"
  let ?next = "\<lambda>m :: cint. bnd (again m) (\<lambda>b. if b then bnd (fdwait fd (CHR ''w'')) (\<lambda>_. write_some w fd (Some p) tot n)
    else ret m) :: ('z fds_scheme, cint) prog"
  have first: "runs (sys_write fd (Some p) (unat tot) (n - tot)) s (\<lambda>m s'.
    (\<exists>j \<le> unat (n - tot). m = of_nat j \<and> sends f v fd p bs K old (unat tot + j) s' \<and> (j = 0 \<longrightarrow> unat (n - tot) = 0 \<or> lossy K fd)) \<or>
    m = - 1 \<and> sends f v fd p bs K old (unat tot) s' \<and> (if errno s' = EAGAIN then may_block K fd else lossy K fd))"
    by (rule sys_write_sends [OF Suc.prems(1) K]) (use n f in simp_all)
  show ?case
    unfolding write_some.simps
  proof (rule safe_runs [OF first])
    fix m :: cint and s' :: "'z fds_scheme"
    assume "(\<exists>j \<le> unat (n - tot). m = of_nat j \<and> sends f v fd p bs K old (unat tot + j) s' \<and> (j = 0 \<longrightarrow> unat (n - tot) = 0 \<or> lossy K fd)) \<or>
      m = - 1 \<and> sends f v fd p bs K old (unat tot) s' \<and> (if errno s' = EAGAIN then may_block K fd else lossy K fd)"
    then show "safe (watch_rely f fd p) G E (\<lambda>_. ?Q) (?next m s') s0"
    proof (elim disjE exE conjE)
      fix j
      assume j: "j \<le> unat (n - tot)" "m = of_nat j" "sends f v fd p bs K old (unat tot + j) s'"
        "j = 0 \<longrightarrow> unat (n - tot) = 0 \<or> lossy K fd"
      then have "0 \<le> sint m" using of_nat_int [of j] n(3) by simp
      then have "?next m s' = Ret m s'" by (simp add: again_def bnd_def get_def ret_def)
      then show ?thesis using j by auto
    next
      assume m: "m = - 1" "sends f v fd p bs K old (unat tot) s'" and e: "if errno s' = EAGAIN then may_block K fd else lossy K fd"
      show ?thesis
      proof (cases "errno s' = EAGAIN")
        case True
        then have nx: "?next m s' = bnd (fdwait fd (CHR ''w'')) (\<lambda>_. write_some w fd (Some p) tot n) s'"
          using m(1) by (simp add: again_def bnd_def [of "get _"] bnd_def [of "bnd _ _"] get_def ret_def)
        have b: "may_block K fd" using True e by simp
        show ?thesis
          unfolding nx
        proof (rule safe_fdwait)
          show "G s0 s1" if "outside_fd s1 = outside_fd s'" for s1 :: "'z fds_scheme"
            using G [OF b _ sends_outside [OF m(2) that]] n(1) by simp
          show "E e" for e by (rule E [OF b])
          show "safe (watch_rely f fd p) G E (\<lambda>_. ?Q) (write_some w fd (Some p) tot n s2) s2"
            if "outside_fd s1 = outside_fd s'" "watch_rely f fd p s1 s2" for s1 s2 :: "'z fds_scheme"
            by (rule Suc.IH [OF sends_rely [OF sends_outside [OF m(2) that(1)] that(2)]]) (rule E [OF b])
        qed
      next
        case False
        then have "?next m s' = Ret m s'" using m by (simp add: again_def bnd_def get_def ret_def)
        then show ?thesis using m False e by simp
      qed
    qed
  qed
qed

lemma safe_bnd: "safe R G E (\<lambda>s0 a s'. safe R G E Q (f a s') s0) (m s) s0 \<Longrightarrow> safe R G E Q (bnd m f s) s0"
  unfolding bnd_def by (rule safe_bindr)

text \<open>Each round of the outer loop leaves fewer bytes.\<close>

lemma write_all_sends:
  fixes s s0 :: "'z fds_scheme"
  assumes K: "kern_ok K" and f: "\<And>r es. f (EWrite fd r # es) = f es" and n: "0 \<le> sint n" "unat n \<le> length bs"
    and tot: "0 \<le> sint tot" "sint tot \<le> sint n" "unat n - unat tot < r"
    and s: "sends f v fd p bs K old (unat tot) s"
    and E: "\<And>e. may_block K fd \<Longrightarrow> E e" and fuel: "w = 0 \<Longrightarrow> E NoFuel"
    and G: "\<And>s0 s1 k. may_block K fd \<Longrightarrow> k \<le> unat n \<Longrightarrow> sends f v fd p bs K old k s1 \<Longrightarrow> G s0 s1"
  shows "safe (watch_rely f fd p) G E
    (\<lambda>_ m s'. \<exists>k \<le> unat n. sends f v fd p bs K old k s' \<and>
       (0 \<le> sint m \<longrightarrow> unat m = k) \<and> (sint m < 0 \<longrightarrow> m = - 1 \<and> errno s' \<noteq> EAGAIN) \<and>
       (sint m < 0 \<or> k < unat n \<longrightarrow> lossy K fd))
    (write_all r w fd (Some p) tot n s) s0"
  using tot s
proof (induction r arbitrary: tot s s0)
  case 0
  then show ?case by simp
next
  case (Suc r tot s s0)
  let ?Q = "\<lambda>m s'. \<exists>k \<le> unat n. sends f v fd p bs K old k s' \<and>
       (0 \<le> sint m \<longrightarrow> unat m = k) \<and> (sint m < 0 \<longrightarrow> m = - 1 \<and> errno s' \<noteq> EAGAIN) \<and>
       (sint m < 0 \<or> k < unat n \<longrightarrow> lossy K fd)"
  have le: "unat tot \<le> unat n"
    using Suc.prems(1,2) sint_unat32(2) [OF n(1)] sint_unat32(2) [OF Suc.prems(1)] by linarith
  have done_: "?Q tot s'" if "sends f v fd p bs K old (unat tot) s'" "unat tot < unat n \<longrightarrow> lossy K fd"
    for s' :: "'z fds_scheme"
    using that le Suc.prems(1) by auto
  show ?case
  proof (cases "sint tot < sint n")
    case False
    then have "unat tot = unat n"
      using le sint_unat32(2) [OF n(1)] sint_unat32(2) [OF Suc.prems(1)] by linarith
    then show ?thesis using False done_ [OF Suc.prems(4)] by (simp add: ret_def)
  next
    case True
    note w = step_words [OF Suc.prems(1) True]
    have lt: "tot \<noteq> n" using True by blast
    let ?next = "\<lambda>m. if sint m < 0 then ret m else if m = 0 then ret tot
        else write_all r w fd (Some p) (tot + m) n :: ('z fds_scheme, cint) prog"
    have nx: "write_all (Suc r) w fd (Some p) tot n s = bnd (write_some w fd (Some p) tot n) ?next s"
      using True by simp
    have some: "safe (watch_rely f fd p) G E
      (\<lambda>_ m s'. (\<exists>j \<le> unat (n - tot). m = of_nat j \<and> sends f v fd p bs K old (unat tot + j) s' \<and> (j = 0 \<longrightarrow> unat (n - tot) = 0 \<or> lossy K fd)) \<or>
         m = - 1 \<and> sends f v fd p bs K old (unat tot) s' \<and> errno s' \<noteq> EAGAIN \<and> lossy K fd)
      (write_some w fd (Some p) tot n s) s0"
      by (rule write_some_sends [OF K f w(1) n(2) w(2) Suc.prems(4)]) (use E fuel G in blast)+
    show ?thesis
      unfolding nx
    proof (rule safe_bnd, rule safe_mono [OF some])
      fix s0 s' :: "'z fds_scheme" and m :: cint
      assume "(\<exists>j \<le> unat (n - tot). m = of_nat j \<and> sends f v fd p bs K old (unat tot + j) s' \<and> (j = 0 \<longrightarrow> unat (n - tot) = 0 \<or> lossy K fd)) \<or>
         m = - 1 \<and> sends f v fd p bs K old (unat tot) s' \<and> errno s' \<noteq> EAGAIN \<and> lossy K fd"
      then show "safe (watch_rely f fd p) G E (\<lambda>_. ?Q) (?next m s') s0"
      proof (elim disjE exE conjE)
        fix j
        assume j: "j \<le> unat (n - tot)" "m = of_nat j" "sends f v fd p bs K old (unat tot + j) s'"
          and l: "j = 0 \<longrightarrow> unat (n - tot) = 0 \<or> lossy K fd"
        then have m: "0 \<le> sint m" "unat m = j" using of_nat_int [of j] w(2) by simp_all
        note a = word_add_le [OF Suc.prems(1) True m(1), unfolded m(2), OF j(1)]
        show ?thesis
        proof (cases "m = 0")
          case True
          then have "j = 0" using m(2) by simp
          moreover have "unat (n - tot) \<noteq> 0" using lt by (simp only: unat_eq_0) simp
          ultimately show ?thesis using j m l done_ by (simp add: ret_def)
        next
          case False
          then have "0 < j" using m(2) by (simp add: unat_gt_0 [symmetric])
          then have "unat n - unat (tot + m) < r"
            using Suc.prems(3) w(1) j(1) a(1) by linarith
          then have "safe (watch_rely f fd p) G E (\<lambda>_. ?Q) (write_all r w fd (Some p) (tot + m) n s') s0"
            using a j(3) by (intro Suc.IH) simp_all
          then show ?thesis using False m(1) by simp
        qed
      next
        assume m: "m = - 1" "sends f v fd p bs K old (unat tot) s'" "errno s' \<noteq> EAGAIN" "lossy K fd"
        have "?Q m s'" using m le by auto
        then show ?thesis using m(1) by (auto simp: ret_def)
      qed
    qed
  qed
qed

section \<open>The property\<close>

text \<open>
  C13: while nobody else writes to the descriptor or into the buffer, \<open>fdwrite\<close> sends the bytes of the
  buffer in order, each once, across short writes and waits: at every moment it waits, and when it
  returns, what was sent is a prefix of the buffer. Its result is the number of bytes sent, or -1
  where a write failed for another reason than that it would block; it sends all unless a write fails
  so or takes nothing. Only a write that would block makes it wait, and where none does it returns.
\<close>

theorem fdwrite_stream:
  fixes s :: "'z fds_scheme"
  assumes "kern_ok (kernel s)" and "umem s p = Some bs" and "0 \<le> sint n" and "unat n \<le> length bs"
  shows "safe (stream_rely fd p)
    (\<lambda>_ s1. may_block (kernel s) fd \<and>
       (\<exists>k \<le> unat n. sent fd (trace s1) = sent fd (trace s) @ take k bs))
    (\<lambda>_. may_block (kernel s) fd \<or> w = 0)
    (\<lambda>_ m s'. \<exists>k \<le> unat n. sent fd (trace s') = sent fd (trace s) @ take k bs \<and>
       (0 \<le> sint m \<longrightarrow> unat m = k) \<and> (sint m < 0 \<longrightarrow> m = - 1 \<and> errno s' \<noteq> EAGAIN) \<and>
       (sint m < 0 \<or> k < unat n \<longrightarrow> lossy (kernel s) fd))
    (fdwrite w fd (Some p) n s) s"
proof -
  let ?G = "\<lambda>_ s1. may_block (kernel s) fd \<and> (\<exists>k \<le> unat n. sent fd (trace s1) = sent fd (trace s) @ take k bs)"
  have start: "sends (\<lambda>_. ()) () fd p bs (kernel s) (sent fd (trace s)) (unat (0 :: cint)) s"
    using assms(2) by (simp add: sends_def)
  show ?thesis
    unfolding fdwrite_def watch_nothing [symmetric]
    by (rule safe_mono [OF write_all_sends [OF assms(1) _ assms(3,4) _ _ _ start]])
      (use assms(3) in \<open>auto simp: sends_def\<close>)
qed

text \<open>The example kernel takes at most two bytes at a time.\<close>

lemma calm_write:
  assumes "kernel s = calm_kernel" and "umem s p = Some [1, 2, 3]" and "tot + unat n \<le> 3"
  shows "runs (sys_write fd (Some p) tot n) s (\<lambda>m s'. m = of_nat (min 2 (unat n)) \<and>
    kernel s' = calm_kernel \<and> umem s' p = Some [1, 2, 3])"
proof -
  have "length (drop tot (take (tot + unat n) [1, 2, 3 :: uchar])) = unat n" using assms(3) by simp
  then show ?thesis
    using assms by (auto simp: sys_write_def write_bytes_def runs_bnd ref_def calm_kernel_def)
qed

lemma calm_write_all:
  assumes "kernel s = calm_kernel" and "umem s p = Some [1, 2, 3]"
  shows "runs (fdwrite 1 fd (Some p) 3) s (\<lambda>m _. m = 3)"
proof -
  have some: "runs (write_some 1 fd (Some p) tot n) s' (\<lambda>m s''. m = of_nat (min 2 (unat (n - tot))) \<and>
      kernel s'' = calm_kernel \<and> umem s'' p = Some [1, 2, 3])"
    if "kernel s' = calm_kernel" "umem s' p = Some [1, 2, 3]" "unat tot + unat (n - tot) \<le> 3"
    for tot n and s' :: "'a fds_scheme"
  proof -
    have "0 \<le> sint (of_nat (min 2 (unat (n - tot))) :: cint)" by (rule of_nat_int [THEN conjunct1]) simp
    then show ?thesis
      using that unfolding One_nat_def write_some.simps runs_bnd
      by (intro runs_mono [OF calm_write]) (auto simp: again_def runs_bnd)
  qed
  have third: "runs (write_all (Suc k) 1 fd (Some p) 3 3) s' (\<lambda>m _. m = 3)" for k and s' :: "'a fds_scheme"
    by simp
  have second: "runs (write_all (Suc (Suc k)) 1 fd (Some p) 2 3) s' (\<lambda>m _. m = 3)"
    if "kernel s' = calm_kernel" "umem s' p = Some [1, 2, 3]" for k and s' :: "'a fds_scheme"
    using runs_mono [OF some [OF that, of 2 3]] third [of k] by (subst write_all.simps) (simp add: runs_bnd)
  have "runs (write_all (Suc (Suc (Suc k))) 1 fd (Some p) 0 3) s (\<lambda>m _. m = 3)" for k
    using runs_mono [OF some [OF assms, of 0 3]] second [of _ k] by (subst write_all.simps) (simp add: runs_bnd)
  moreover have "Suc (unat (3 :: cint)) = Suc (Suc (Suc 1))" by simp
  ultimately show ?thesis unfolding fdwrite_def by (simp only:)
qed

theorem fdwrite_stream_witness:
  "\<exists>s'. fdwrite 1 5 (Some (Object 0)) 3 (fd_demo RunQueue [] 0) = Ret 3 s' \<and> sent 5 (trace s') = [1, 2, 3]"
proof -
  let ?s = "fd_demo RunQueue [] 0"
  obtain s' where r: "fdwrite 1 5 (Some (Object 0)) 3 ?s = Ret 3 s'"
    using calm_write_all [of ?s "Object 0" 5] by (auto simp: runs_def)
  have "\<not> may_block calm_kernel 5" by (simp add: may_block_def calm_kernel_def)
  moreover have "kern_ok calm_kernel" by (simp add: kern_ok_def calm_kernel_def)
  ultimately have "\<exists>k \<le> 3. sent 5 (trace s') = take k [1, 2, 3] \<and> unat (3 :: cint) = k"
    using fdwrite_stream [of ?s "Object 0" "[1, 2, 3]" 3 5 1] r by simp
  then show ?thesis using r by auto
qed

end
