(* ===== verification/Libc.thy ===== *)
theory Libc
  imports Sys
begin

text \<open>
  What the programs beside the library take from the C library: objects of their own, integers and
  strings in them, and the values they show on the terminal.
\<close>

section \<open>Objects\<close>

text \<open>
  A local array of a function, and \<open>malloc\<close>. Neither is reused in the model, and what they contain is
  arbitrary. A pointer from \<open>malloc\<close> is a word.
\<close>

definition new_object :: "nat \<Rightarrow> ('z chans_scheme, nat) prog" where
  "new_object n =
     bnd (get ubrk) (\<lambda>q.
     bnd (upd (\<lambda>s. s\<lparr>umem := (umem s)(Object q \<mapsto> map (junk s) [0..<n]), ubrk := Suc q\<rparr>)) (\<lambda>_.
     ret q))"

definition malloc :: "uint \<Rightarrow> ('z chans_scheme, nat option) prog" where
  "malloc n =
     bnd try_alloc (\<lambda>ok.
     bnd (get ubrk) (\<lambda>q.
     if \<not> ok \<or> 2 ^ 32 \<le> q then ret None
     else bnd (new_object (unat n)) (\<lambda>q. ret (Some q))))"

definition free :: "nat \<Rightarrow> ('z chans_scheme, unit) prog" where
  "free q s =
     (case umem s (Object q) of
        None \<Rightarrow> Halt BadMem s
      | Some _ \<Rightarrow> Ret () (s\<lparr>umem := (umem s)(Object q := None)\<rparr>))"

section \<open>Integers and strings in objects\<close>

text \<open>\<open>a[i]\<close> and \<open>a[i] = v\<close> for an array of \<open>int\<close>.\<close>

definition load_int :: "nat \<Rightarrow> nat \<Rightarrow> ('z chans_scheme, cint) prog" where
  "load_int a i = bnd (read_mem (Obj (Object a)) (4 * i + 4)) (\<lambda>bs. ret (of_bytes (drop (4 * i) bs)))"

definition store_int :: "nat \<Rightarrow> nat \<Rightarrow> cint \<Rightarrow> ('z chans_scheme, unit) prog" where
  "store_int a i v =
     bnd (read_mem (Obj (Object a)) (4 * i + 4)) (\<lambda>bs.
     write_mem (Obj (Object a)) (take (4 * i) bs @ bytes_of v))"

text \<open>The string that begins with the given bytes, and the bytes of a string.\<close>

definition c_string :: "uchar list \<Rightarrow> string" where
  "c_string bs = map (\<lambda>b. char_of (unat b)) (takeWhile (\<lambda>b. b \<noteq> 0) bs)"

definition c_bytes :: "string \<Rightarrow> uchar list" where
  "c_bytes str = map (\<lambda>c. of_nat (of_char c)) str"

text \<open>\<open>snprintf(buf, n, ...)\<close> writes at most \<open>n - 1\<close> characters of the text and a NUL.\<close>

definition snprintf :: "nat \<Rightarrow> nat \<Rightarrow> string \<Rightarrow> ('z chans_scheme, unit) prog" where
  "snprintf a n txt = whenp (n \<noteq> 0) (write_mem (Obj (Object a)) (c_bytes (take (n - 1) txt) @ [0]))"

text \<open>
  An argument of \<open>fprintf\<close> and \<open>printf\<close>: a number, a text or \<open>strerror\<close> of a number. The programs
  keep what they show, a format with its arguments for each call.
\<close>

datatype shown = Num cint | Txt string | Error cint

type_synonym screen = "(string \<times> shown list) list"

section \<open>Two integers in an array\<close>

lemma load_int_at:
  assumes "umem s (Object a) = Some bs" and "4 * i + 4 \<le> length bs"
  shows "runs (load_int a i) s (\<lambda>v s'. v = of_bytes (take 4 (drop (4 * i) bs)) \<and> s' = s)"
  using assms by (simp add: load_int_def runs_bnd take_drop of_bytes_def add.commute)

lemma store_int_at:
  assumes "umem s (Object a) = Some bs" and "4 * i + 4 \<le> length bs"
  shows "runs (store_int a i v) s (\<lambda>_ s'.
    s' = s\<lparr>umem := (umem s)(Object a \<mapsto> take (4 * i) bs @ bytes_of v @ drop (4 * i + 4) bs)\<rparr>)"
  using assms by (simp add: store_int_def runs_bnd overwrite_def min_def)

lemma c_bytes_length [simp]: "length (c_bytes str) = length str"
  by (simp add: c_bytes_def)

end
