(* ===== verification/Program.thy ===== *)
theory Program
  imports Netclient Libc
begin

text \<open>
  Whole programs: the code of the tasks, built from the calls of the library in the way their
  arguments allow, under the scheduler of task.c, from the start of the process on.
\<close>

section \<open>The calls a program may use\<close>

text \<open>
  A task knows some channels, with the sizes of their elements, and some objects, with their sizes:
  \<open>C\<close> and \<open>M\<close>. A call that takes a channel or writes into an object needs a known one that is large
  enough; \<open>CF fn arg\<close> and \<open>MF fn arg\<close> are what a function may take to be known from its argument.
  The other calls may be used anywhere. \<open>chanfree\<close> is not among them: the code cannot tell whether
  a task still waits for the channel.
\<close>

definition alts_call :: "alt list \<Rightarrow> ('z chans_scheme, cint) prog" where
  "alts_call xs = bnd (new_alts xs) (\<lambda>b. bnd (chanalt (b, 0)) (\<lambda>r. bnd (free_alts b) (\<lambda>_. ret r)))"

definition room_for :: "(cptr \<Rightarrow> uint option) \<Rightarrow> (nat \<Rightarrow> nat option) \<Rightarrow> cptr \<Rightarrow> nat option \<Rightarrow> bool" where
  "room_for C M c p \<longleftrightarrow>
     (\<exists>e. C c = Some e \<and> (\<forall>q. p = Some q \<longrightarrow> (\<exists>n. M q = Some n \<and> unat e \<le> n)))"

definition word_sized :: "(cptr \<Rightarrow> uint option) \<Rightarrow> cptr \<Rightarrow> bool" where
  "word_sized C c \<longleftrightarrow> (\<exists>e. C c = Some e \<and> unat e \<le> 4)"

definition has_room :: "(nat \<Rightarrow> nat option) \<Rightarrow> nat \<Rightarrow> nat \<Rightarrow> bool" where
  "has_room M q n \<longleftrightarrow> (\<exists>l. M q = Some l \<and> n \<le> l)"

definition alts_typed :: "(cptr \<Rightarrow> uint option) \<Rightarrow> (nat \<Rightarrow> nat option) \<Rightarrow> alt list \<Rightarrow> bool" where
  "alts_typed C M xs \<longleftrightarrow>
     (\<exists>n. find_end xs = Some n \<and> 0 < n \<and> atask (xs ! 0) = None \<and>
        (\<forall>i < n. aop (xs ! i) = CHANNOP \<or>
           (\<exists>p. chanarray (aop (xs ! i)) \<noteq> None \<and> av (xs ! i) = map_option Object p \<and>
              room_for C M (ac (xs ! i)) p)))"

text \<open>Calls without a result.\<close>

inductive unit_call :: "('z fds_scheme, unit) prog \<Rightarrow> bool" where
  "unit_call (qlock l)"
| "unit_call (qunlock l)"
| "unit_call (rlock l)"
| "unit_call (runlock l)"
| "unit_call (wlock l)"
| "unit_call (wunlock l)"
| "unit_call (tasksleep r)"
| "unit_call (fdwait fd dir)"
| "unit_call tasksystem"
| "unit_call (needstack n)"
| "unit_call (taskexit v)"
| "good_format fmt args \<Longrightarrow> unit_call (taskname fmt args)"
| "good_format fmt args \<Longrightarrow> unit_call (taskstate fmt args)"

text \<open>Calls that return a word.\<close>

inductive word_call :: "(nat \<Rightarrow> uint \<Rightarrow> cptr \<Rightarrow> uint option) \<Rightarrow> (nat \<Rightarrow> uint \<Rightarrow> nat \<Rightarrow> nat option)
    \<Rightarrow> bool \<Rightarrow> (cptr \<Rightarrow> uint option) \<Rightarrow> (nat \<Rightarrow> nat option) \<Rightarrow> ('z fds_scheme, 32 word) prog \<Rightarrow> bool"
  for CF MF k C M where
  "word_call CF MF k C M taskyield"
| "word_call CF MF k C M taskid"
| "word_call CF MF k C M (canqlock l)"
| "word_call CF MF k C M (canrlock l)"
| "word_call CF MF k C M (canwlock l)"
| "word_call CF MF k C M (taskwakeup r)"
| "word_call CF MF k C M (taskwakeupall r)"
| "CF fn arg \<subseteq>\<^sub>m C \<Longrightarrow> MF fn arg \<subseteq>\<^sub>m M \<Longrightarrow> k \<Longrightarrow> word_call CF MF k C M (taskcreate fn arg stack)"
| "word_call CF MF k C M (taskdelay ms)"
| "word_call CF MF k C M (fdnoblock fd)"
| "word_call CF MF k C M (sys_call c)"
| "word_call CF MF k C M (write_bytes fd bs)"
| "word_call CF MF k C M (netannounce istcp server port)"
| "word_call CF MF k C M (netdial istcp (Some name) port)"
| "\<forall>q. server = Some q \<longrightarrow> has_room M q 16 \<Longrightarrow> \<forall>q. pt = Some q \<longrightarrow> has_room M q 4 \<Longrightarrow>
   word_call CF MF k C M (netaccept fd (map_option Object server) (map_option Object pt))"
| "has_room M q (unat n) \<Longrightarrow> word_call CF MF k C M (fdread i fd (Some (Object q)) n)"
| "has_room M q (unat n) \<Longrightarrow> word_call CF MF k C M (fdread1 i fd (Some (Object q)) n)"
| "has_room M q (unat n) \<Longrightarrow> word_call CF MF k C M (fdwrite i fd (Some (Object q)) n)"
| "room_for C M c p \<Longrightarrow> word_call CF MF k C M (chansend c (map_option Object p))"
| "room_for C M c p \<Longrightarrow> word_call CF MF k C M (channbsend c (map_option Object p))"
| "room_for C M c p \<Longrightarrow> word_call CF MF k C M (chanrecv c (map_option Object p))"
| "room_for C M c p \<Longrightarrow> word_call CF MF k C M (channbrecv c (map_option Object p))"
| "word_sized C c \<Longrightarrow> word_call CF MF k C M (chansendul c w)"
| "word_sized C c \<Longrightarrow> word_call CF MF k C M (channbsendul c w)"
| "word_sized C c \<Longrightarrow> word_call CF MF k C M (chanrecvul c)"
| "word_sized C c \<Longrightarrow> word_call CF MF k C M (channbrecvul c)"
| "word_sized C c \<Longrightarrow> word_call CF MF k C M (chansendp c w)"
| "word_sized C c \<Longrightarrow> word_call CF MF k C M (channbsendp c w)"
| "word_sized C c \<Longrightarrow> word_call CF MF k C M (chanrecvp c)"
| "word_sized C c \<Longrightarrow> word_call CF MF k C M (channbrecvp c)"
| "alts_typed C M xs \<Longrightarrow> word_call CF MF k C M (alts_call xs)"

text \<open>
  The program's own variables are the rest of the state. \<open>k\<close> says whether the task knows that they are
  set up: then it knows the channels in them. An assignment must leave them set up if they are, with
  channels that were in them or that the task knows.
\<close>

definition in_globals :: "'z globals \<Rightarrow> bool \<Rightarrow> 'z \<Rightarrow> cptr \<Rightarrow> uint option" where
  "in_globals G k v = (if k then (case G v of None \<Rightarrow> Map.empty | Some D \<Rightarrow> D) else Map.empty)"

definition sets_up :: "'z globals \<Rightarrow> (cptr \<Rightarrow> uint option) \<Rightarrow> bool \<Rightarrow> bool \<Rightarrow> ('z \<Rightarrow> 'z) \<Rightarrow> bool" where
  "sets_up G C k k' h \<longleftrightarrow>
     (\<forall>v D. G v = Some D \<longrightarrow>
        (\<exists>D'. G (h v) = Some D' \<and> (\<forall>c e. D' c = Some e \<longrightarrow> D c = Some e \<or> C c = Some e))) \<and>
     (k' \<longrightarrow> k \<or> (\<forall>v. \<exists>D. G (h v) = Some D \<and> D \<subseteq>\<^sub>m C))"

text \<open>
  The code of a task: calls, the creation of channels and objects, which are known from then on,
  reading and writing known objects and the program's own variables, and the end of the process.
\<close>

inductive client :: "'z globals \<Rightarrow> (nat \<Rightarrow> uint \<Rightarrow> cptr \<Rightarrow> uint option) \<Rightarrow> (nat \<Rightarrow> uint \<Rightarrow> nat \<Rightarrow> nat option)
    \<Rightarrow> bool \<Rightarrow> (cptr \<Rightarrow> uint option) \<Rightarrow> (nat \<Rightarrow> nat option) \<Rightarrow> ('z fds_scheme, unit) prog \<Rightarrow> bool"
  for G CF MF where
  returns: "client G CF MF k C M (ret ())"
| ends: "e \<noteq> BadMem \<Longrightarrow> client G CF MF k C M (halt e)"
| calls: "unit_call m \<Longrightarrow> (\<And>u. client G CF MF k C M (f u)) \<Longrightarrow> client G CF MF k C M (bnd m f)"
| word: "word_call CF MF k C M m \<Longrightarrow> (\<And>w. client G CF MF k C M (f w)) \<Longrightarrow> client G CF MF k C M (bnd m f)"
| ready: "(\<And>b. client G CF MF k C M (f b)) \<Longrightarrow> client G CF MF k C M (bnd anyready f)"
| names: "m = taskgetname \<or> m = taskgetstate \<Longrightarrow> (\<And>str. client G CF MF k C M (f str)) \<Longrightarrow> client G CF MF k C M (bnd m f)"
| lookup: "(\<And>r. client G CF MF k C M (f r)) \<Longrightarrow> client G CF MF k C M (bnd (netlookup (Some name)) f)"
| create: "unat bsize < 2 ^ 31 \<Longrightarrow> unat sizeof_Channel + unat bsize * unat esize < 2 ^ 32 \<Longrightarrow>
    (\<And>c. c < 2 ^ 32 \<Longrightarrow> client G CF MF k (C(c \<mapsto> esize)) M (f c)) \<Longrightarrow>
    client G CF MF k C M (bnd (chancreate esize bsize) f)"
| alloc: "(\<And>q. q < 2 ^ 32 \<Longrightarrow> client G CF MF k C (M(q \<mapsto> unat n)) (f (Some q))) \<Longrightarrow> client G CF MF k C M (f None) \<Longrightarrow>
    client G CF MF k C M (bnd (malloc n) f)"
| frame: "(\<And>q. client G CF MF k C (M(q \<mapsto> n)) (f q)) \<Longrightarrow> client G CF MF k C M (bnd (new_object n) f)"
| errors: "(\<And>e. client G CF MF k C M (f e)) \<Longrightarrow> client G CF MF k C M (bnd (get errno) f)"
| load: "has_room M q n \<Longrightarrow> (\<And>bs. length bs = n \<Longrightarrow> client G CF MF k C M (f bs)) \<Longrightarrow>
    client G CF MF k C M (bnd (read_mem (Obj (Object q)) n) f)"
| store: "has_room M q (length bs) \<Longrightarrow> (\<And>u. client G CF MF k C M (f u)) \<Longrightarrow>
    client G CF MF k C M (bnd (write_mem (Obj (Object q)) bs) f)"
| look: "(\<And>v. (k \<longrightarrow> G v \<noteq> None) \<Longrightarrow> client G CF MF k (C ++ in_globals G k v) M (f v)) \<Longrightarrow>
    client G CF MF k C M (bnd (get fds.more) f)"
| set: "sets_up G C k k' h \<Longrightarrow> (\<And>u. client G CF MF k' C M (f u)) \<Longrightarrow>
    client G CF MF k C M (bnd (upd (fds.more_update h)) f)"

inductive_cases unit_callE: "unit_call m"
inductive_cases word_callE: "word_call CF MF k C M m"

text \<open>No task expects anything of its argument.\<close>

abbreviation (input) nothing :: "nat \<Rightarrow> uint \<Rightarrow> nat \<Rightarrow> 'a option" where
  "nothing \<equiv> \<lambda>_ _. Map.empty"

lemma bnd_halt: "bnd (halt e) f = halt e"
  by (simp add: bnd_def halt_def fun_eq_iff)

lemma word_sized_4: "C c = Some 4 \<Longrightarrow> word_sized C c"
  by (simp add: word_sized_def)

lemma client_exit: "client G CF MF k C M (taskexitall v)"
  unfolding taskexitall_def by (rule client.ends) simp

text \<open>Assignments to variables that do not matter.\<close>

lemma sets_up_same: "(\<And>v. G (h v) = G v) \<Longrightarrow> sets_up G C k k h"
  by (simp add: sets_up_def)

lemmas client_assign = client.set [OF sets_up_same]

section \<open>The calls are safe\<close>

text \<open>What is known stays known.\<close>

definition known :: "'z globals \<Rightarrow> bool \<Rightarrow> (cptr \<Rightarrow> uint option) \<Rightarrow> (nat \<Rightarrow> nat option) \<Rightarrow> 'z fds_scheme \<Rightarrow> bool" where
  "known G k C M s \<longleftrightarrow> env_ok C M s \<and> (k \<longrightarrow> globals_ok G s)"

lemma env_stable: "env_grows s s' \<Longrightarrow> env_ok C M s \<Longrightarrow> env_ok C M s'"
  by (rule env_ok_grows)

lemma env_grown: "grows G s s' \<Longrightarrow> env_ok C M s \<Longrightarrow> env_ok C M s'"
  unfolding grows_def using env_stable by blast

lemma known_stable: "grows G s s' \<Longrightarrow> known G k C M s \<Longrightarrow> known G k C M s'"
  unfolding known_def grows_def using env_stable by blast

lemma known_env: "known G k C M s \<Longrightarrow> env_ok C M s"
  by (simp add: known_def)

lemma framed:
  assumes "fds.Safe G CF MF t (env_ok C M) m (\<lambda>_. env_ok C M)"
  shows "fds.Safe G CF MF t (known G k C M) m (\<lambda>_. known G k C M)"
proof -
  have "fds.Safe G CF MF t (\<lambda>s. env_ok C M s \<and> (k \<longrightarrow> globals_ok G s)) m
      (\<lambda>_ s. env_ok C M s \<and> (k \<longrightarrow> globals_ok G s))"
    by (rule fds.Safe_frame [OF assms]) (use keep_grows in \<open>auto simp: grows_def\<close>)
  then show ?thesis unfolding known_def .
qed

lemma env_sub: "env_ok C M s \<Longrightarrow> C' \<subseteq>\<^sub>m C \<Longrightarrow> M' \<subseteq>\<^sub>m M \<Longrightarrow> env_ok C' M' s"
  unfolding env_ok_def map_le_def by (metis domI)

lemma env_add: "env_ok C M s \<Longrightarrow> env_ok D Map.empty s \<Longrightarrow> env_ok (C ++ D) M s"
  unfolding env_ok_def by (auto simp: map_add_def split: option.splits)

lemma env_room: "has_room M q n \<Longrightarrow> env_ok C M s \<Longrightarrow> accepts s (Some (Object q)) n"
  unfolding has_room_def env_ok_def accepts_def by (meson le_trans)

lemma env_chan: "C c = Some e \<Longrightarrow> env_ok C M s \<Longrightarrow> \<exists>x. chan s c = Some x \<and> elemsize x = e"
  unfolding env_ok_def by blast

lemma env_operand:
  assumes "room_for C M c p"
  shows "fds.good_operand (env_ok C M) c p"
  unfolding fds.good_operand_def
proof (intro allI impI)
  fix s :: "'a fds_scheme"
  assume env: "env_ok C M s"
  obtain e where e: "C c = Some e" "\<And>q. p = Some q \<Longrightarrow> \<exists>n. M q = Some n \<and> unat e \<le> n"
    using assms by (auto simp: room_for_def)
  obtain x where x: "chan s c = Some x" "elemsize x = e" using env_chan [OF e(1) env] by blast
  have "accepts s (map_option Object p) (unat (elemsize x))"
    using e(2) env_room [OF _ env] x(2) by (cases p) (auto simp: accepts_def [of _ None] has_room_def)
  then show "\<exists>x. chan s c = Some x \<and> accepts s (map_option Object p) (unat (elemsize x))" using x by blast
qed

lemma env_word: "word_sized C c \<Longrightarrow> fds.word_chan (env_ok C M) c"
  unfolding word_sized_def fds.word_chan_def using env_chan by blast

lemmas env_calls =
  fds.Safe_chan_calls [where P = "env_ok C M" for C M, OF env_stable env_operand]
  fds.Safe_word_calls [where P = "env_ok C M" for C M, OF env_stable env_word]

lemma unit_call_OK: "unit_call m \<Longrightarrow> fds.OK G CF MF t m"
  by (erule unit_call.cases)
    (simp_all add: fds.OK_qlocks fds.OK_rwlocks fds.OK_rendezs OK_fdwait fds.OK_calls fds.OK_taskexit)

lemma create_Safe:
  assumes "CF fn arg \<subseteq>\<^sub>m C" and "MF fn arg \<subseteq>\<^sub>m M" and "k"
  shows "fds.Safe G CF MF t (known G k C M) (taskcreate fn arg stack :: ('z fds_scheme, cint) prog) (\<lambda>_. known G k C M)"
proof -
  have "fds.Safe G CF MF t (\<lambda>s. fd_pre G CF MF s fn arg \<and> known G k C M s)
      (taskcreate fn arg stack :: ('z fds_scheme, cint) prog)
      (\<lambda>_ s. True \<and> known G k C M s)"
    by (rule fds.Safe_frame [where R = "known G k C M", OF fds.Safe_taskcreate]) (use keep_grows known_stable in blast)
  then show ?thesis
    by (rule fds.Safe_post [OF fds.Safe_pre])
      (use env_sub [OF known_env assms(1,2)] assms(3) in \<open>auto simp: fd_pre_def known_def\<close>)
qed

lemma alts_Safe:
  assumes "alts_typed C M xs"
  shows "fds.Safe G CF MF t (env_ok C M) (alts_call xs) (\<lambda>_. env_ok C M)"
proof -
  obtain n where n: "find_end xs = Some n" "0 < n" "atask (xs ! 0) = None"
    and op: "\<And>i. i < n \<Longrightarrow> aop (xs ! i) = CHANNOP \<or> (\<exists>p. chanarray (aop (xs ! i)) \<noteq> None \<and>
        av (xs ! i) = map_option Object p \<and> room_for C M (ac (xs ! i)) p)"
    using assms unfolding alts_typed_def by blast
  show ?thesis
    unfolding alts_call_def
  proof (rule fds.Safe_alts_call [OF env_stable n])
    show "aop (xs ! i) = CHANNOP \<or> (\<exists>d p. chanarray (aop (xs ! i)) = Some d \<and>
        av (xs ! i) = map_option Object p \<and> fds.good_operand (env_ok C M) (ac (xs ! i)) p)" if "i < n" for i
      using op [OF that] env_operand by blast
  qed
qed

lemma word_call_Safe:
  fixes m :: "('z fds_scheme, 32 word) prog"
  assumes "word_call CF MF k C M m"
  shows "fds.Safe G CF MF t (known G k C M) m (\<lambda>_. known G k C M)"
proof (cases "\<exists>fn arg stack. m = taskcreate fn arg stack \<and> CF fn arg \<subseteq>\<^sub>m C \<and> MF fn arg \<subseteq>\<^sub>m M \<and> k")
  case True
  then show ?thesis using create_Safe by blast
next
  case False
  have "fds.Safe G CF MF t (env_ok C M) m (\<lambda>_. env_ok C M)"
    using assms
  proof cases
    case (8 fn arg stack)
    then show ?thesis using False by blast
  next
    case (15 server pt fd)
    have out: "out_room s server 16" "out_room s pt 4" if "env_ok C M s" for s :: "'z fds_scheme"
      using 15(2,3) env_room [OF _ that] by (auto simp: out_room_def)
    show ?thesis unfolding 15(1) by (rule Safe_netaccept [where P = "env_ok C M", OF env_grown]) (use out in blast)+
  qed (simp_all add: Safe_keeps [OF _ env_grown] fds.OK_qlocks fds.OK_rwlocks fds.OK_rendezs fds.OK_calls
      OK_taskdelay OK_fdnoblock OK_sys_call OK_write_bytes OK_netannounce OK_netdial env_calls alts_Safe
      Safe_read_loop [where P = "env_ok C M", OF env_grown env_room]
      Safe_fdwrite [where P = "env_ok C M", OF env_grown env_room])
  then show ?thesis by (rule framed)
qed

section \<open>The program's own steps\<close>

lemma globals_set:
  assumes "sets_up G C k k' h" and "known G k C M s"
  defines "s' \<equiv> fds.more_update h s"
  shows "globals_ok G s \<Longrightarrow> globals_ok G s'" and "known G k' C M s'"
proof -
  have env: "env_ok D N s' = env_ok D N s" for D and N :: "nat \<Rightarrow> nat option"
    by (simp add: env_ok_def accepts_def s'_def)
  have some: "globals_ok G s'" if "G (h (fds.more s)) = Some D'" "env_ok D' Map.empty s" for D'
    using that unfolding globals_ok_def env by (simp add: s'_def)
  show old: "globals_ok G s'" if g: "globals_ok G s"
  proof -
    obtain D where D: "G (fds.more s) = Some D" "env_ok D Map.empty s" using g unfolding globals_ok_def by blast
    then obtain D' where D': "G (h (fds.more s)) = Some D'" "\<And>c e. D' c = Some e \<Longrightarrow> D c = Some e \<or> C c = Some e"
      using assms(1) unfolding sets_up_def by metis
    have "env_ok D' Map.empty s"
      using D'(2) D(2) known_env [OF assms(2)] unfolding env_ok_def by fastforce
    then show ?thesis using some D'(1) by blast
  qed
  show "known G k' C M s'"
  proof (cases "k' \<and> \<not> k")
    case True
    then obtain D where D: "G (h (fds.more s)) = Some D" "D \<subseteq>\<^sub>m C"
      using assms(1) unfolding sets_up_def by metis
    have "env_ok D Map.empty s" by (rule env_sub [OF known_env [OF assms(2)] D(2)]) simp
    then show ?thesis using some D(1) assms(2) by (simp add: known_def env)
  next
    case False
    then show ?thesis using old assms(2) by (auto simp: known_def env)
  qed
qed

lemma Safe_own:
  assumes "sets_up G C k k' h"
  shows "fds.Safe G CF MF t (known G k C M) (upd (fds.more_update h)) (\<lambda>_. known G k' C M)"
proof (rule fds.Safe_runs)
  fix s :: "'a fds_scheme"
  assume "fds.Run G CF MF t s" and kn: "known G k C M s"
  then obtain L B xs where st: "fd_state G CF MF t L B xs s" by (auto simp: Run_state)
  let ?s = "fds.more_update h s"
  note set = globals_set [OF assms kn]
  have "fd_state G CF MF t L B xs ?s \<and> fds.Others G t s ?s"
  proof (rule state_own [OF st])
    show "queues_ok ?s L" by (rule queues_ok_cong [OF fd_stateD(2) [OF st]]) simp_all
    show "polled ?s xs" using fd_stateD(9) [OF st] by (simp add: polled_def)
    show "globals_ok G s \<Longrightarrow> globals_ok G ?s" by (rule set(1))
  qed (use fd_stateD(10) [OF st] in \<open>simp_all add: calm_def same_chans_def\<close>)
  then show "runs (upd (fds.more_update h)) s
      (\<lambda>_ s'. fds.Run G CF MF t s' \<and> fds.Others G t s s' \<and> known G k' C M s')"
    using set(2) by (auto simp: Run_state)
qed

lemma OK_try_alloc: "fds.OK G CF MF t try_alloc"
proof (rule OK_state)
  fix s :: "'a fds_scheme" and L B xs
  assume st: "fd_state G CF MF t L B xs s"
  let ?s = "s\<lparr>allocs := Suc (allocs s)\<rparr>"
  have "fd_state G CF MF t L B xs ?s \<and> fds.Others G t s ?s"
  proof (rule state_quiet [OF st])
    show "queues_ok ?s L" by (rule queues_ok_cong [OF fd_stateD(2) [OF st]]) simp_all
    show "polled ?s xs" using fd_stateD(9) [OF st] by (simp add: polled_def)
  qed (use fd_stateD(10) [OF st] in \<open>simp_all add: calm_def same_chans_def\<close>)
  then show "runs try_alloc s (\<lambda>_ s'. (\<exists>L' B' xs'. fd_state G CF MF t L' B' xs' s') \<and> fds.Others G t s s')"
    unfolding try_alloc_def runs_def by auto
qed

lemma load_Safe:
  assumes "has_room M q n"
  shows "fds.Safe G CF MF t (known G k C M) (read_mem (Obj (Object q)) n)
    (\<lambda>bs s. known G k C M s \<and> length bs = n)"
proof (rule fds.Safe_runs)
  fix s :: "'a fds_scheme"
  assume "fds.Run G CF MF t s" and kn: "known G k C M s"
  then show "runs (read_mem (Obj (Object q)) n) s
      (\<lambda>bs s'. fds.Run G CF MF t s' \<and> fds.Others G t s s' \<and> known G k C M s' \<and> length bs = n)"
    using env_room [OF assms known_env [OF kn]] by (auto simp: accepts_def)
qed

lemma object_update:
  fixes s :: "'z fds_scheme" and bs :: "uchar list"
  assumes r: "fds.RunB G CF MF t L B s"
  defines "s' \<equiv> s\<lparr>umem := (umem s)(Object (ubrk s) \<mapsto> bs), ubrk := Suc (ubrk s)\<rparr>"
  shows "fds.Run G CF MF t s'" and "fds.Others G t s s'" and "grows G s s'"
proof -
  note D = fds.RunB_D [OF r]
  have new: "umem s (Object (ubrk s)) = None"
    using D(9) unfolding chan_fresh_def objs_below_def by (metis less_irrefl)
  have acc: "accepts s (Some v) n \<Longrightarrow> accepts s' (Some v) n" for v n
    using new by (auto simp: accepts_def s'_def)
  have env: "env_grows s s'" by (simp add: env_grows_def acc) (simp add: s'_def)
  show "grows G s s'" by (rule own_grows [OF env]) (simp add: s'_def)
  have "fds.Run G CF MF t s' \<and> fds.Others G t s s'"
  proof (rule fds.chan_update [OF r _ _ _ env])
    show "calm s s'" by (simp add: calm_def s'_def)
    show "queues_ok s' L" by (rule queues_ok_cong [OF D(3)]) (simp_all add: s'_def)
    show "only_chans s s'"
    proof (rule only_chansI)
      show "sched.more s' = sched.more (s\<lparr>chan := chan s, cbrk := cbrk s, alts := alts s, abrk := abrk s,
          umem := (umem s)(Object (ubrk s) \<mapsto> bs), ubrk := Suc (ubrk s), rnds := rnds s\<rparr>)"
        by (cases s) (simp add: s'_def)
    qed
    show "chan_fresh s'" using D(9) by (auto simp: chan_fresh_def objs_below_def s'_def less_Suc_eq)
    show "chan_inv s' B"
    proof (rule chan_inv_sub [OF D(7), where X = "{}"])
      show "rel_option (chan_moved s c) (chan s c) (chan s' c)" for c
        using chan_invD(1,2) [OF D(7)] by (cases "chan s c") (auto simp: chan_moved_def arrays_ok_def s'_def)
    qed (simp_all add: waits_def acc, simp_all add: s'_def)
    show "own_kept u s s'" for u by (rule own_kept_same) (simp_all add: acc, simp_all add: s'_def)
  qed
  then show "fds.Run G CF MF t s'" "fds.Others G t s s'" by blast+
qed

lemma Safe_new_object:
  assumes stable: "\<And>s s'. grows G s s' \<Longrightarrow> P s \<Longrightarrow> P s'"
  shows "fds.Safe G CF MF t (\<lambda>s. P s \<and> (\<forall>k. ok = Some k \<longrightarrow> ubrk s = k)) (new_object n)
    (\<lambda>q s. P s \<and> accepts s (Some (Object q)) n \<and> (\<forall>k. ok = Some k \<longrightarrow> q = k))"
proof (rule fds.Safe_runs)
  fix s :: "'a fds_scheme"
  assume "fds.Run G CF MF t s" and P: "P s \<and> (\<forall>k. ok = Some k \<longrightarrow> ubrk s = k)"
  then obtain L B where r: "fds.RunB G CF MF t L B s" by (auto simp: fds.Run_RunB)
  note U = object_update [OF r, of "map (junk s) [0..<n]"]
  show "runs (new_object n) s (\<lambda>q s'. fds.Run G CF MF t s' \<and> fds.Others G t s s' \<and>
      P s' \<and> accepts s' (Some (Object q)) n \<and> (\<forall>k. ok = Some k \<longrightarrow> q = k))"
    using U stable [OF U(3)] P by (simp add: new_object_def runs_bnd accepts_def)
qed

lemmas Safe_frame_object = Safe_new_object [where ok = None, simplified]
  and Safe_heap_object = Safe_new_object [where ok = "Some k" for k, simplified]

lemma Safe_malloc:
  assumes stable: "\<And>s s'. grows G s s' \<Longrightarrow> P s \<Longrightarrow> P s'"
  shows "fds.Safe G CF MF t P (malloc n)
    (\<lambda>r s. P s \<and> (\<forall>q. r = Some q \<longrightarrow> q < 2 ^ 32 \<and> accepts s (Some (Object q)) (unat n)))"
  unfolding malloc_def
proof (rule fds.Safe_bnd)
  let ?Q = "\<lambda>r s. P s \<and> (\<forall>q. r = Some q \<longrightarrow> q < 2 ^ 32 \<and> accepts s (Some (Object q)) (unat n))"
  show "fds.Safe G CF MF t P try_alloc (\<lambda>_. P)" by (rule Safe_keeps [OF OK_try_alloc]) (rule stable)
  fix ok
  show "fds.Safe G CF MF t P (bnd (get ubrk) (\<lambda>k.
      if \<not> ok \<or> 2 ^ 32 \<le> k then ret None else bnd (new_object (unat n)) (\<lambda>q. ret (Some q)))) ?Q"
  proof (rule fds.Safe_bnd)
    show "fds.Safe G CF MF t P (get ubrk) (\<lambda>k s. P s \<and> ubrk s = k)" by (rule fds.Safe_get) simp
    fix k
    show "fds.Safe G CF MF t (\<lambda>s. P s \<and> ubrk s = k)
        (if \<not> ok \<or> 2 ^ 32 \<le> k then ret None else bnd (new_object (unat n)) (\<lambda>q. ret (Some q))) ?Q"
    proof (cases "\<not> ok \<or> 2 ^ 32 \<le> k")
      case True
      then show ?thesis by (auto intro!: fds.Safe_ret)
    next
      case False
      have "fds.Safe G CF MF t (\<lambda>s. P s \<and> ubrk s = k) (bnd (new_object (unat n)) (\<lambda>q. ret (Some q))) ?Q"
        by (rule fds.Safe_bnd [OF Safe_heap_object [where P = P, OF stable]], assumption, assumption, rule fds.Safe_ret)
          (use False in auto)
      with False show ?thesis by simp
    qed
  qed
qed

text \<open>The code of a task, run by a task that knows what the code expects.\<close>

lemma client_Safe:
  assumes "client G CF MF k C M m"
  shows "fds.Safe G CF MF t (known G k C M) m (\<lambda>_ _. True)"
  using assms
proof induction
  case (returns k C M)
  show ?case by (rule fds.Safe_ret) simp
next
  case (ends e k C M)
  then show ?case by (rule fds.Safe_halt)
next
  case (calls m k C M f)
  show ?case by (rule fds.Safe_bnd [OF Safe_keeps [OF unit_call_OK [OF calls(1)] known_stable] calls.IH])
next
  case (word k C M m f)
  show ?case by (rule fds.Safe_bnd [OF word_call_Safe [OF word(1)] word.IH])
next
  case (ready k C M f)
  show ?case by (rule fds.Safe_bnd [OF Safe_keeps [OF fds.OK_anyready known_stable] ready.IH])
next
  case (names m k C M f)
  then have "fds.OK G CF MF t m" using fds.OK_taskgetname fds.OK_taskgetstate by blast
  then show ?case by (rule fds.Safe_bnd [OF Safe_keeps [OF _ known_stable] names.IH])
next
  case (lookup k C M f name)
  show ?case by (rule fds.Safe_bnd [OF Safe_keeps [OF OK_netlookup known_stable] lookup.IH])
next
  case (create bsize esize k C M f)
  have new: "known G k (C(c \<mapsto> esize)) M s" if "known G k C M s" "\<exists>x. chan s c = Some x \<and> elemsize x = esize"
    for c and s :: "'a fds_scheme"
    using that by (auto simp: known_def env_ok_def)
  have "fds.Safe G CF MF t (\<lambda>s. known G k C M s \<and> c < 2 ^ 32 \<and> (\<exists>x. chan s c = Some x \<and> elemsize x = esize)) (f c)
      (\<lambda>_ _. True)" for c
  proof (cases "c < 2 ^ 32")
    case True
    show ?thesis by (rule fds.Safe_pre [OF create.IH [OF True]]) (use new in blast)
  next
    case False
    then show ?thesis unfolding fds.Safe_def by blast
  qed
  then have "fds.Safe G CF MF t (\<lambda>s. (env_ok C M s \<and> c < 2 ^ 32 \<and> (\<exists>x. chan s c = Some x \<and> elemsize x = esize)) \<and>
      (k \<longrightarrow> globals_ok G s)) (f c) (\<lambda>_ _. True)" for c
    by (rule fds.Safe_pre) (simp add: known_def)
  moreover have "fds.Safe G CF MF t (\<lambda>s. env_ok C M s \<and> (k \<longrightarrow> globals_ok G s)) (chancreate esize bsize)
      (\<lambda>c s. (env_ok C M s \<and> c < 2 ^ 32 \<and> (\<exists>x. chan s c = Some x \<and> elemsize x = esize)) \<and> (k \<longrightarrow> globals_ok G s))"
    by (rule fds.Safe_frame [OF fds.Safe_chancreate [where P = "env_ok C M", OF env_stable create(1,2)]])
      (use keep_grows in \<open>auto simp: grows_def\<close>)
  ultimately show ?case unfolding known_def by (rule fds.Safe_bnd [rotated])
next
  case (alloc k C M n f)
  have new: "known G k C (M(q \<mapsto> unat n)) s" if "known G k C M s" "accepts s (Some (Object q)) (unat n)"
    for q and s :: "'a fds_scheme"
    using that by (auto simp: known_def env_ok_def)
  have "fds.Safe G CF MF t (\<lambda>s. known G k C M s \<and> (\<forall>q. r = Some q \<longrightarrow> q < 2 ^ 32 \<and> accepts s (Some (Object q)) (unat n)))
      (f r) (\<lambda>_ _. True)" for r
  proof (cases r)
    case None
    show ?thesis unfolding None by (rule fds.Safe_pre [OF alloc.IH(2)]) blast
  next
    case (Some q)
    show ?thesis
    proof (cases "q < 2 ^ 32")
      case True
      show ?thesis unfolding Some by (rule fds.Safe_pre [OF alloc.IH(1) [OF True]]) (use new in blast)
    next
      case False
      then show ?thesis unfolding fds.Safe_def Some by blast
    qed
  qed
  from fds.Safe_bnd [OF Safe_malloc [where P = "known G k C M", OF known_stable] this]
  show ?case .
next
  case (frame k C M n f)
  have new: "known G k C (M(q \<mapsto> n)) s" if "known G k C M s \<and> accepts s (Some (Object q)) n"
    for q and s :: "'a fds_scheme"
    using that by (auto simp: known_def env_ok_def)
  have "fds.Safe G CF MF t (\<lambda>s. known G k C M s \<and> accepts s (Some (Object q)) n) (f q) (\<lambda>_ _. True)" for q
    by (rule fds.Safe_pre [OF frame.IH]) (rule new)
  from fds.Safe_bnd [OF Safe_frame_object [where P = "known G k C M", OF known_stable] this]
  show ?case .
next
  case (load M q n k C f)
  have "fds.Safe G CF MF t (\<lambda>s. known G k C M s \<and> length bs = n) (f bs) (\<lambda>_ _. True)" for bs
  proof (cases "length bs = n")
    case True
    show ?thesis by (rule fds.Safe_pre [OF load.IH [OF True]]) simp
  next
    case False
    then show ?thesis unfolding fds.Safe_def by blast
  qed
  from fds.Safe_bnd [OF load_Safe [OF load(1)] this] show ?case .
next
  case (errors k C M f)
  show ?case by (rule fds.Safe_bnd [where Q = "\<lambda>_. known G k C M", OF fds.Safe_get errors.IH]) simp
next
  case (store M q bs k C f)
  show ?case
    by (rule fds.Safe_bnd [OF Safe_write_mem [OF known_stable env_room [OF store(1) known_env] order_refl] store.IH])
next
  case (look k C M f)
  have "fds.Safe G CF MF t (\<lambda>s. known G k C M s \<and> (k \<longrightarrow> G v \<noteq> None) \<and> known G k (C ++ in_globals G k v) M s)
      (f v) (\<lambda>_ _. True)" for v
  proof (cases "k \<longrightarrow> G v \<noteq> None")
    case True
    show ?thesis by (rule fds.Safe_pre [OF look.IH]) (use True in auto)
  next
    case False
    then show ?thesis unfolding fds.Safe_def by blast
  qed
  moreover have "fds.Safe G CF MF t (known G k C M) (get fds.more)
      (\<lambda>v s. known G k C M s \<and> (k \<longrightarrow> G v \<noteq> None) \<and> known G k (C ++ in_globals G k v) M s)"
    by (rule fds.Safe_get) (auto simp: known_def in_globals_def globals_ok_def intro: env_add)
  ultimately show ?case by (rule fds.Safe_bnd [rotated])
next
  case (set C k k' h M f)
  show ?case by (rule fds.Safe_bnd [OF Safe_own [OF set(1)] set.IH])
qed

section \<open>From the start of the process\<close>

text \<open>
  The state before \<open>main\<close>: no task, no channel, empty lists. The memory \<open>malloc\<close> will find, the
  kernel, the addresses and the objects of the program are arbitrary.
\<close>

definition fresh_process :: "'z fds_scheme \<Rightarrow> bool" where
  "fresh_process s \<longleftrightarrow>
     tasks s = Map.empty \<and> lists s = (\<lambda>_. \<lparr>head = None, tail = None\<rparr>) \<and> alltask s = [] \<and> nalltask s = 0 \<and>
     taskcount s = 0 \<and> taskrunning s = None \<and> chan s = Map.empty \<and> alts s = Map.empty \<and>
     objs_below (umem s) (ubrk s) \<and> length (pollfd s) = MAXFD \<and> length (polltask s) = MAXFD \<and> npollfd s = 0 \<and> sleepingcounted s = 0"

lemma fresh_Inv:
  assumes f: "fresh_process s" and k: "kern_ok (kernel s)"
  shows "fds.Inv G CF MF s (\<lambda>_. [])"
proof -
  have none: "tasks s p = None" "chan s c = None" "alts s b = None" for p c b
    using f by (simp_all add: fresh_process_def)
  have "queues_ok s (\<lambda>_. [])" using f by (simp add: queues_ok_def tlist_Nil fresh_process_def)
  moreover have "alltask_ok s" using f by (simp add: alltask_ok_def slot_def fresh_process_def)
  moreover have "counts_ok s (\<lambda>_. []) (sleepingcounted s)"
    using f by (simp add: counts_ok_def nappers_def user_tasks_def fresh_process_def)
  moreover have w: "waits s c d = {}" for c d using none by (simp add: waits_def)
  then have "chan_inv s {}" using none by (simp add: chan_inv_def arrays_ok_def consistent_def)
  moreover have "polled s []" using f by (simp add: polled_def fresh_process_def)
  then have "fd_rest s ({} - {})" using k unfolding fd_rest_def by fastforce
  ultimately have "fd_J s {}" using none f by (auto simp: fd_J_def chan_fresh_def fresh_process_def)
  then have "fd_J s (parked s (\<lambda>_. []))" by (rule fd_J_mono) simp
  moreover have "tasks s = Map.empty" using f by (simp add: fresh_process_def)
  ultimately show ?thesis
    using \<open>queues_ok s (\<lambda>_. [])\<close> \<open>alltask_ok s\<close> \<open>counts_ok s (\<lambda>_. []) (sleepingcounted s)\<close> none
    by (simp add: fds.Inv_def sched_inv_def fresh_ok_def starts_ok_def)
qed

text \<open>The program: \<open>taskmain\<close> is function 0, \<open>fdtask\<close> is the library's own; the others are the client's.\<close>

definition well_typed :: "'z globals \<Rightarrow> (nat \<Rightarrow> uint \<Rightarrow> cptr \<Rightarrow> uint option) \<Rightarrow> (nat \<Rightarrow> uint \<Rightarrow> nat \<Rightarrow> nat option)
    \<Rightarrow> ('z fds_scheme, unit) prog \<Rightarrow> 'z fds_scheme code \<Rightarrow> bool" where
  "well_typed G CF MF taskmain code \<longleftrightarrow>
     (\<forall>arg. \<exists>k. code fn_fdtask arg = fdtask k) \<and>
     (\<forall>arg. client G CF MF False (CF 0 arg) (MF 0 arg) taskmain) \<and>
     (\<forall>fn arg. fn \<noteq> 0 \<longrightarrow> fn \<noteq> fn_fdtask \<longrightarrow> client G CF MF True (CF fn arg) (MF fn arg) (code fn arg))"

lemma well_typed_code:
  assumes "well_typed G CF MF taskmain code"
  shows "fds.code_safe G CF MF (code(0 := \<lambda>_. taskmainstart taskmain))"
  unfolding fds.code_safe_def
proof (intro allI)
  fix t fn arg
  let ?code = "code(0 := \<lambda>_. taskmainstart taskmain)"
  have client: "fds.Safe G CF MF t (\<lambda>s. fd_pre G CF MF s fn arg) m (\<lambda>_ _. True)"
    if "client G CF MF k (CF fn arg) (MF fn arg) m" "fn \<noteq> fn_fdtask" "k \<longrightarrow> fn \<noteq> 0" for m k
    by (rule fds.Safe_pre [OF client_Safe [OF that(1)]]) (use that(2,3) in \<open>auto simp: fd_pre_def known_def\<close>)
  consider "fn = fn_fdtask" | "fn = 0" "fn \<noteq> fn_fdtask" | "fn \<noteq> 0" "fn \<noteq> fn_fdtask" by blast
  then show "fds.Safe G CF MF t (\<lambda>s. fd_pre G CF MF s fn arg) (?code fn arg) (\<lambda>_ _. True)"
  proof cases
    case 1
    obtain k where "code fn_fdtask arg = fdtask k" using assms unfolding well_typed_def by blast
    then have "?code fn arg = fdtask k" using 1 by (simp add: fn_fdtask_def)
    then show ?thesis by (simp add: fds.OK_pre [OF OK_fdtask])
  next
    case 2
    have "unit_call (taskname ''taskmain'' [])" by (intro unit_call.intros good_format_text) simp
    then have "client G CF MF False (CF fn arg) (MF fn arg) (taskmainstart taskmain)"
      unfolding taskmainstart_def by (rule client.calls) (use assms 2(1) in \<open>simp add: well_typed_def\<close>)
    from client [OF this 2(2)] show ?thesis using 2(1) by simp
  next
    case 3
    then have "client G CF MF True (CF fn arg) (MF fn arg) (code fn arg)" using assms by (simp add: well_typed_def)
    from client [OF this 3(2)] show ?thesis using 3(1) by simp
  qed
qed

text \<open>The end of a run of the scheduler from \<open>main\<close>.\<close>

definition safe_end :: "'z globals \<Rightarrow> (nat \<Rightarrow> uint \<Rightarrow> cptr \<Rightarrow> uint option) \<Rightarrow> (nat \<Rightarrow> uint \<Rightarrow> nat \<Rightarrow> nat option)
    \<Rightarrow> ('z fds_scheme, 'z fds_scheme contexts) res \<Rightarrow> bool" where
  "safe_end G CF MF r \<longleftrightarrow>
     (case r of
        Ret K s \<Rightarrow> (\<exists>L. fds.Inv G CF MF s L) \<and> taskrunning s = None
      | Halt e s \<Rightarrow> e \<noteq> BadMem
      | Switch s k \<Rightarrow> False)"

lemma main_safe:
  assumes "fresh_process s" and "kern_ok (kernel s)" and pre: "env_ok (CF 0 0) (MF 0 0) s"
    and code: "fds.code_safe G CF MF (code(0 := \<lambda>_. taskmainstart taskmain))"
  shows "safe_end G CF MF (main taskmain code stack n s)"
proof -
  let ?code = "code(0 := \<lambda>_. taskmainstart taskmain)"
  let ?stk = "if stack = 0 then 256 * 1024 else stack"
  have inv: "fds.Inv G CF MF s (\<lambda>_. [])" by (rule fresh_Inv [OF assms(1,2)])
  have none: "taskrunning s = None" using assms(1) by (simp add: fresh_process_def)
  have ne: "\<not> exiting y" if "tasks s p = Some y" for p y using assms(1) that by (simp add: fresh_process_def)
  have pre: "fd_pre G CF MF s 0 0" using pre by (simp add: fd_pre_def)
  have ok: "queues_ok s (\<lambda>_. [])" "alltask_ok s" "fresh_ok s" using inv by (simp_all add: fds.Inv_def sched_inv_def)
  show ?thesis
  proof (cases "alloc_ok s (allocs s) \<and> (nalltask s mod 64 = 0 \<longrightarrow> alloc_ok s (Suc (allocs s)))")
    case True
    then have "runs (taskcreate 0 0 ?stk) s (create_post 0 0 ?stk (\<lambda>_. []) s)"
      by (intro taskcreate_spec [OF ok]) auto
    then obtain i s1 where s1: "taskcreate 0 0 ?stk s = Ret i s1" and c: "create_post 0 0 ?stk (\<lambda>_. []) s i s1"
      by (rule runsE)
    obtain L where L: "fds.Inv G CF MF s1 L" using fds.create_Inv(1) [OF inv _ pre c] ne by blast
    have run: "taskrunning s1 = None" using fds.create_Inv(4) [OF inv _ pre c] ne none by auto
    have "fds.conts_safe G CF MF (\<lambda>_. None) s1" by (simp add: fds.conts_safe_def)
    from fds.taskscheduler_safe [OF code L run this, of n] show ?thesis
      using s1 by (auto simp: main_def safe_end_def)
  next
    case False
    then have "halts (taskcreate 0 0 ?stk) s Abort"
      by (auto simp: halts_def taskcreate_def taskalloc_def try_alloc_def bnd_def sem_simps
          whenp_def load_task_def)
    then show ?thesis by (auto simp: main_def halts_def safe_end_def)
  qed
qed


section \<open>testdelay1.c\<close>

text \<open>The smallest program: it waits for a second and ends.\<close>

definition testdelay1_main :: "('z fds_scheme, unit) prog" where
  "testdelay1_main = bnd (taskdelay 1000) (\<lambda>_. ret ())"

definition only_fdtask :: "nat \<Rightarrow> 'z fds_scheme code" where
  "only_fdtask k fn arg = (if fn = fn_fdtask then fdtask k else ret ())"

lemma testdelay1_well_typed: "well_typed (\<lambda>_. None) nothing nothing testdelay1_main (only_fdtask k)"
  by (auto simp: well_typed_def only_fdtask_def testdelay1_main_def intro!: client.intros word_call.intros)

text \<open>A start, with a kernel that refuses every call.\<close>

definition mute_kernel :: kern where
  "mute_kernel = \<lparr>k_time = (\<lambda>_. Inl 1), k_poll = (\<lambda>_ _ _. Inl 1), k_read = (\<lambda>_ _ _. Inl 1), k_write = (\<lambda>_ _ _. Inl 1),
     k_call = (\<lambda>_ _. Inl 1), k_getsockopt = (\<lambda>_ _ _ _ _. Inl 1), k_accept = (\<lambda>_ _. Inl 1), k_host = (\<lambda>_ _. None)\<rparr>"

definition start :: "'z \<Rightarrow> 'z fds_scheme" where
  "start z =
     \<lparr>tasks = Map.empty, lists = (\<lambda>_. \<lparr>head = None, tail = None\<rparr>), brk = 0, alloc_ok = (\<lambda>_. True), allocs = 0,
      task_at = (\<lambda>_. 0), frame_at = (\<lambda>_. 30000), taskidgen = 0, taskcount = 0, tasknswitch = 0,
      taskexitval = 0, taskrunning = None, alltask = [], nalltask = 0, prt = \<lparr>errstr = [], neg_init = False\<rparr>,
      \<dots> = qlocks_ext (\<lambda>_. None) (rwlocks_ext (\<lambda>_. \<lparr>readers = 0, writer = None\<rparr>)
       (rendezs_ext (\<lambda>_. None) (chans_ext (\<lambda>_. None) 0 (\<lambda>_. None) 0 Map.empty 0 (\<lambda>_. 0) 0 (\<lambda>_. 7)
       (sys_ext mute_kernel [] 0 (\<lambda>_. 0)
       (fds_ext (replicate MAXFD \<lparr>pfd = 0, events = 0, revents = 0\<rparr>) (replicate MAXFD None) 0 False 0 z)))))\<rparr>"

lemma start_fresh: "fresh_process (start z)" and start_kernel: "kern_ok (kernel (start z))"
  by (simp_all add: fresh_process_def start_def kern_ok_def mute_kernel_def objs_below_def)


end
