(* ===== verification/Tcpproxy.thy ===== *)
theory Tcpproxy
  imports Stream Program
begin

text \<open>
  tcpproxy.c: a proxy that copies between two connections with a task for each direction, over the
  network calls and the descriptor input and output of the library. What is shown is about the task
  that copies, across all its reads, writes and waits.
\<close>

section \<open>The program\<close>

text \<open>The global variables, \<open>server\<close> a null pointer until it is assigned, and what was printed.\<close>

record proxy_vars =
  server :: "string option"
  port :: cint
  stderr :: screen

type_synonym proxy = "proxy_vars fds_scheme"

definition fn_sleeptest :: nat where "fn_sleeptest = 2"

definition fn_proxytask :: nat where "fn_proxytask = 3"

definition fn_rwtask :: nat where "fn_rwtask = 4"

abbreviation (input) newline :: string where
  "newline \<equiv> [CHR 0x0A]"

definition report :: "string \<Rightarrow> shown list \<Rightarrow> (proxy, unit) prog" where
  "report fmt xs = upd (fds.more_update (\<lambda>v. v\<lparr>stderr := stderr v @ [(fmt, xs)]\<rparr>))"

definition mkfd2 :: "cint \<Rightarrow> cint \<Rightarrow> (proxy, nat) prog" where
  "mkfd2 fd1 fd2 =
     bnd (malloc 8) (\<lambda>r.
     case r of
       None \<Rightarrow> bnd (report (''out of memory'' @ newline) []) (\<lambda>_. halt Abort)
     | Some a \<Rightarrow>
         bnd (store_int a 0 fd1) (\<lambda>_.
         bnd (store_int a 1 fd2) (\<lambda>_.
         ret a)))"

primrec sleep_count :: "nat \<Rightarrow> cint \<Rightarrow> (proxy, unit) prog" where
  "sleep_count 0 i = halt NoFuel"
| "sleep_count (Suc k) i =
     bnd (taskstate ''sleeping counter=%d'' [V32 i]) (\<lambda>_.
     bnd (taskdelay 1000) (\<lambda>_.
     sleep_count k (i + 1)))"

definition sleeptest :: "nat \<Rightarrow> (proxy, unit) prog" where
  "sleeptest k = bnd (taskname ''sleeping test'' []) (\<lambda>_. sleep_count k 0)"

text \<open>The loop over the connections, with the local variables \<open>remote\<close> and \<open>rport\<close>.\<close>

primrec accept_all :: "nat \<Rightarrow> cint \<Rightarrow> nat \<Rightarrow> nat \<Rightarrow> (proxy, unit) prog" where
  "accept_all 0 fd remote rport = halt NoFuel"
| "accept_all (Suc k) fd remote rport =
     bnd (netaccept fd (Some (Object remote)) (Some (Object rport))) (\<lambda>cfd.
     if 0 \<le> sint cfd then
       bnd (read_mem (Obj (Object remote)) 16) (\<lambda>bs.
       bnd (load_int rport 0) (\<lambda>r.
       bnd (report (''connection from %s:%d'' @ newline) [Txt (c_string bs), Num r]) (\<lambda>_.
       bnd (taskcreate fn_proxytask cfd 32768) (\<lambda>_.
       accept_all k fd remote rport))))
     else ret ())"

text \<open>\<open>argv\<close> has the name of the program first; \<open>atoi\<close> is the C library's.\<close>

definition tcpproxy_main :: "nat \<Rightarrow> (string \<Rightarrow> cint) \<Rightarrow> string list \<Rightarrow> (proxy, unit) prog" where
  "tcpproxy_main k atoi argv =
     (if length argv \<noteq> 4 then
        bnd (report (''usage: tcpproxy localport server remoteport'' @ newline) []) (\<lambda>_. taskexitall 1)
      else
        bnd (upd (fds.more_update (\<lambda>v. v\<lparr>server := Some (argv ! 2)\<rparr>))) (\<lambda>_.
        bnd (upd (fds.more_update (\<lambda>v. v\<lparr>port := atoi (argv ! 3)\<rparr>))) (\<lambda>_.
        bnd (new_object 16) (\<lambda>remote.
        bnd (new_object 4) (\<lambda>rport.
        bnd (taskcreate fn_sleeptest 0 32768) (\<lambda>_.
        bnd (netannounce 1 None (atoi (argv ! 1))) (\<lambda>fd.
        if sint fd < 0 then
          bnd (get errno) (\<lambda>e.
          bnd (report (''cannot announce on tcp port %d: %s'' @ newline) [Num (atoi (argv ! 1)), Error e]) (\<lambda>_.
          taskexitall 1))
        else bnd (fdnoblock fd) (\<lambda>_. accept_all k fd remote rport))))))))"

definition proxytask :: "uint \<Rightarrow> (proxy, unit) prog" where
  "proxytask arg =
     (let fd = arg in
     bnd (get fds.more) (\<lambda>v.
     bnd (netdial 1 (server v) (port v)) (\<lambda>remotefd.
     if sint remotefd < 0 then bnd (sys_call (Close fd)) (\<lambda>_. ret ())
     else
       bnd (get fds.more) (\<lambda>v.
       bnd (report (''connected to %s:%d'' @ newline)
          [Txt (case server v of None \<Rightarrow> [] | Some host \<Rightarrow> host), Num (port v)]) (\<lambda>_.
       bnd (mkfd2 fd remotefd) (\<lambda>a.
       bnd (taskcreate fn_rwtask (of_nat a) 32768) (\<lambda>_.
       bnd (mkfd2 remotefd fd) (\<lambda>b.
       bnd (taskcreate fn_rwtask (of_nat b) 32768) (\<lambda>_.
       ret ())))))))))"

text \<open>\<open>while ((n = fdread(rfd, buf, sizeof buf)) > 0) fdwrite(wfd, buf, n);\<close>\<close>

primrec copy_all :: "nat \<Rightarrow> nat \<Rightarrow> cint \<Rightarrow> cint \<Rightarrow> nat \<Rightarrow> (proxy, unit) prog" where
  "copy_all 0 w rfd wfd buf = halt NoFuel"
| "copy_all (Suc k) w rfd wfd buf =
     bnd (fdread w rfd (Some (Object buf)) 2048) (\<lambda>n.
     if 0 < sint n then
       bnd (fdwrite w wfd (Some (Object buf)) n) (\<lambda>_.
       copy_all k w rfd wfd buf)
     else ret ())"

definition rwtask :: "nat \<Rightarrow> nat \<Rightarrow> uint \<Rightarrow> (proxy, unit) prog" where
  "rwtask k w arg =
     (let a = unat arg in
     bnd (new_object 2048) (\<lambda>buf.
     bnd (load_int a 0) (\<lambda>rfd.
     bnd (load_int a 1) (\<lambda>wfd.
     bnd (free a) (\<lambda>_.
     bnd (copy_all k w rfd wfd buf) (\<lambda>_.
     bnd (sys_call (Shutdown wfd 1)) (\<lambda>_.
     bnd (sys_call (Close rfd)) (\<lambda>_.
     ret ()))))))))"

definition tcpproxy_code :: "nat \<Rightarrow> nat \<Rightarrow> proxy code" where
  "tcpproxy_code k w fn arg =
     (if fn = fn_fdtask then fdtask k
      else if fn = fn_sleeptest then sleeptest k
      else if fn = fn_proxytask then proxytask arg
      else if fn = fn_rwtask then rwtask k w arg
      else ret ())"

section \<open>Reading into the buffer\<close>

text \<open>
  Since the state \<open>o1\<close> the bytes \<open>x\<close> were read from one descriptor and \<open>y\<close> written to the other; the
  buffer \<open>p\<close> has the length \<open>l\<close>.
\<close>

definition relays :: "kern \<Rightarrow> cint \<Rightarrow> cint \<Rightarrow> obj \<Rightarrow> nat \<Rightarrow> event list \<Rightarrow> uchar list \<Rightarrow> uchar list \<Rightarrow> 'z sys_scheme
    \<Rightarrow> bool" where
  "relays K rfd wfd p l es x y s \<longleftrightarrow>
     (\<exists>bs. umem s p = Some bs \<and> length bs = l) \<and> kernel s = K \<and>
     received rfd (trace s) = received rfd es @ x \<and> sent wfd (trace s) = sent wfd es @ y"

text \<open>Some read of the descriptor may fail because nothing is there yet.\<close>

definition reads_block :: "kern \<Rightarrow> cint \<Rightarrow> bool" where
  "reads_block K fd \<longleftrightarrow> (\<exists>h n. k_read K h fd n = Inl EAGAIN)"

lemma relays_rely: "relays K rfd wfd p l es x y s \<Longrightarrow> watch_rely (received rfd) wfd p s s' \<Longrightarrow> relays K rfd wfd p l es x y s'"
  by (simp add: relays_def watch_rely_def stream_rely_def)

lemma relays_outside: "relays K rfd wfd p l es x y s \<Longrightarrow> outside_fd s' = outside_fd s \<Longrightarrow> relays K rfd wfd p l es x y s'"
  by (simp add: relays_def outside_fd_def)

lemma length_overwrite_start: "length bs \<le> length xs \<Longrightarrow> length (overwrite 0 bs xs) = length xs"
  by (simp add: overwrite_def)

text \<open>A read that brought \<open>zs\<close>.\<close>

definition brought :: "kern \<Rightarrow> cint \<Rightarrow> cint \<Rightarrow> obj \<Rightarrow> nat \<Rightarrow> event list \<Rightarrow> uchar list \<Rightarrow> cint \<Rightarrow> 'z sys_scheme \<Rightarrow> bool" where
  "brought K rfd wfd p l es x m s \<longleftrightarrow>
     (\<exists>zs bs. m = of_nat (length zs) \<and> length zs \<le> l \<and> relays K rfd wfd p l es (x @ zs) x s \<and>
        umem s p = Some bs \<and> take (length zs) bs = zs)"

lemma sys_read_relays:
  assumes s: "relays K rfd wfd p l es x x s" and K: "kern_ok K" and n: "unat n = l"
  shows "runs (sys_read rfd (Some p) n) s (\<lambda>m s'.
    brought K rfd wfd p l es x m s' \<or>
    m = - 1 \<and> relays K rfd wfd p l es x x s' \<and> (errno s' = EAGAIN \<longrightarrow> reads_block K rfd))"
proof -
  obtain bs where u: "umem s p = Some bs" "length bs = l" "kernel s = K" "received rfd (trace s) = received rfd es @ x"
      "sent wfd (trace s) = sent wfd es @ x"
    using s by (auto simp: relays_def)
  show ?thesis
  proof (cases "k_read K (trace s) rfd n")
    case (Inl e)
    then show ?thesis
      using u by (auto simp: sys_read_def runs_bnd failed_def relays_def reads_block_def)
  next
    case (Inr zs)
    have zs: "length zs \<le> l" using K Inr n unfolding kern_ok_def by metis
    then show ?thesis
      using u Inr
      by (auto simp: sys_read_def runs_bnd ref_def relays_def brought_def length_overwrite_start)
        (auto simp: overwrite_def)
  qed
qed

lemma fdread_relays:
  fixes s s0 :: "'z fds_scheme"
  assumes K: "kern_ok K" and n: "unat n = l" "l < 2 ^ 31"
    and s: "relays K rfd wfd p l es x x s"
    and E: "\<And>e. reads_block K rfd \<Longrightarrow> E e" and fuel: "w = 0 \<Longrightarrow> E NoFuel"
    and G: "\<And>s0 s1. relays K rfd wfd p l es x x s1 \<Longrightarrow> G s0 s1"
  shows "safe (watch_rely (received rfd) wfd p) G E
    (\<lambda>_ m s'. brought K rfd wfd p l es x m s' \<or> m = - 1 \<and> relays K rfd wfd p l es x x s')
    (fdread w rfd (Some p) n s) s0"
  using s fuel
proof (induction w arbitrary: s s0)
  case 0
  then show ?case by (simp add: halt_def)
next
  case (Suc w s s0)
  let ?Q = "\<lambda>m s'. brought K rfd wfd p l es x m s' \<or> m = - 1 \<and> relays K rfd wfd p l es x x s'"
  let ?next = "\<lambda>m. bnd (again m) (\<lambda>b. if b then bnd (fdwait rfd (CHR ''r'')) (\<lambda>_. fdread w rfd (Some p) n)
    else ret m) :: ('z fds_scheme, cint) prog"
  show ?case
    unfolding fdread.simps
  proof (rule safe_runs [OF sys_read_relays [OF Suc.prems(1) K n(1)]], elim disjE conjE)
    fix m :: cint and s' :: "'z fds_scheme"
    assume b: "brought K rfd wfd p l es x m s'"
    then have "0 \<le> sint m" using n(2) of_nat_int unfolding brought_def by (metis le_less_trans)
    then have "?next m s' = Ret m s'" by (simp add: again_def bnd_def get_def ret_def)
    then show "safe (watch_rely (received rfd) wfd p) G E (\<lambda>_. ?Q) (?next m s') s0" using b by simp
  next
    fix m :: cint and s' :: "'z fds_scheme"
    assume m: "m = - 1" "relays K rfd wfd p l es x x s'" and e: "errno s' = EAGAIN \<longrightarrow> reads_block K rfd"
    show "safe (watch_rely (received rfd) wfd p) G E (\<lambda>_. ?Q) (?next m s') s0"
    proof (cases "errno s' = EAGAIN")
      case True
      then have nx: "?next m s' = bnd (fdwait rfd (CHR ''r'')) (\<lambda>_. fdread w rfd (Some p) n) s'"
        using m(1) by (simp add: again_def bnd_def [of "get _"] bnd_def [of "bnd _ _"] get_def ret_def)
      have b: "reads_block K rfd" using True e by simp
      show ?thesis
        unfolding nx
      proof (rule safe_fdwait)
        show "G s0 s1" if "outside_fd s1 = outside_fd s'" for s1 :: "'z fds_scheme"
          by (rule G [OF relays_outside [OF m(2) that]])
        show "E e" for e by (rule E [OF b])
        show "safe (watch_rely (received rfd) wfd p) G E (\<lambda>_. ?Q) (fdread w rfd (Some p) n s2) s2"
          if "outside_fd s1 = outside_fd s'" "watch_rely (received rfd) wfd p s1 s2" for s1 s2 :: "'z fds_scheme"
          by (rule Suc.IH [OF relays_rely [OF relays_outside [OF m(2) that(1)] that(2)]]) (rule E [OF b])
      qed
    next
      case False
      then have "?next m s' = Ret m s'" using m by (simp add: again_def bnd_def get_def ret_def)
      then show ?thesis using m by simp
    qed
  qed
qed

section \<open>Writing what was read\<close>

lemma fdwrite_relays:
  fixes s s0 :: "'z fds_scheme"
  assumes K: "kern_ok K" "\<not> lossy K wfd" and l: "l < 2 ^ 31"
    and s: "brought K rfd wfd p l es x m s"
    and E: "\<And>e. may_block K wfd \<Longrightarrow> E e" and fuel: "w = 0 \<Longrightarrow> E NoFuel"
    and G: "\<And>s0 s1 y z. relays K rfd wfd p l es (y @ z) y s1 \<Longrightarrow> G s0 s1"
  shows "safe (watch_rely (received rfd) wfd p) G E
    (\<lambda>_ _ s'. \<exists>x. relays K rfd wfd p l es x x s') (fdwrite w wfd (Some p) m s) s0"
proof -
  obtain zs bs where m: "m = of_nat (length zs)" "length zs \<le> l" and z: "umem s p = Some bs" "take (length zs) bs = zs"
    and r: "relays K rfd wfd p l es (x @ zs) x s"
    using s unfolding brought_def by blast
  have word: "0 \<le> sint m" "unat m = length zs" using of_nat_int [of "length zs"] m l by simp_all
  have len: "length bs = l" using r z(1) by (simp add: relays_def)
  let ?v = "received rfd es @ x @ zs" and ?old = "sent wfd es @ x"
  let ?S = "sends (received rfd) ?v wfd p bs K ?old :: nat \<Rightarrow> 'z fds_scheme \<Rightarrow> bool"
  have start: "?S (unat (0 :: cint)) s" using r z(1) by (simp add: sends_def relays_def)
  have part: "relays K rfd wfd p l es (x @ zs) (x @ take k zs) s1" if "?S k s1" "k \<le> length zs" for k s1
    using that z(2) len by (auto simp: sends_def relays_def take_take min_def) (metis min.absorb1 take_take)
  show ?thesis
    unfolding fdwrite_def
  proof (rule safe_mono [OF write_all_sends [OF K(1) _ word(1) _ _ _ _ start]])
    show "G s0 s1" if "?S k s1" "k \<le> unat m" for s0 s1 k
      using G [of "x @ take k zs" "drop k zs" s1] part [OF that(1)] that(2) word(2) by simp
    fix s0 s' :: "'z fds_scheme" and i :: cint
    assume "\<exists>k \<le> unat m. ?S k s' \<and> (0 \<le> sint i \<longrightarrow> unat i = k) \<and> (sint i < 0 \<longrightarrow> i = - 1 \<and> errno s' \<noteq> EAGAIN) \<and>
       (sint i < 0 \<or> k < unat m \<longrightarrow> lossy K wfd)"
    then have "?S (length zs) s'" using K(2) word(2) by (metis le_neq_implies_less)
    from part [OF this] show "\<exists>x. relays K rfd wfd p l es x x s'" by auto
  qed (use m(2) word len E fuel in simp_all)
qed

section \<open>One direction of a connection\<close>

lemma copy_all_relays:
  fixes s s0 :: "proxy"
  assumes K: "kern_ok K" "\<not> lossy K wfd" and l: "l = 2048"
    and s: "relays K rfd wfd (Object p) l es x x s"
    and E: "\<And>e. may_block K wfd \<or> reads_block K rfd \<or> e = NoFuel \<Longrightarrow> E e"
    and G: "\<And>s0 s1 y z. relays K rfd wfd (Object p) l es (y @ z) y s1 \<Longrightarrow> G s0 s1"
  shows "safe (watch_rely (received rfd) wfd (Object p)) G E
    (\<lambda>_ _ s'. \<exists>x. relays K rfd wfd (Object p) l es x x s') (copy_all k w rfd wfd p s) s0"
  using s
proof (induction k arbitrary: x s s0)
  case 0
  then show ?case by (simp add: halt_def E)
next
  case (Suc k x s s0)
  let ?R = "watch_rely (received rfd) wfd (Object p) :: proxy \<Rightarrow> proxy \<Rightarrow> bool"
  let ?Q = "\<lambda>_ (_ :: unit) s'. \<exists>x. relays K rfd wfd (Object p) l es x x s'"
  have n: "unat (2048 :: cint) = l" "l < 2 ^ 31" by (simp_all add: l)
  have Gx: "G s0 s1" if "relays K rfd wfd (Object p) l es x x s1" for s0 s1
    using G [of x "[]"] that by simp
  show ?case
    unfolding copy_all.simps
  proof (rule safe_bnd, rule safe_mono [OF fdread_relays [OF K(1) n Suc.prems]])
    fix s0 s' :: proxy and m :: cint
    let ?next = "if 0 < sint m then bnd (fdwrite w wfd (Some (Object p)) m) (\<lambda>_. copy_all k w rfd wfd p) else ret ()"
    assume m: "brought K rfd wfd (Object p) l es x m s' \<or> m = - 1 \<and> relays K rfd wfd (Object p) l es x x s'"
    show "safe ?R G E ?Q (?next s') s0"
    proof (cases "0 < sint m")
      case True
      then have b: "brought K rfd wfd (Object p) l es x m s'" using m by auto
      have "safe ?R G E ?Q (bnd (fdwrite w wfd (Some (Object p)) m) (\<lambda>_. copy_all k w rfd wfd p) s') s0"
      proof (rule safe_bnd, rule safe_mono [OF fdwrite_relays [OF K n(2) b]])
        show "safe ?R G E ?Q (copy_all k w rfd wfd p s'') s1"
          if "\<exists>x. relays K rfd wfd (Object p) l es x x s''" for s1 s'' :: proxy
          using that Suc.IH by blast
      qed (simp_all add: E G)
      then show ?thesis using True by simp
    next
      case False
      have "relays K rfd wfd (Object p) l es x x s'"
        using m
      proof
        assume "brought K rfd wfd (Object p) l es x m s'"
        then obtain zs where z: "m = of_nat (length zs)" "length zs \<le> l" "relays K rfd wfd (Object p) l es (x @ zs) x s'"
          unfolding brought_def by blast
        then have "0 \<le> sint m" "unat m = length zs" using of_nat_int [of "length zs"] n(2) by simp_all
        moreover from this False have "unat m = 0" using sint_unat32(2) [of m] by simp
        ultimately show ?thesis using z(3) by simp
      qed simp
      then show ?thesis using False by (auto simp: ret_def)
    qed
  qed (simp_all add: E Gx)
qed

text \<open>What \<open>proxytask\<close> makes for each direction.\<close>

lemma mkfd2_makes:
  assumes "alloc_ok s (allocs s)" and "ubrk s < 2 ^ 32"
  shows "runs (mkfd2 fd1 fd2) s (\<lambda>a s'.
    a = ubrk s \<and> umem s' = (umem s)(Object a \<mapsto> bytes_of fd1 @ bytes_of fd2) \<and> ubrk s' = Suc (ubrk s) \<and>
    kernel s' = kernel s \<and> trace s' = trace s)"
proof -
  let ?a = "ubrk s"
  let ?s1 = "s\<lparr>allocs := Suc (allocs s), umem := (umem s)(Object ?a \<mapsto> map (junk s) [0..<8]), ubrk := Suc ?a\<rparr>"
  have new: "malloc 8 s = Ret (Some ?a) ?s1"
    using assms by (simp add: malloc_def try_alloc_def new_object_def bnd_def sem_simps)
  obtain xs where xs: "drop 4 (map (junk s) [0..<8]) = xs" "length xs = 4" by simp
  let ?s2 = "?s1\<lparr>umem := (umem ?s1)(Object ?a \<mapsto> bytes_of fd1 @ xs)\<rparr>"
  have one: "store_int ?a 0 fd1 ?s1 = Ret () ?s2"
    using store_int_at [of ?s1 ?a "map (junk s) [0..<8]" 0 fd1] xs(1) by (auto simp: runs_def)
  have "runs (store_int ?a 1 fd2) ?s2 (\<lambda>_ s'. s' = ?s2\<lparr>umem := (umem ?s2)(Object ?a \<mapsto> bytes_of fd1 @ bytes_of fd2)\<rparr>)"
    using store_int_at [of ?s2 ?a "bytes_of fd1 @ xs" 1 fd2] xs(2) by (simp add: runs_def)
  then show ?thesis
    unfolding mkfd2_def using new one by (auto simp: runs_def ret_def)
qed

text \<open>The descriptors come out of the array \<open>mkfd2\<close> made; the buffer is a new object.\<close>

lemma rwtask_starts:
  assumes "umem s (Object (unat arg)) = Some (bytes_of rfd @ bytes_of wfd)" and "unat arg \<noteq> ubrk s"
  obtains s1 where "rwtask k w arg s = bnd (copy_all k w rfd wfd (ubrk s)) (\<lambda>_.
      bnd (sys_call (Shutdown wfd 1)) (\<lambda>_. bnd (sys_call (Close rfd)) (\<lambda>_. ret ()))) s1"
    and "relays (kernel s) rfd wfd (Object (ubrk s)) 2048 (trace s) [] [] s1"
proof
  let ?s0 = "s\<lparr>umem := (umem s)(Object (ubrk s) \<mapsto> map (junk s) [0..<2048]), ubrk := Suc (ubrk s)\<rparr>"
  let ?s1 = "?s0\<lparr>umem := (umem ?s0)(Object (unat arg) := None)\<rparr>"
  have u: "umem ?s0 (Object (unat arg)) = Some (bytes_of rfd @ bytes_of wfd)" using assms by simp
  have "runs (load_int (unat arg) 0) ?s0 (\<lambda>v s'. v = rfd \<and> s' = ?s0)"
    and "runs (load_int (unat arg) 1) ?s0 (\<lambda>v s'. v = wfd \<and> s' = ?s0)"
    by (rule runs_mono [OF load_int_at [OF u]]; simp add: of_bytes_of)+
  then have "load_int (unat arg) 0 ?s0 = Ret rfd ?s0" "load_int (unat arg) 1 ?s0 = Ret wfd ?s0"
    by (auto simp: runs_def)
  moreover have "new_object 2048 s = Ret (ubrk s) ?s0" by (simp add: new_object_def bnd_def sem_simps)
  moreover have "free (unat arg) ?s0 = Ret () ?s1" using u by (simp add: free_def)
  ultimately show "rwtask k w arg s = bnd (copy_all k w rfd wfd (ubrk s)) (\<lambda>_.
      bnd (sys_call (Shutdown wfd 1)) (\<lambda>_. bnd (sys_call (Close rfd)) (\<lambda>_. ret ()))) ?s1"
    unfolding rwtask_def Let_def by simp
  show "relays (kernel s) rfd wfd (Object (ubrk s)) 2048 (trace s) [] [] ?s1"
    using assms(2) by (simp add: relays_def)
qed

lemma sys_call_traces:
  "runs (sys_call c) s (\<lambda>_ s'. (\<exists>r. trace s' = ECall c r # trace s))"
  by (auto simp: sys_call_def runs_bnd split: sum.split)

lemma traces_call [simp]:
  "received fd (ECall c r # es) = received fd es" "sent fd (ECall c r # es) = sent fd es"
  by simp_all

text \<open>After the loop: one end is shut down, the other closed.\<close>

lemma ends_direction:
  assumes "relays K rfd wfd p l es x x s"
  shows "runs (bnd (sys_call (Shutdown wfd 1)) (\<lambda>_. bnd (sys_call (Close rfd)) (\<lambda>_. ret ()))) s (\<lambda>_ s'. \<exists>r r' h.
    received rfd h = received rfd es @ x \<and> sent wfd h = sent wfd es @ x \<and>
    trace s' = ECall (Close rfd) r # ECall (Shutdown wfd 1) r' # h)"
  unfolding runs_bnd
proof (rule runs_mono [OF sys_call_traces])
  fix a :: cint and s1 :: "'a sys_scheme"
  assume "\<exists>r. trace s1 = ECall (Shutdown wfd 1) r # trace s"
  then obtain r where t: "trace s1 = ECall (Shutdown wfd 1) r # trace s" ..
  show "runs (sys_call (Close rfd)) s1 (\<lambda>a s'. runs (ret ()) s' (\<lambda>_ s'. \<exists>r r' h.
      received rfd h = received rfd es @ x \<and> sent wfd h = sent wfd es @ x \<and>
      trace s' = ECall (Close rfd) r # ECall (Shutdown wfd 1) r' # h))"
    by (rule runs_mono [OF sys_call_traces]) (use t assms in \<open>auto simp: relays_def\<close>)
qed

section \<open>The property\<close>


text \<open>A kernel with three bytes to read on descriptor 5, which takes all it is given.\<close>

definition feed_kernel :: kern where
  "feed_kernel = mute_kernel\<lparr>
     k_read := (\<lambda>h fd n. Inr (if received 5 h = [] then take (unat n) [1, 2, 3] else [])),
     k_write := (\<lambda>_ _ bs. Inr (length bs))\<rparr>"

definition feed :: proxy where
  "feed = (start \<lparr>server = None, port = 0, stderr = []\<rparr>)
     \<lparr>umem := [Object 0 \<mapsto> bytes_of 5 @ bytes_of 6], ubrk := 1, kernel := feed_kernel\<rparr>"

lemma feed_simps:
  "kernel feed = feed_kernel" "trace feed = []" "umem feed = [Object 0 \<mapsto> bytes_of 5 @ bytes_of 6]" "ubrk feed = 1"
  by (simp_all add: feed_def start_def)

text \<open>The three bytes are read and written at once; the next read finds the end.\<close>

definition feeding :: "nat \<Rightarrow> uchar list \<Rightarrow> proxy \<Rightarrow> bool" where
  "feeding p xs s \<longleftrightarrow> kernel s = feed_kernel \<and> received 5 (trace s) = xs \<and>
     (\<exists>bs. umem s (Object p) = Some bs \<and> length bs = 2048)"

lemma feed_read:
  assumes "feeding p xs s" and "xs = [] \<or> xs = [1, 2, 3]"
  shows "runs (fdread 1 5 (Some (Object p)) 2048) s
    (\<lambda>m s'. m = (if xs = [] then 3 else 0) \<and> feeding p [1, 2, 3] s')"
  using assms
  by (auto simp: feeding_def feed_kernel_def sys_read_def runs_bnd ref_def again_def length_overwrite_start)

lemma feed_write:
  assumes "feeding p xs s"
  shows "runs (fdwrite 1 6 (Some (Object p)) 3) s (\<lambda>_. feeding p xs)"
proof -
  have some: "runs (write_some 1 6 (Some (Object p)) 0 3) s (\<lambda>m s'. m = 3 \<and> feeding p xs s')"
    using assms
    by (auto simp: feeding_def feed_kernel_def sys_write_def write_bytes_def runs_bnd ref_def again_def)
  have pos: "sint (0 :: cint) < sint (3 :: cint)" by simp
  have "runs (write_all (Suc (Suc k)) 1 6 (Some (Object p)) 0 3) s (\<lambda>_. feeding p xs)" for k
    by (subst write_all.simps) (simp only: pos if_True runs_bnd, rule runs_mono [OF some], auto)
  moreover have "Suc (unat (3 :: cint)) = Suc (Suc 2)" by simp
  ultimately show ?thesis unfolding fdwrite_def by (simp only:)
qed

lemma feed_copies:
  assumes "feeding p [] s"
  shows "runs (copy_all 2 1 5 6 p) s (\<lambda>_. feeding p [1, 2, 3])"
proof -
  have last: "runs (copy_all 1 1 5 6 p) s' (\<lambda>_. feeding p [1, 2, 3])" if "feeding p [1, 2, 3] s'" for s'
    unfolding One_nat_def copy_all.simps runs_bnd
    by (rule runs_mono [OF feed_read [OF that, unfolded One_nat_def]]) simp_all
  have "copy_all 2 1 5 6 p = copy_all (Suc 1) 1 5 6 p" by (simp add: numeral_2_eq_2)
  then show ?thesis
    using runs_mono [OF feed_write] last
    by (simp only: copy_all.simps runs_bnd) (rule runs_mono [OF feed_read [OF assms]], auto simp: runs_bnd)
qed

lemma feed_runs: "runs (rwtask 2 1 0) feed (\<lambda>_ s'. received 5 (trace s') = [1, 2, 3])"
proof -
  obtain s1 where e: "rwtask 2 1 0 feed = bnd (copy_all 2 1 5 6 1) (\<lambda>_.
      bnd (sys_call (Shutdown 6 1)) (\<lambda>_. bnd (sys_call (Close 5)) (\<lambda>_. ret ()))) s1"
    and r: "relays feed_kernel 5 6 (Object 1) 2048 [] [] [] s1"
    using rwtask_starts [of feed 0 5 6 2 1] by (auto simp: feed_simps)
  have "feeding 1 [] s1" using r by (simp add: relays_def feeding_def)
  then have "runs (bnd (copy_all 2 1 5 6 1) (\<lambda>_. bnd (sys_call (Shutdown 6 1)) (\<lambda>_. bnd (sys_call (Close 5)) (\<lambda>_. ret ())))) s1
      (\<lambda>_ s'. received 5 (trace s') = [1, 2, 3])"
    unfolding runs_bnd by (intro runs_mono [OF feed_copies] runs_mono [OF sys_call_traces]) (auto simp: feeding_def)
  then show ?thesis unfolding runs_def e .
qed


end
