(* ===== verification/Primes.thy ===== *)
theory Primes
  imports Program
begin

text \<open>
  primes.c, a sieve with one task for each prime number, as a program over the library, and what
  \<open>program_safe\<close> says of it.
\<close>

section \<open>The program\<close>

text \<open>
  The variable \<open>goal\<close> and what \<open>printf\<close> wrote, a format and a number for each line. \<open>quiet\<close> and
  \<open>buffer\<close> are never assigned.
\<close>

record primes_vars =
  goal :: cint
  printed :: "(string \<times> cint) list"

type_synonym primes = "primes_vars fds_scheme"

definition quiet :: cint where "quiet = 0"

definition buffer :: uint where "buffer = 0"

definition fn_primetask :: nat where
  "fn_primetask = 2"

definition own :: "(primes_vars \<Rightarrow> primes_vars) \<Rightarrow> (primes, unit) prog" where
  "own h = upd (fds.more_update h)"

definition print_line :: "string \<Rightarrow> cint \<Rightarrow> (primes, unit) prog" where
  "print_line fmt p = own (\<lambda>v. v\<lparr>printed := printed v @ [(fmt, p)]\<rparr>)"

text \<open>
  The loop of \<open>primetask\<close>: \<open>idiv\<close> traps on a divisor 0 and on the quotient \<open>2 ^ 31\<close>. The two
  loops of the file never return; they have fuel.
\<close>

primrec sieve :: "nat \<Rightarrow> cptr \<Rightarrow> cptr \<Rightarrow> cint \<Rightarrow> (primes, unit) prog" where
  "sieve 0 c nc p = halt NoFuel"
| "sieve (Suc k) c nc p =
     bnd (chanrecvul c) (\<lambda>i.
     if p = 0 \<or> sint i = - (2 ^ 31) \<and> sint p = - 1 then halt Trap
     else if sint i mod sint p \<noteq> 0 then bnd (chansendul nc i) (\<lambda>_. sieve k c nc p)
     else sieve k c nc p)"

definition primetask :: "nat \<Rightarrow> uint \<Rightarrow> (primes, unit) prog" where
  "primetask k arg =
     (let c = unat arg in
     bnd (chanrecvul c) (\<lambda>p.
     bnd (get fds.more) (\<lambda>v.
     if sint (goal v) < sint p then taskexitall 0
     else
       bnd (whenp (quiet = 0) (print_line ''%d'' p)) (\<lambda>_.
       bnd (chancreate 4 buffer) (\<lambda>nc.
       bnd (taskcreate fn_primetask (of_nat nc) 32768) (\<lambda>_.
       sieve k c nc p))))))"

primrec numbers :: "nat \<Rightarrow> cptr \<Rightarrow> cint \<Rightarrow> (primes, unit) prog" where
  "numbers 0 c i = halt NoFuel"
| "numbers (Suc k) c i = bnd (chansendul c i) (\<lambda>_. numbers k c (i + 1))"

text \<open>\<open>arg\<close> is what \<open>atoi\<close> makes of \<open>argv[1]\<close>, if the program has an argument.\<close>

definition primes_main :: "nat \<Rightarrow> cint option \<Rightarrow> (primes, unit) prog" where
  "primes_main k arg =
     bnd (own (\<lambda>v. v\<lparr>goal := (case arg of Some n \<Rightarrow> n | None \<Rightarrow> 100)\<rparr>)) (\<lambda>_.
     bnd (get fds.more) (\<lambda>v.
     bnd (print_line ''goal=%d'' (goal v)) (\<lambda>_.
     bnd (chancreate 4 buffer) (\<lambda>c.
     bnd (taskcreate fn_primetask (of_nat c) 32768) (\<lambda>_.
     numbers k c 2)))))"

definition primes_code :: "nat \<Rightarrow> primes code" where
  "primes_code k fn arg =
     (if fn = fn_fdtask then fdtask k else if fn = fn_primetask then primetask k arg else ret ())"

section \<open>It is well typed\<close>

text \<open>The argument of \<open>primetask\<close> is a channel whose elements have 4 bytes.\<close>

definition primes_chans :: "nat \<Rightarrow> uint \<Rightarrow> cptr \<Rightarrow> uint option" where
  "primes_chans fn arg = (if fn = fn_primetask then [unat arg \<mapsto> 4] else Map.empty)"

abbreviation (input) no_objects :: "nat \<Rightarrow> uint \<Rightarrow> nat \<Rightarrow> nat option" where
  "no_objects \<equiv> \<lambda>_ _. Map.empty"

text \<open>There is no channel in the variables, and any value of them will do.\<close>

abbreviation (input) no_globals :: "'z globals" where
  "no_globals \<equiv> \<lambda>_. Some Map.empty"

abbreviation (input) primes_client :: "(cptr \<Rightarrow> uint option) \<Rightarrow> (primes, unit) prog \<Rightarrow> bool" where
  "primes_client C \<equiv> client no_globals primes_chans no_objects True C Map.empty"

lemma client_own: "(\<And>u. client no_globals CF MF True C M (f u)) \<Longrightarrow> client no_globals CF MF k C M (bnd (own h) f)"
  unfolding own_def by (rule client.set) (simp_all add: sets_up_def)

lemma client_look: "(\<And>v. client no_globals CF MF k C M (f v)) \<Longrightarrow> client no_globals CF MF k C M (bnd (get fds.more) f)"
  by (rule client.look) (cases k, simp_all add: in_globals_def)

lemma client_print: "(\<And>u. primes_client C (f u)) \<Longrightarrow> primes_client C (bnd (print_line fmt p) f)"
  unfolding print_line_def by (rule client_own)

lemma sieve_client: "C c = Some 4 \<Longrightarrow> C nc = Some 4 \<Longrightarrow> primes_client C (sieve k c nc p)"
  by (induction k) (auto intro!: client.word word_call.intros client.ends word_sized_4)

lemma numbers_client: "C c = Some 4 \<Longrightarrow> primes_client C (numbers k c i)"
  by (induction k arbitrary: i) (auto intro!: client.word word_call.intros client.ends word_sized_4)

lemma channel_argument:
  assumes "c < 2 ^ 32" and "C c = Some 4"
  shows "primes_chans fn_primetask (of_nat c) \<subseteq>\<^sub>m C"
proof -
  have "unat (of_nat c :: uint) = c" using assms(1) by (simp add: unat_of_nat take_bit_nat_eq_self)
  then show ?thesis using assms(2) by (simp add: primes_chans_def map_le_def)
qed

lemma create_task_client:
  assumes "c < 2 ^ 32" and "C c = Some 4" and "\<And>w. primes_client C (f w)"
  shows "primes_client C (bnd (taskcreate fn_primetask (of_nat c) n) f)"
  using assms by (auto intro!: client.word word_call.intros channel_argument)

lemma create_chan_client:
  assumes "\<And>c. c < 2 ^ 32 \<Longrightarrow> primes_client (C(c \<mapsto> 4)) (f c)"
  shows "primes_client C (bnd (chancreate 4 buffer) f)"
  using assms by (intro client.create) (simp_all add: buffer_def sizeof_Channel_def)

lemma primetask_client: "primes_client (primes_chans fn_primetask arg) (primetask k arg)"
proof -
  let ?C = "primes_chans fn_primetask arg" and ?c = "unat arg"
  have c: "?C ?c = Some 4" by (simp add: primes_chans_def)
  have rest: "primes_client ?C (bnd (chancreate 4 buffer) (\<lambda>nc.
      bnd (taskcreate fn_primetask (of_nat nc) 32768) (\<lambda>_. sieve k ?c nc p)))" for p
    using c by (intro create_chan_client create_task_client sieve_client) auto
  show ?thesis
    unfolding primetask_def Let_def
    by (intro client.word word_call.intros word_sized_4 c client_look)
      (auto simp: whenp_def quiet_def intro!: client_exit client_print rest)
qed

lemma primes_well_typed: "well_typed no_globals primes_chans no_objects (primes_main k arg) (primes_code k)"
  unfolding well_typed_def
proof (intro conjI allI impI)
  fix fn :: nat and arg' :: uint
  show "\<exists>j. primes_code k fn_fdtask arg' = fdtask j" by (auto simp: primes_code_def)
  show "client no_globals primes_chans no_objects False (primes_chans 0 arg') Map.empty (primes_main k arg)"
    unfolding primes_main_def
    by (intro client_own client_look client_print create_chan_client create_task_client numbers_client) auto
  assume "fn \<noteq> 0" "fn \<noteq> fn_fdtask"
  then show "primes_client (primes_chans fn arg') (primes_code k fn arg')"
    using primetask_client [of arg' k] by (auto simp: primes_code_def intro: client.returns)
qed

section \<open>It is safe\<close>

text \<open>
  C20: \<open>primes\<close>, with any argument, under any kernel, however long it runs, never touches memory
  that is not a live object and leaves the library's invariant in place: its tasks pass the
  channel to their successors as an integer and no number of tasks breaks that.
\<close>

theorem primes_safe:
  assumes "fresh_process s" and "kern_ok (kernel s)"
  shows "safe_end no_globals primes_chans no_objects (main (primes_main k arg) (primes_code k) stack n s)"
proof (rule main_safe [OF assms])
  show "env_ok (primes_chans 0 0) Map.empty s" by (simp add: env_ok_def primes_chans_def fn_primetask_def)
qed (rule well_typed_code [OF primes_well_typed])

theorem primes_safe_witness:
  "safe_end no_globals primes_chans no_objects
     (main (primes_main 50 (Some 20)) (primes_code 50) 0 300 (start \<lparr>goal = 0, printed = []\<rparr>))"
  by (rule primes_safe [OF start_fresh start_kernel])

end
