(* ===== verification/Testdelay.thy ===== *)
theory Testdelay
  imports Program
begin

text \<open>
  testdelay.c: tasks that wait for different times tell the main task over a channel in a global
  variable when they are done.
\<close>

section \<open>The program\<close>

text \<open>The global variable \<open>c\<close>, a null pointer until it is assigned, and what was printed.\<close>

record delay_vars =
  done_chan :: "cptr option"
  printed_lines :: screen

type_synonym delays = "delay_vars fds_scheme"

definition fn_delaytask :: nat where
  "fn_delaytask = 2"

definition print_text :: "string \<Rightarrow> shown list \<Rightarrow> (delays, unit) prog" where
  "print_text fmt xs = upd (fds.more_update (\<lambda>v. v\<lparr>printed_lines := printed_lines v @ [(fmt, xs)]\<rparr>))"

definition global_chan :: "(cptr \<Rightarrow> (delays, 'a) prog) \<Rightarrow> (delays, 'a) prog" where
  "global_chan f = bnd (get fds.more) (\<lambda>v. case done_chan v of None \<Rightarrow> halt BadMem | Some c \<Rightarrow> f c)"

definition delaytask :: "uint \<Rightarrow> (delays, unit) prog" where
  "delaytask arg =
     bnd (taskdelay arg) (\<lambda>_.
     bnd (print_text (''awake after %d ms'' @ [CHR 0x0A]) [Num arg]) (\<lambda>_.
     global_chan (\<lambda>c. bnd (chansendul c 0) (\<lambda>_. ret ()))))"

text \<open>\<open>argv\<close> has the name of the program first; \<open>atoi\<close> is the C library's.\<close>

primrec start_delays :: "(string \<Rightarrow> cint) \<Rightarrow> string list \<Rightarrow> (delays, unit) prog \<Rightarrow> (delays, unit) prog" where
  "start_delays atoi [] rest = rest"
| "start_delays atoi (a # as) rest =
     bnd (print_text ''x'' []) (\<lambda>_.
     bnd (taskcreate fn_delaytask (atoi a) 32768) (\<lambda>_.
     start_delays atoi as rest))"

primrec wait_delays :: "nat \<Rightarrow> (delays, unit) prog" where
  "wait_delays 0 = taskexitall 0"
| "wait_delays (Suc n) =
     bnd (print_text ''y'' []) (\<lambda>_.
     global_chan (\<lambda>c. bnd (chanrecvul c) (\<lambda>_. wait_delays n)))"

definition testdelay_main :: "(string \<Rightarrow> cint) \<Rightarrow> string list \<Rightarrow> (delays, unit) prog" where
  "testdelay_main atoi argv =
     bnd (chancreate 4 0) (\<lambda>c.
     bnd (upd (fds.more_update (\<lambda>v. v\<lparr>done_chan := Some c\<rparr>))) (\<lambda>_.
     start_delays atoi (tl argv) (wait_delays (length (tl argv)))))"

definition testdelay_code :: "nat \<Rightarrow> delays code" where
  "testdelay_code k fn arg =
     (if fn = fn_fdtask then fdtask k else if fn = fn_delaytask then delaytask arg else ret ())"

section \<open>It is well typed\<close>

text \<open>The variables are set up when \<open>c\<close> is assigned; its elements have 4 bytes.\<close>

definition delay_globals :: "delay_vars globals" where
  "delay_globals v = map_option (\<lambda>c. [c \<mapsto> 4]) (done_chan v)"

abbreviation (input) delay_client :: "(cptr \<Rightarrow> uint option) \<Rightarrow> (delays, unit) prog \<Rightarrow> bool" where
  "delay_client C \<equiv> client delay_globals nothing nothing True C Map.empty"

lemma print_client: "(\<And>u. delay_client C (f u)) \<Longrightarrow> delay_client C (bnd (print_text fmt xs) f)"
  unfolding print_text_def by (rule client_assign) (simp_all add: delay_globals_def)

lemma global_client:
  assumes "\<And>c C'. C' c = Some 4 \<Longrightarrow> delay_client C' (f c)"
  shows "delay_client C (global_chan f)"
  unfolding global_chan_def
  by (rule client.look) (auto simp: delay_globals_def in_globals_def intro!: assms)

lemma delaytask_client: "delay_client C (delaytask arg)"
  unfolding delaytask_def
  by (intro client.word word_call.intros print_client global_client word_sized_4 client.returns)

lemma wait_client: "delay_client C (wait_delays n)"
  by (induction n arbitrary: C)
    (auto intro!: client_exit print_client global_client client.word word_call.intros word_sized_4)

lemma delays_client: "delay_client C rest \<Longrightarrow> delay_client C (start_delays atoi as rest)"
  by (induction "as") (auto intro!: print_client client.word word_call.intros)

lemma testdelay_well_typed: "well_typed delay_globals nothing nothing (testdelay_main atoi argv) (testdelay_code k)"
  unfolding well_typed_def
proof (intro conjI allI impI)
  fix fn :: nat and arg :: uint
  show "\<exists>j. testdelay_code k fn_fdtask arg = fdtask j" by (auto simp: testdelay_code_def)
  have "sets_up delay_globals [c \<mapsto> 4] False True (\<lambda>v. v\<lparr>done_chan := Some c\<rparr>)" for c
    by (auto simp: sets_up_def delay_globals_def)
  moreover have "delay_client C (start_delays atoi as (wait_delays i))" for C "as" i
    by (intro delays_client wait_client)
  ultimately show "client delay_globals nothing nothing False Map.empty Map.empty (testdelay_main atoi argv)"
    unfolding testdelay_main_def by (intro client.create client.set) (simp_all add: sizeof_Channel_def)
  assume "fn \<noteq> 0" "fn \<noteq> fn_fdtask"
  then show "delay_client Map.empty (testdelay_code k fn arg)"
    using delaytask_client by (auto simp: testdelay_code_def intro: client.returns)
qed

section \<open>It is safe\<close>

text \<open>
  C21: \<open>testdelay\<close>, with any arguments, under any kernel, however its tasks are interleaved, never uses
  the channel in its global variable before it is there, nor any other memory that is not a live
  object, and leaves the library's invariant in place.
\<close>

theorem testdelay_safe:
  assumes "fresh_process s" and "kern_ok (kernel s)"
  shows "safe_end delay_globals nothing nothing (main (testdelay_main atoi argv) (testdelay_code k) stack n s)"
  by (rule main_safe [OF assms _ well_typed_code [OF testdelay_well_typed]]) (simp add: env_ok_def)

theorem testdelay_safe_witness:
  "safe_end delay_globals nothing nothing
     (main (testdelay_main (\<lambda>a. of_nat (length a)) [''testdelay'', ''aaa'', ''a'']) (testdelay_code 50) 0 300
        (start \<lparr>done_chan = None, printed_lines = []\<rparr>))"
  by (rule testdelay_safe [OF start_fresh start_kernel])

end
