(* ===== verification/Httpload.thy ===== *)
theory Httpload
  imports Program
begin

text \<open>
  httpload.c: tasks that fetch a page from a server over and over, into a buffer on their stacks.
\<close>

section \<open>The program\<close>

text \<open>The global variables, null pointers until they are assigned, and what was printed.\<close>

record load_vars =
  server :: "string option"
  url :: "string option"
  stderr :: screen

type_synonym loads = "load_vars fds_scheme"

definition fn_fetchtask :: nat where
  "fn_fetchtask = 2"

definition report :: "string \<Rightarrow> shown list \<Rightarrow> (loads, unit) prog" where
  "report fmt xs = upd (fds.more_update (\<lambda>v. v\<lparr>stderr := stderr v @ [(fmt, xs)]\<rparr>))"

abbreviation (input) newline :: string where
  "newline \<equiv> [CHR 0x0A]"

abbreviation (input) crlf :: string where
  "crlf \<equiv> [CHR 0x0D, CHR 0x0A]"

definition request :: "string \<Rightarrow> string \<Rightarrow> string" where
  "request path host = ''GET '' @ path @ '' HTTP/1.0'' @ crlf @ ''Host: '' @ host @ crlf @ crlf"

text \<open>
  \<open>snprintf(buf, sizeof buf, ...)\<close> of the request: a null pointer for \<open>%s\<close> is not a string.
\<close>

definition put_request :: "nat \<Rightarrow> (loads, unit) prog" where
  "put_request buf =
     bnd (get fds.more) (\<lambda>v.
     case (url v, server v) of
       (Some path, Some host) \<Rightarrow> snprintf buf 512 (request path host)
     | _ \<Rightarrow> halt BadMem)"

text \<open>\<open>while ((n = fdread(fd, buf, sizeof buf)) > 0);\<close>\<close>

primrec drain :: "nat \<Rightarrow> cint \<Rightarrow> nat \<Rightarrow> (loads, unit) prog" where
  "drain 0 fd buf = halt NoFuel"
| "drain (Suc k) fd buf =
     bnd (fdread k fd (Some (Object buf)) 512) (\<lambda>n.
     if 0 < sint n then drain k fd buf else ret ())"

primrec fetch :: "nat \<Rightarrow> nat \<Rightarrow> (loads, unit) prog" where
  "fetch 0 buf = halt NoFuel"
| "fetch (Suc k) buf =
     bnd (get fds.more) (\<lambda>v.
     bnd (netdial 1 (server v) 80) (\<lambda>fd.
     if sint fd < 0 then
       bnd (get errno) (\<lambda>e.
       bnd taskgetstate (\<lambda>st.
       bnd (get fds.more) (\<lambda>v.
       bnd (report (''dial %s: %s (%s)'' @ newline)
          [Txt (case server v of None \<Rightarrow> [] | Some host \<Rightarrow> host), Error e, Txt st]) (\<lambda>_.
       fetch k buf))))
     else
       bnd (put_request buf) (\<lambda>_.
       bnd (read_mem (Obj (Object buf)) 512) (\<lambda>bs.
       bnd (fdwrite k fd (Some (Object buf)) (of_nat (length (c_string bs)))) (\<lambda>_.
       bnd (drain k fd buf) (\<lambda>_.
       bnd (sys_call (Close fd)) (\<lambda>_.
       bnd (write_bytes 1 (c_bytes ''.'')) (\<lambda>_.
       fetch k buf))))))))"

definition fetchtask :: "nat \<Rightarrow> (loads, unit) prog" where
  "fetchtask k =
     bnd (new_object 512) (\<lambda>buf.
     bnd (report (''starting...'' @ newline) []) (\<lambda>_.
     fetch k buf))"

text \<open>\<open>while (taskyield() > 1);\<close>, and the loop that starts the tasks.\<close>

primrec yield_others :: "nat \<Rightarrow> (loads, unit) prog" where
  "yield_others 0 = halt NoFuel"
| "yield_others (Suc k) = bnd taskyield (\<lambda>n. if 1 < sint n then yield_others k else ret ())"

primrec start_fetching :: "nat \<Rightarrow> nat \<Rightarrow> (loads, unit) prog" where
  "start_fetching k 0 = ret ()"
| "start_fetching k (Suc n) =
     bnd (taskcreate fn_fetchtask 0 32768) (\<lambda>_.
     bnd (yield_others k) (\<lambda>_.
     bnd (sys_call (Sleep 1)) (\<lambda>_.
     start_fetching k n)))"

text \<open>\<open>argv\<close> has the name of the program first; \<open>atoi\<close> is the C library's.\<close>

definition httpload_main :: "nat \<Rightarrow> (string \<Rightarrow> cint) \<Rightarrow> string list \<Rightarrow> (loads, unit) prog" where
  "httpload_main k atoi argv =
     (if length argv \<noteq> 4 then
        bnd (report (''usage: httpload n server url'' @ newline) []) (\<lambda>_. taskexitall 1)
      else
        bnd (upd (fds.more_update (\<lambda>v. v\<lparr>server := Some (argv ! 2), url := Some (argv ! 3)\<rparr>))) (\<lambda>_.
        start_fetching k (nat (sint (atoi (argv ! 1))))))"

definition httpload_code :: "nat \<Rightarrow> loads code" where
  "httpload_code k fn arg =
     (if fn = fn_fdtask then fdtask k else if fn = fn_fetchtask then fetchtask k else ret ())"

section \<open>It is well typed\<close>

text \<open>The variables are set up when both strings are there.\<close>

definition load_globals :: "load_vars globals" where
  "load_globals v = (if server v = None \<or> url v = None then None else Some Map.empty)"

abbreviation (input) load_client :: "bool \<Rightarrow> (nat \<Rightarrow> nat option) \<Rightarrow> (loads, unit) prog \<Rightarrow> bool" where
  "load_client k M \<equiv> client load_globals nothing nothing k Map.empty M"

lemma report_client: "(\<And>u. load_client k M (f u)) \<Longrightarrow> load_client k M (bnd (report fmt xs) f)"
  unfolding report_def by (rule client_assign) (simp_all add: load_globals_def)

lemma look_client:
  assumes "\<And>v host path. server v = Some host \<Longrightarrow> url v = Some path \<Longrightarrow> load_client True M (f v)"
  shows "load_client True M (bnd (get fds.more) f)"
proof (rule client.look)
  fix v
  assume "True \<longrightarrow> load_globals v \<noteq> None"
  then obtain host path where "server v = Some host" "url v = Some path" "load_globals v = Some Map.empty"
    by (auto simp: load_globals_def split: if_splits)
  then show "client load_globals nothing nothing True (Map.empty ++ in_globals load_globals True v) M (f v)"
    using assms by (simp add: in_globals_def)
qed

lemma request_client:
  assumes "M buf = Some 512" and "\<And>u. load_client True M (f u)"
  shows "load_client True M (bnd (put_request buf) f)"
  unfolding put_request_def bnd_assoc
proof (rule look_client)
  fix v host path
  assume "server v = Some host" "url v = Some path"
  moreover have "has_room M buf (length (c_bytes (take (512 - 1) str) @ [0]))" for str
    using assms(1) by (auto simp: has_room_def)
  then have "load_client True M (bnd (snprintf buf 512 str) f)" for str
    unfolding snprintf_def whenp_def by (simp del: length_append) (rule client.store [OF _ assms(2)])
  ultimately show "load_client True M (bnd (case (url v, server v) of
      (Some path, Some host) \<Rightarrow> snprintf buf 512 (request path host) | _ \<Rightarrow> halt BadMem) f)"
    by simp
qed

lemma drain_client:
  assumes "M buf = Some 512" and "\<And>u. load_client k M (f u)"
  shows "load_client k M (bnd (drain i fd buf) f)"
proof (induction i)
  case 0
  show ?case by (simp add: bnd_halt client.ends)
next
  case (Suc i)
  have "has_room M buf (unat (512 :: cint))" using assms(1) by (simp add: has_room_def)
  then show ?case
    using Suc.IH assms(2)
    by (auto simp: bnd_assoc if_distrib [of "\<lambda>m. bnd m f"] intro!: client.word word_call.intros)
qed

lemma fetch_client: "M buf = Some 512 \<Longrightarrow> load_client True M (fetch k buf)"
proof (induction k)
  case 0
  show ?case by (auto intro: client.ends)
next
  case (Suc k)
  have room: "has_room M buf 512" using Suc.prems by (simp add: has_room_def)
  have small: "has_room M buf (unat (of_nat (length (c_string bs)) :: cint))" if "length bs = 512" for bs
  proof -
    have "length (c_string bs) \<le> 512" unfolding c_string_def using that length_takeWhile_le by (metis length_map)
    then show ?thesis using Suc.prems by (simp add: has_room_def unat_of_nat)
  qed
  show ?case
    unfolding fetch.simps
    by (rule look_client)
      (use Suc.IH [OF Suc.prems] room small Suc.prems in
        \<open>auto intro!: client.word word_call.intros client.errors client.names look_client report_client request_client
          client.load drain_client\<close>)
qed

lemma fetchtask_client: "load_client True Map.empty (fetchtask k)"
  unfolding fetchtask_def by (intro client.frame report_client fetch_client) simp

lemma yield_client: "(\<And>u. load_client k M (f u)) \<Longrightarrow> load_client k M (bnd (yield_others i) f)"
proof (induction i)
  case 0
  show ?case by (simp add: bnd_halt client.ends)
qed (auto simp: bnd_assoc if_distrib [of "\<lambda>m. bnd m f" for f] intro!: client.word word_call.intros)

lemma fetching_client: "load_client True M (start_fetching k n)"
  by (induction n) (auto intro!: client.word word_call.intros yield_client client.returns)

lemma httpload_well_typed: "well_typed load_globals nothing nothing (httpload_main k atoi argv) (httpload_code k)"
  unfolding well_typed_def
proof (intro conjI allI impI)
  fix fn :: nat and arg :: uint
  show "\<exists>j. httpload_code k fn_fdtask arg = fdtask j" by (auto simp: httpload_code_def)
  have "sets_up load_globals Map.empty False True (\<lambda>v. v\<lparr>server := Some host, url := Some path\<rparr>)" for host path
    by (auto simp: sets_up_def load_globals_def split: if_splits)
  then show "load_client False Map.empty (httpload_main k atoi argv)"
    unfolding httpload_main_def by (auto intro!: report_client client_exit client.set fetching_client)
  assume "fn \<noteq> 0" "fn \<noteq> fn_fdtask"
  then show "load_client True Map.empty (httpload_code k fn arg)"
    using fetchtask_client by (auto simp: httpload_code_def intro: client.returns)
qed

section \<open>It is safe\<close>

text \<open>
  \<open>httpload\<close>, with any arguments, under any kernel, however long the request is, never touches
  memory that is not a live object.
\<close>

lemma httpload_safe:
  assumes "fresh_process s" and "kern_ok (kernel s)"
  shows "safe_end load_globals nothing nothing (main (httpload_main k atoi argv) (httpload_code k) stack n s)"
  by (rule main_safe [OF assms _ well_typed_code [OF httpload_well_typed]]) (simp add: env_ok_def)

end
