(* ===== verification/Context.thy ===== *)
theory Context
  imports Chanalt
begin

text \<open>
  context.c, asm.S and 386-ucontext.h: saving and restoring the registers of a coroutine, and the
  first stack frame of a new one. This is the level below the rest of the model, where a saved
  context is a number in the memory of the machine: the theorems are what justifies that the
  scheduler's model keeps, for each task, the rest of its code instead.
\<close>

section \<open>The machine\<close>

text \<open>
  The registers that asm.S touches and a memory of bytes. Addresses wrap around. Ranges of bytes
  that do not overlap are \<open>apart\<close>.
\<close>

datatype reg = EAX | EBX | ECX | EDX | ESI | EDI | EBP | ESP

datatype seg = FS | ES | DS | SS

record machine =
  reg :: "reg \<Rightarrow> uint"
  seg :: "seg \<Rightarrow> 16 word"
  eip :: uint
  mem :: "uint \<Rightarrow> uchar"

definition load32 :: "(uint \<Rightarrow> uchar) \<Rightarrow> uint \<Rightarrow> uint" where
  "load32 m a = of_bytes [m a, m (a + 1), m (a + 2), m (a + 3)]"

definition store32 :: "uint \<Rightarrow> uint \<Rightarrow> (uint \<Rightarrow> uchar) \<Rightarrow> uint \<Rightarrow> uchar" where
  "store32 a w m = m(a := bytes_of w ! 0, a + 1 := bytes_of w ! 1, a + 2 := bytes_of w ! 2, a + 3 := bytes_of w ! 3)"

definition load16 :: "(uint \<Rightarrow> uchar) \<Rightarrow> uint \<Rightarrow> 16 word" where
  "load16 m a = push_bit 8 (ucast (m (a + 1))) + ucast (m a)"

definition store16 :: "uint \<Rightarrow> 16 word \<Rightarrow> (uint \<Rightarrow> uchar) \<Rightarrow> uint \<Rightarrow> uchar" where
  "store16 a w m = m(a := ucast w, a + 1 := ucast (drop_bit 8 w))"

definition apart :: "uint \<Rightarrow> uint \<Rightarrow> uint \<Rightarrow> uint \<Rightarrow> bool" where
  "apart a k b l \<longleftrightarrow> k \<le> b - a \<and> l \<le> a - b"

lemma apart_sym: "apart a k b l \<Longrightarrow> apart b l a k"
  by (simp add: apart_def)

lemma unat_32: "unat (w :: uint) < 2 ^ 32"
proof -
  have "uint w < 4294967296" "int (unat w) = uint w" using uint_lt2p [of w] by simp_all
  then have "unat w < 4294967296" by linarith
  then show ?thesis by simp
qed

lemma unat_of_nat32: "k < 2 ^ 32 \<Longrightarrow> unat (of_nat k :: uint) = k"
  by (simp add: unat_of_nat take_bit_nat_eq_self)

lemma of_nat_unat32: "of_nat (unat w) = (w :: uint)"
  by simp

lemma unat_neg: "w \<noteq> 0 \<Longrightarrow> unat (- w :: uint) = 2 ^ 32 - unat w"
  using unat_sub_if' [of 0 w] by (simp add: unat_0_iff)

text \<open>The distance of two ranges as a number.\<close>

lemma apart_dist:
  assumes "0 < k" and "0 < l"
  shows "apart a k b l \<longleftrightarrow> (\<exists>d. b = a + of_nat d \<and> unat k \<le> d \<and> d + unat l \<le> 2 ^ 32)"
proof (intro iffI)
  assume "apart a k b l"
  then have le: "k \<le> b - a" "l \<le> a - b" by (simp_all add: apart_def)
  then have "b - a \<noteq> 0" using assms by auto
  from unat_neg [OF this] have "unat (a - b) = 2 ^ 32 - unat (b - a)" by (simp only: minus_diff_eq)
  then have "unat l \<le> 2 ^ 32 - unat (b - a)" "unat k \<le> unat (b - a)" using le by (simp_all add: word_le_nat_alt)
  moreover have "unat (b - a) < 2 ^ 32" by (rule unat_32)
  ultimately have "b = a + of_nat (unat (b - a)) \<and> unat k \<le> unat (b - a) \<and> unat (b - a) + unat l \<le> 2 ^ 32" by simp
  then show "\<exists>d. b = a + of_nat d \<and> unat k \<le> d \<and> d + unat l \<le> 2 ^ 32" by blast
next
  assume "\<exists>d. b = a + of_nat d \<and> unat k \<le> d \<and> d + unat l \<le> 2 ^ 32"
  then obtain d where d: "b = a + of_nat d" "unat k \<le> d" "d + unat l \<le> 2 ^ 32" by blast
  have pos: "0 < unat k" "0 < unat l" using assms by (simp_all add: word_less_nat_alt)
  then have u: "unat (of_nat d :: uint) = d" using d by (simp add: unat_of_nat take_bit_nat_eq_self)
  have "(of_nat d :: uint) \<noteq> 0" using u d pos by auto
  then have "unat (- of_nat d :: uint) = 2 ^ 32 - d" using u by (simp add: unat_neg)
  then show "apart a k b l" using u d by (simp add: apart_def word_le_nat_alt)
qed

text \<open>Parts of ranges that are apart are apart.\<close>

lemma apart_part:
  assumes a: "apart a k b l" and k': "0 < k'" and l': "0 < l'"
    and i: "unat i + unat k' \<le> unat k" and j: "unat j + unat l' \<le> unat l"
  shows "apart (a + i) k' (b + j) l'"
proof -
  have pos: "0 < unat k'" "0 < unat l'" using k' l' by (simp_all add: word_less_nat_alt)
  then have "0 < k" "0 < l" using i j by (simp_all add: word_less_nat_alt)
  then obtain d where d: "b = a + of_nat d" "unat k \<le> d" "d + unat l \<le> 2 ^ 32" using a by (auto simp: apart_dist)
  have "of_nat (d + unat j - unat i) = (of_nat (d + unat j) :: uint) - of_nat (unat i)"
    using i d by (intro of_nat_diff) simp
  then have "b + j = (a + i) + of_nat (d + unat j - unat i)" by (simp add: d(1))
  moreover have "unat k' \<le> d + unat j - unat i" "d + unat j - unat i + unat l' \<le> 2 ^ 32" using d i j by linarith+
  ultimately show ?thesis using k' l' by (auto simp: apart_dist)
qed

lemma far_part:
  fixes a :: uint
  assumes "n \<le> p - a" and "unat k + unat w \<le> unat n"
  shows "w \<le> p - (a + k)"
proof -
  have "unat (p - a - k) = unat (p - a) - unat k"
    using assms by (intro unat_sub) (simp add: word_le_nat_alt)
  then have "unat w \<le> unat (p - a - k)" using assms by (simp add: word_le_nat_alt)
  then show ?thesis by (simp add: word_le_nat_alt diff_diff_eq)
qed

section \<open>Reading what was written\<close>

lemma store32_other: "4 \<le> b - a \<Longrightarrow> store32 a w m b = m b"
  and store16_other: "2 \<le> b - a \<Longrightarrow> store16 a v m b = m b"
  by (auto simp: store32_def store16_def word_le_nat_alt)

lemma load32_cong: "(\<And>i. i < 4 \<Longrightarrow> m (a + i) = m' (a + i)) \<Longrightarrow> load32 m a = load32 m' a"
proof -
  assume eq: "\<And>i. i < 4 \<Longrightarrow> m (a + i) = m' (a + i)"
  have "m a = m' a" using eq [of 0] by simp
  then show ?thesis using eq [of 1] eq [of 2] eq [of 3] by (simp add: load32_def)
qed

lemma load16_cong: "(\<And>i. i < 2 \<Longrightarrow> m (a + i) = m' (a + i)) \<Longrightarrow> load16 m a = load16 m' a"
proof -
  assume eq: "\<And>i. i < 2 \<Longrightarrow> m (a + i) = m' (a + i)"
  have "m a = m' a" using eq [of 0] by simp
  then show ?thesis using eq [of 1] by (simp add: load16_def)
qed

text \<open>A byte of one range is not in another that is apart from it.\<close>

lemma apart_in:
  assumes a: "apart a k b l" and i: "i < l"
  shows "k \<le> b + i - a"
proof (cases "k = 0")
  case False
  have "unat i < unat l" using i by (simp add: word_less_nat_alt)
  then have "apart (a + 0) k (b + i) 1" using False by (intro apart_part [OF a]) (simp_all add: word_less_nat_alt unat_gt_0)
  then show ?thesis by (simp add: apart_def)
qed simp

lemma load32_store32_other: "apart a 4 b 4 \<Longrightarrow> load32 (store32 a w m) b = load32 m b"
  and load32_store16_other: "apart a 2 b 4 \<Longrightarrow> load32 (store16 a v m) b = load32 m b"
  and load16_store32_other: "apart a 4 b 2 \<Longrightarrow> load16 (store32 a w m) b = load16 m b"
  and load16_store16_other: "apart a 2 b 2 \<Longrightarrow> load16 (store16 a v m) b = load16 m b"
  by (auto intro!: load32_cong load16_cong store32_other store16_other dest: apart_in)

lemma load32_same: "load32 (store32 a w m) a = w"
proof -
  have "a + i \<noteq> a + j" if "i \<noteq> j" for i j :: uint using that by simp
  then have "load32 (store32 a w m) a = of_bytes [bytes_of w ! 0, bytes_of w ! 1, bytes_of w ! 2, bytes_of w ! 3]"
    by (simp add: load32_def store32_def)
  also have "[bytes_of w ! 0, bytes_of w ! 1, bytes_of w ! 2, bytes_of w ! 3] = bytes_of w"
    by (simp add: bytes_of_def upt_rec)
  finally show ?thesis by (simp add: of_bytes_of)
qed

lemma load16_same: "load16 (store16 a v m) a = v"
proof -
  have "push_bit 8 (drop_bit 8 v) + take_bit 8 v = v" using bits_ident [of 8 v] by simp
  moreover have "(ucast (ucast (drop_bit 8 v) :: uchar) :: 16 word) = drop_bit 8 v"
    by (rule bit_word_eqI) (auto simp: bit_simps dest: bit_imp_le_length)
  moreover have "(ucast (ucast v :: uchar) :: 16 word) = take_bit 8 v" by (rule bit_word_eqI) (auto simp: bit_simps)
  ultimately show ?thesis by (simp add: load16_def store16_def)
qed

section \<open>asm.S\<close>

text \<open>
  The instructions of asm.S. \<open>LoadL k b r\<close> is \<open>movl k(%b), %r\<close> and so on; \<open>RetI\<close> is \<open>ret\<close>.
\<close>

datatype instr =
    LoadL uint reg reg
  | StoreL reg uint reg
  | LoadW uint reg seg
  | StoreW seg uint reg
  | StoreI uint uint reg
  | MoveI uint reg
  | Lea uint reg reg
  | PushL uint reg
  | RetI

definition push :: "uint \<Rightarrow> machine \<Rightarrow> machine" where
  "push w m =
     m\<lparr>reg := (reg m)(ESP := reg m ESP - 4), mem := store32 (reg m ESP - 4) w (mem m)\<rparr>"

fun exec1 :: "instr \<Rightarrow> machine \<Rightarrow> machine" where
  "exec1 (LoadL k b r) m = m\<lparr>reg := (reg m)(r := load32 (mem m) (reg m b + k))\<rparr>"
| "exec1 (StoreL r k b) m = m\<lparr>mem := store32 (reg m b + k) (reg m r) (mem m)\<rparr>"
| "exec1 (LoadW k b r) m = m\<lparr>seg := (seg m)(r := load16 (mem m) (reg m b + k))\<rparr>"
| "exec1 (StoreW r k b) m = m\<lparr>mem := store16 (reg m b + k) (seg m r) (mem m)\<rparr>"
| "exec1 (StoreI w k b) m = m\<lparr>mem := store32 (reg m b + k) w (mem m)\<rparr>"
| "exec1 (MoveI w r) m = m\<lparr>reg := (reg m)(r := w)\<rparr>"
| "exec1 (Lea k b r) m = m\<lparr>reg := (reg m)(r := reg m b + k)\<rparr>"
| "exec1 (PushL k b) m = push (load32 (mem m) (reg m b + k)) m"
| "exec1 RetI m = m\<lparr>eip := load32 (mem m) (reg m ESP), reg := (reg m)(ESP := reg m ESP + 4)\<rparr>"

definition getxmcontext :: "instr list" where
  "getxmcontext =
     [LoadL 4 ESP EAX,
      StoreW FS 8 EAX, StoreW ES 12 EAX, StoreW DS 16 EAX, StoreW SS 76 EAX,
      StoreL EDI 20 EAX, StoreL ESI 24 EAX, StoreL EBP 28 EAX,
      StoreL EBX 36 EAX, StoreL EDX 40 EAX, StoreL ECX 44 EAX,
      StoreI 1 48 EAX,
      LoadL 0 ESP ECX, StoreL ECX 60 EAX,
      Lea 4 ESP ECX, StoreL ECX 72 EAX,
      LoadL 44 EAX ECX, MoveI 0 EAX, RetI]"

definition setxmcontext :: "instr list" where
  "setxmcontext =
     [LoadL 4 ESP EAX,
      LoadW 8 EAX FS, LoadW 12 EAX ES, LoadW 16 EAX DS, LoadW 76 EAX SS,
      LoadL 20 EAX EDI, LoadL 24 EAX ESI, LoadL 28 EAX EBP,
      LoadL 36 EAX EBX, LoadL 40 EAX EDX, LoadL 44 EAX ECX,
      LoadL 72 EAX ESP,
      PushL 60 EAX, LoadL 48 EAX EAX, RetI]"

text \<open>A call from C: the argument and the return address are pushed.\<close>

definition run :: "instr list \<Rightarrow> machine \<Rightarrow> machine" where
  "run is m = fold exec1 is m"

definition call_asm :: "uint \<Rightarrow> uint \<Rightarrow> instr list \<Rightarrow> machine \<Rightarrow> machine" where
  "call_asm ra arg is m = run is (push ra (push arg m))"

section \<open>The structures\<close>

text \<open>\<open>struct xmcontext\<close>: the numbers in asm.S are the offsets of these fields.\<close>

datatype mc =
    mc_onstack | mc_gs | mc_fs | mc_es | mc_ds | mc_edi | mc_esi | mc_ebp | mc_isp | mc_ebx | mc_edx | mc_ecx
  | mc_eax | mc_trapno | mc_err | mc_eip | mc_cs | mc_eflags | mc_esp | mc_ss

definition xmcontext :: "mc list" where
  "xmcontext =
     [mc_onstack, mc_gs, mc_fs, mc_es, mc_ds, mc_edi, mc_esi, mc_ebp, mc_isp, mc_ebx, mc_edx, mc_ecx,
      mc_eax, mc_trapno, mc_err, mc_eip, mc_cs, mc_eflags, mc_esp, mc_ss]"

fun field_index :: "mc \<Rightarrow> mc list \<Rightarrow> nat" where
  "field_index f [] = 0"
| "field_index f (g # gs) = (if f = g then 0 else Suc (field_index f gs))"

definition mc_offset :: "mc \<Rightarrow> uint" where
  "mc_offset f = 4 * of_nat (field_index f xmcontext)"

lemma mc_offsets:
  "mc_offset mc_fs = 8" "mc_offset mc_es = 12" "mc_offset mc_ds = 16" "mc_offset mc_edi = 20"
  "mc_offset mc_esi = 24" "mc_offset mc_ebp = 28" "mc_offset mc_ebx = 36" "mc_offset mc_edx = 40"
  "mc_offset mc_ecx = 44" "mc_offset mc_eax = 48" "mc_offset mc_eip = 60" "mc_offset mc_esp = 72"
  "mc_offset mc_ss = 76"
  by (simp_all add: mc_offset_def xmcontext_def)

text \<open>
  \<open>struct xucontext\<close>: a signal mask of 128 bytes, the saved registers (20 + 28 + 17 integers), the link,
  the stack (its start, flags and size) and 8 integers.
\<close>

definition uc_xmcontext :: uint where "uc_xmcontext = 128"

definition uc_stack_sp :: uint where "uc_stack_sp = uc_xmcontext + 4 * (20 + 28 + 17) + 4"

definition uc_stack_size :: uint where "uc_stack_size = uc_stack_sp + 8"

section \<open>A context is saved and resumed\<close>

definition seg_offset :: "seg \<Rightarrow> uint" where
  "seg_offset r = (case r of FS \<Rightarrow> 8 | ES \<Rightarrow> 12 | DS \<Rightarrow> 16 | SS \<Rightarrow> 76)"

definition reg_offset :: "reg \<Rightarrow> uint" where
  "reg_offset r = (case r of EDI \<Rightarrow> 20 | ESI \<Rightarrow> 24 | EBP \<Rightarrow> 28 | EBX \<Rightarrow> 36 | EDX \<Rightarrow> 40 | ECX \<Rightarrow> 44 | EAX \<Rightarrow> 48 | ESP \<Rightarrow> 72)"

text \<open>The structure at \<open>c\<close> holds what the machine is to continue with.\<close>

definition holds_context :: "uint \<Rightarrow> (uint \<Rightarrow> uchar) \<Rightarrow> machine \<Rightarrow> bool" where
  "holds_context c m k \<longleftrightarrow>
     (\<forall>r. load32 m (c + reg_offset r) = reg k r) \<and> (\<forall>r. load16 m (c + seg_offset r) = seg k r) \<and>
     load32 m (c + 60) = eip k"

lemmas asm_simps = run_def call_asm_def push_def fun_upd_def load32_same load16_same
  load32_store32_other load32_store16_other load16_store32_other load16_store16_other

lemma apart_fields: "apart (c + i) k (c + j) l \<longleftrightarrow> k \<le> j - i \<and> l \<le> i - j"
  by (simp add: apart_def)

lemma get_run:
  assumes sp: "reg m ESP = sp" and c: "load32 (mem m) (sp + 4) = c" and apart: "apart c 80 sp 8"
  shows "run getxmcontext m =
     m\<lparr>reg := (reg m)(EAX := 0, ESP := sp + 4), eip := load32 (mem m) sp,
       mem := store32 (c + 72) (sp + 4) (store32 (c + 60) (load32 (mem m) sp) (store32 (c + 48) 1
         (store32 (c + 44) (reg m ECX) (store32 (c + 40) (reg m EDX) (store32 (c + 36) (reg m EBX)
         (store32 (c + 28) (reg m EBP) (store32 (c + 24) (reg m ESI) (store32 (c + 20) (reg m EDI)
         (store16 (c + 76) (seg m SS) (store16 (c + 16) (seg m DS) (store16 (c + 12) (seg m ES)
         (store16 (c + 8) (seg m FS) (mem m)))))))))))))\<rparr>"
proof -
  have slot: "apart (c + i) k sp 4" if "0 < k" "unat i + unat k \<le> 80" for i k
    using that apart_part [OF apart, of k 4 i 0] by simp
  note other = load32_store32_other load32_store16_other
  show ?thesis
    by (simp add: run_def getxmcontext_def sp c fun_eq_iff load32_same other slot apart_fields)
qed

lemma all_reg: "(\<forall>r. P r) \<longleftrightarrow> P EAX \<and> P EBX \<and> P ECX \<and> P EDX \<and> P ESI \<and> P EDI \<and> P EBP \<and> P ESP"
  by (metis reg.exhaust)

lemma all_seg: "(\<forall>r. P r) \<longleftrightarrow> P FS \<and> P ES \<and> P DS \<and> P SS"
  by (metis seg.exhaust)

lemma holds_context_cong:
  assumes same: "\<And>i. i < 80 \<Longrightarrow> m' (c + i) = m (c + i)" and h: "holds_context c m k"
  shows "holds_context c m' k"
proof -
  have a: "load32 m' (c + k) = load32 m (c + k)" if "unat k \<le> 76" for k
  proof (rule load32_cong)
    fix i :: uint
    assume "i < 4"
    then have "unat (k + i) = unat k + unat i" "unat i < 4" using that
      by (simp_all add: unat_plus_if' word_less_nat_alt)
    then have "k + i < 80" using that by (simp add: word_less_nat_alt)
    then show "m' (c + k + i) = m (c + k + i)" using same [of "k + i"] by (simp add: add.assoc)
  qed
  have b: "load16 m' (c + k) = load16 m (c + k)" if "unat k \<le> 76" for k
  proof (rule load16_cong)
    fix i :: uint
    assume "i < 2"
    then have "unat (k + i) = unat k + unat i" "unat i < 2" using that
      by (simp_all add: unat_plus_if' word_less_nat_alt)
    then have "k + i < 80" using that by (simp add: word_less_nat_alt)
    then show "m' (c + k + i) = m (c + k + i)" using same [of "k + i"] by (simp add: add.assoc)
  qed
  show ?thesis using h unfolding holds_context_def all_reg all_seg
    by (simp add: a b reg_offset_def seg_offset_def)
qed

lemma get_spec:
  assumes sp: "reg m ESP = sp" and c: "load32 (mem m) (sp + 4) = c" and apart: "apart c 80 sp 8"
    and m': "m' = run getxmcontext m"
  shows "reg m' = (reg m)(EAX := 0, ESP := sp + 4)" and "seg m' = seg m" and "eip m' = load32 (mem m) sp"
    and "holds_context c (mem m') (m'\<lparr>reg := (reg m')(EAX := 1)\<rparr>)"
    and "80 \<le> a - c \<Longrightarrow> mem m' a = mem m a"
proof -
  note r = get_run [OF sp c apart, folded m']
  show "reg m' = (reg m)(EAX := 0, ESP := sp + 4)" "seg m' = seg m" "eip m' = load32 (mem m) sp"
    by (simp_all add: r)
  show "holds_context c (mem m') (m'\<lparr>reg := (reg m')(EAX := 1)\<rparr>)"
    unfolding holds_context_def all_reg all_seg
    by (simp add: r reg_offset_def seg_offset_def load32_same load16_same apart_fields
      load32_store32_other load32_store16_other load16_store32_other load16_store16_other)
  assume "80 \<le> a - c"
  then have far: "w \<le> a - (c + k)" if "unat k + unat w \<le> 80" for k w :: uint
  proof -
    have "unat (a - c - k) = unat (a - c) - unat k"
      using that \<open>80 \<le> a - c\<close> by (intro unat_sub) (simp add: word_le_nat_alt)
    then have "unat w \<le> unat (a - c - k)" using that \<open>80 \<le> a - c\<close> by (simp add: word_le_nat_alt)
    then show ?thesis by (simp add: word_le_nat_alt diff_diff_eq)
  qed
  show "mem m' a = mem m a" by (simp add: r store32_other store16_other far)
qed

lemma set_spec:
  assumes sp: "load32 (mem n) (reg n ESP + 4) = c" and h: "holds_context c (mem n) k"
    and slot: "apart c 80 (reg k ESP - 4) 4"
  shows "run setxmcontext n =
     n\<lparr>reg := reg k, seg := seg k, eip := eip k, mem := store32 (reg k ESP - 4) (eip k) (mem n)\<rparr>"
proof -
  have regs: "load32 (mem n) (c + reg_offset r) = reg k r" "load16 (mem n) (c + seg_offset q) = seg k q"
    and pc: "load32 (mem n) (c + 60) = eip k" for r q
    using h by (simp_all add: holds_context_def)
  have "apart (reg k ESP - 4) 4 (c + 48) 4" using apart_part [OF slot, of 4 4 48 0] by (simp add: apart_sym)
  then have eax: "load32 (store32 (reg k ESP - 4) w (mem n)) (c + 48) = load32 (mem n) (c + 48)" for w
    by (rule load32_store32_other)
  note f = regs(1) [of EAX] regs(1) [of EBX] regs(1) [of ECX] regs(1) [of EDX] regs(1) [of ESI] regs(1) [of EDI]
    regs(1) [of EBP] regs(1) [of ESP] regs(2) [of FS] regs(2) [of ES] regs(2) [of DS] regs(2) [of SS]
  have regs_eq: "g = h \<longleftrightarrow> g EAX = h EAX \<and> g EBX = h EBX \<and> g ECX = h ECX \<and> g EDX = h EDX \<and> g ESI = h ESI \<and>
      g EDI = h EDI \<and> g EBP = h EBP \<and> g ESP = h ESP" for g h :: "reg \<Rightarrow> uint"
    by (simp add: fun_eq_iff all_reg)
  have segs_eq: "g = h \<longleftrightarrow> g FS = h FS \<and> g ES = h ES \<and> g DS = h DS \<and> g SS = h SS" for g h :: "seg \<Rightarrow> 16 word"
    by (simp add: fun_eq_iff all_seg)
  show ?thesis
    using f pc eax
    by (simp add: run_def setxmcontext_def sp push_def reg_offset_def seg_offset_def load32_same
      machine.equality regs_eq segs_eq)
qed

text \<open>The same for a call from C.\<close>

lemma pushed:
  fixes m :: machine and ra arg
  defines "p \<equiv> push ra (push arg m)"
  shows "reg p = (reg m)(ESP := reg m ESP - 8)" and "seg p = seg m"
    and "load32 (mem p) (reg m ESP - 8) = ra" and "load32 (mem p) (reg m ESP - 8 + 4) = arg"
    and "8 \<le> a - (reg m ESP - 8) \<Longrightarrow> mem p a = mem m a"
proof -
  let ?e = "reg m ESP - 8"
  have up: "reg m ESP - 4 = ?e + 4" by simp
  have p: "p = m\<lparr>reg := (reg m)(ESP := ?e), mem := store32 ?e ra (store32 (?e + 4) arg (mem m))\<rparr>"
    unfolding p_def push_def by (simp add: fun_eq_iff)
  show "reg p = (reg m)(ESP := ?e)" "seg p = seg m" "load32 (mem p) ?e = ra"
    by (simp_all add: p load32_same)
  have "apart ?e 4 (?e + 4) 4" using apart_fields [of ?e 0 4 4 4] by simp
  then show "load32 (mem p) (?e + 4) = arg" by (simp add: p load32_store32_other load32_same)
  assume far: "8 \<le> a - ?e"
  then have "4 \<le> a - ?e" by (simp add: word_le_nat_alt)
  moreover have "unat (a - ?e - 4) = unat (a - ?e) - 4"
    using far unat_sub [of 4 "a - ?e"] by (simp add: word_le_nat_alt)
  then have "4 \<le> a - (?e + 4)" using far by (simp add: word_le_nat_alt diff_diff_eq)
  ultimately show "mem p a = mem m a" by (simp add: p store32_other)
qed

lemma call_get:
  assumes apart: "apart c 80 (reg m ESP - 8) 8" and m': "m' = call_asm ra c getxmcontext m"
  shows "reg m' = (reg m)(EAX := 0, ESP := reg m ESP - 4)" and "seg m' = seg m" and "eip m' = ra"
    and "holds_context c (mem m') (m'\<lparr>reg := (reg m')(EAX := 1)\<rparr>)"
    and "80 \<le> a - c \<Longrightarrow> 8 \<le> a - (reg m ESP - 8) \<Longrightarrow> mem m' a = mem m a"
proof -
  note p = pushed [where ra = ra and arg = c and m = m]
  have sp: "reg (push ra (push c m)) ESP = reg m ESP - 8" by (simp add: p(1))
  have m': "m' = run getxmcontext (push ra (push c m))" using m' by (simp add: call_asm_def)
  note g = get_spec [OF sp p(4) apart m']
  show "reg m' = (reg m)(EAX := 0, ESP := reg m ESP - 4)" using g(1) by (simp add: p(1) fun_eq_iff)
  show "seg m' = seg m" "eip m' = ra" using g(2,3) by (simp_all add: p)
  show "holds_context c (mem m') (m'\<lparr>reg := (reg m')(EAX := 1)\<rparr>)" by (rule g(4))
  assume "80 \<le> a - c" "8 \<le> a - (reg m ESP - 8)"
  then show "mem m' a = mem m a" using g(5) [of a] p(5) [of a] by simp
qed

lemma call_set:
  assumes h: "holds_context c (mem n) k" and own: "apart c 80 (reg n ESP - 8) 8"
    and slot: "apart c 80 (reg k ESP - 4) 4" and n': "n' = call_asm ra c setxmcontext n"
  shows "reg n' = reg k" and "seg n' = seg k" and "eip n' = eip k"
    and "8 \<le> a - (reg n ESP - 8) \<Longrightarrow> 4 \<le> a - (reg k ESP - 4) \<Longrightarrow> mem n' a = mem n a"
proof -
  let ?p = "push ra (push c n)"
  note p = pushed [where ra = ra and arg = c and m = n]
  have "holds_context c (mem ?p) k"
    by (rule holds_context_cong [OF _ h], rule p(5)) (rule apart_in [OF apart_sym [OF own]])
  moreover have "load32 (mem ?p) (reg ?p ESP + 4) = c" using p(4) by (simp add: p(1))
  ultimately have "n' = ?p\<lparr>reg := reg k, seg := seg k, eip := eip k, mem := store32 (reg k ESP - 4) (eip k) (mem ?p)\<rparr>"
    using set_spec [of ?p c k] slot n' by (simp add: call_asm_def)
  then show "reg n' = reg k" "seg n' = seg k" "eip n' = eip k"
    "8 \<le> a - (reg n ESP - 8) \<Longrightarrow> 4 \<le> a - (reg k ESP - 4) \<Longrightarrow> mem n' a = mem n a"
    using p(5) [of a] by (simp_all add: store32_other)
qed

section \<open>context.c\<close>

text \<open>
  \<open>swapcontext\<close>: \<open>ra\<close> and \<open>ra'\<close> are the addresses behind its two calls. What the compiler puts
  between them is left out. A return value of \<open>getxmcontext\<close> other than 0 makes it return 0.
\<close>

definition swapcontext :: "uint \<Rightarrow> uint \<Rightarrow> uint \<Rightarrow> uint \<Rightarrow> machine \<Rightarrow> machine" where
  "swapcontext oucp ucp ra ra' m =
     (let m' = call_asm ra (oucp + uc_xmcontext) getxmcontext m in
      if reg m' EAX = 0 then call_asm ra' (ucp + uc_xmcontext) setxmcontext m'
      else m')"

text \<open>\<open>makecontext\<close>: the arguments behind \<open>argc\<close> are copied to the top of the new stack.\<close>

primrec copy_words :: "uint \<Rightarrow> uint list \<Rightarrow> (uint \<Rightarrow> uchar) \<Rightarrow> uint \<Rightarrow> uchar" where
  "copy_words a [] m = m"
| "copy_words a (w # ws) m = copy_words (a + 4) ws (store32 a w m)"

definition makecontext :: "uint \<Rightarrow> uint \<Rightarrow> uint list \<Rightarrow> (uint \<Rightarrow> uchar) \<Rightarrow> uint \<Rightarrow> uchar" where
  "makecontext ucp func args m =
     (let argc = of_nat (length args);
          sp = load32 m (ucp + uc_stack_sp) + 4 * (load32 m (ucp + uc_stack_size) div 4);
          sp = sp - 4 * argc;
          sp = sp - sp mod 16;
          m = copy_words sp args m;
          sp = sp - 4;
          m = store32 sp 0 m;
          m = store32 (ucp + uc_xmcontext + mc_offset mc_eip) func m
      in store32 (ucp + uc_xmcontext + mc_offset mc_esp) sp m)"

text \<open>
  The context of a new task, as \<open>taskalloc\<close> makes it: \<open>getcontext\<close>, the stack, \<open>makecontext\<close>. The
  signal mask is left out: neither file reads it. The pointer is passed as two halves.
\<close>

definition halves :: "uint \<Rightarrow> uint \<times> uint" where
  "halves t = (let z = drop_bit 16 t in (t, drop_bit 16 z))"

definition join_halves :: "uint \<Rightarrow> uint \<Rightarrow> uint" where
  "join_halves y x = or (push_bit 16 (push_bit 16 x)) y"

definition init_context :: "uint \<Rightarrow> uint \<Rightarrow> uint \<Rightarrow> uint \<Rightarrow> uint \<Rightarrow> uint \<Rightarrow> uint \<Rightarrow> machine \<Rightarrow> machine" where
  "init_context uc base bytes entry ra y x m =
     (let m = call_asm ra (uc + uc_xmcontext) getxmcontext m;
          mm = store32 (uc + uc_stack_sp) (base + 8) (mem m);
          mm = store32 (uc + uc_stack_size) (bytes - 64) mm
      in m\<lparr>mem := makecontext uc entry [y, x] mm\<rparr>)"

text \<open>The twelve bytes below a stack pointer that \<open>swapcontext\<close> uses.\<close>

lemma apart_low:
  assumes "apart c 80 (e - 12) 12"
  shows "apart c 80 (e - 8) 8" and "apart c 80 (e - 12) 8" and "apart c 80 (e - 8) 4"
  using apart_part [OF assms, of 80 8 0 4] apart_part [OF assms, of 80 8 0 0] apart_part [OF assms, of 80 4 0 4]
  by simp_all

text \<open>
  C7: a coroutine that called \<open>swapcontext\<close> is resumed where it was. Whatever ran in between, if
  its context was left alone, the coroutine that switches back makes \<open>getxmcontext\<close> return a second
  time: at the same address, with the same stack pointer, the same registers and segments, and 1
  instead of 0, so that \<open>swapcontext\<close> returns. Only the context of the other coroutine and the free
  words below the two stack pointers change.
\<close>

theorem swapcontext_resumes:
  assumes x: "x = swapcontext a b ra ra' m" and z: "z = swapcontext d a rd rd' y"
    and A: "A = a + uc_xmcontext" and D: "D = d + uc_xmcontext"
    and out: "apart A 80 (reg m ESP - 12) 12" "holds_context (b + uc_xmcontext) (mem m) k"
      "apart (b + uc_xmcontext) 80 A 80" "apart (b + uc_xmcontext) 80 (reg m ESP - 12) 12"
      "apart (b + uc_xmcontext) 80 (reg k ESP - 4) 4" "apart A 80 (reg k ESP - 4) 4"
    and kept: "\<And>i. i < 80 \<Longrightarrow> mem y (A + i) = mem x (A + i)"
    and other: "apart A 80 D 80" "apart A 80 (reg y ESP - 12) 12" "apart D 80 (reg y ESP - 12) 12"
  shows "reg x = reg k \<and> seg x = seg k \<and> eip x = eip k \<and>
    eip z = ra \<and> reg z = (reg m)(ESP := reg m ESP - 4, EAX := 1) \<and> seg z = seg m \<and>
    (\<forall>p. 80 \<le> p - D \<longrightarrow> 12 \<le> p - (reg y ESP - 12) \<longrightarrow> 4 \<le> p - (reg m ESP - 8) \<longrightarrow> mem z p = mem y p)"
proof -
  let ?B = "b + uc_xmcontext"
  define m1 where "m1 = call_asm ra A getxmcontext m"
  define y1 where "y1 = call_asm rd D getxmcontext y"
  note G = call_get [OF apart_low(1) [OF out(1)] m1_def] and H = call_get [OF apart_low(1) [OF other(3)] y1_def]
  have x: "x = call_asm ra' ?B setxmcontext m1" using x G(1) by (simp add: swapcontext_def m1_def A)
  have z: "z = call_asm rd' A setxmcontext y1" using z H(1) by (simp add: swapcontext_def y1_def A D)
  let ?k = "m1\<lparr>reg := (reg m1)(EAX := 1)\<rparr>"
  have esp: "reg m1 ESP - 8 = reg m ESP - 12" "reg y1 ESP - 8 = reg y ESP - 12" "reg ?k ESP - 4 = reg m ESP - 8"
    using G(1) H(1) by simp_all
  have "holds_context ?B (mem m1) k"
    by (rule holds_context_cong [OF G(5) out(2)])
      (rule apart_in [OF apart_sym [OF out(3)]] apart_in [OF apart_sym [OF apart_low(1) [OF out(4)]]]; assumption)+
  note X = call_set [OF this _ out(5) x, unfolded esp(1), OF apart_low(2) [OF out(4)]]
  have same: "mem x (A + i) = mem m1 (A + i)" if "i < 80" for i
    using that apart_low(2) [OF out(1)] out(6) by (intro X(4)) (auto intro: apart_in apart_sym)
  have "mem y1 (A + i) = mem m1 (A + i)" if "i < 80" for i
  proof -
    have "mem y1 (A + i) = mem y (A + i)"
      using that other(1) apart_low(1) [OF other(2)] by (intro H(5)) (auto intro: apart_in apart_sym)
    then show ?thesis using kept [OF that] same [OF that] by simp
  qed
  then have "holds_context A (mem y1) ?k" by (rule holds_context_cong [OF _ G(4)])
  note Z = call_set [OF this _ _ z, unfolded esp(2,3), OF apart_low(2) [OF other(2)] apart_low(3) [OF out(1)]]
  have "mem z p = mem y p" if "80 \<le> p - D" "12 \<le> p - (reg y ESP - 12)" "4 \<le> p - (reg m ESP - 8)" for p
  proof -
    note f = far_part [OF that(2), of 0 8] far_part [OF that(2), of 4 8]
    have "mem z p = mem y1 p" using f that by (intro Z(4)) simp_all
    also have "\<dots> = mem y p" using f that by (intro H(5)) simp_all
    finally show ?thesis .
  qed
  then show ?thesis using X(1,2,3) Z(1,2,3) G(1,2,3) by simp
qed

section \<open>A new task\<close>

lemma copy_words_far:
  "4 * length ws < 2 ^ 32 \<Longrightarrow> of_nat (4 * length ws) \<le> p - a \<Longrightarrow> copy_words a ws m p = m p"
proof (induction ws arbitrary: a m)
  case (Cons w ws)
  have u: "unat (of_nat (4 * length (w # ws)) :: uint) = 4 * length (w # ws)"
    "unat (of_nat (4 * length ws) :: uint) = 4 * length ws"
    using Cons.prems(1) by (intro unat_of_nat32; simp)+
  have "of_nat (4 * length ws) \<le> p - (a + 4)" by (rule far_part [OF Cons.prems(2)]) (simp only: u, simp)
  moreover have "4 \<le> p - a" using far_part [OF Cons.prems(2), of 0 4] unfolding u by simp
  ultimately show ?case using Cons.IH [of "a + 4"] Cons.prems(1) by (simp add: store32_other)
qed simp

lemma copy_words_load:
  "4 * length ws < 2 ^ 32 \<Longrightarrow> i < length ws \<Longrightarrow> load32 (copy_words a ws m) (a + of_nat (4 * i)) = ws ! i"
proof (induction ws arbitrary: a m i)
  case (Cons w ws)
  show ?case
  proof (cases i)
    case 0
    have "load32 (copy_words (a + 4) ws (store32 a w m)) a = load32 (store32 a w m) a"
    proof (rule load32_cong)
      fix j :: uint
      assume "j < 4"
      then have j: "unat j < 4" by (simp add: word_less_nat_alt)
      have "unat (of_nat (4 * length ws) :: uint) = 4 * length ws"
        using Cons.prems(1) by (intro unat_of_nat32) simp
      moreover have "unat (j - 4) = 2 ^ 32 + unat j - 4" using j by (simp add: unat_sub_if')
      ultimately have "of_nat (4 * length ws) \<le> j - 4" using Cons.prems(1) j by (simp add: word_le_nat_alt)
      then show "copy_words (a + 4) ws (store32 a w m) (a + j) = store32 a w m (a + j)"
        using Cons.prems(1) by (intro copy_words_far) simp_all
    qed
    then show ?thesis using 0 by (simp add: load32_same)
  next
    case (Suc k)
    then have "a + of_nat (4 * i) = a + 4 + of_nat (4 * k)" by simp
    then show ?thesis using Cons.IH [of k "a + 4" "store32 a w m"] Cons.prems Suc by (simp add: add.assoc)
  qed
qed simp

text \<open>Where \<open>makecontext\<close> puts the frame, as a number.\<close>

definition frame_at :: "nat \<Rightarrow> nat \<Rightarrow> nat \<Rightarrow> nat" where
  "frame_at b n argc = (let t = b + 4 * (n div 4) - 4 * argc in t - t mod 16 - 4)"

lemma frame_bounds:
  assumes "4 * argc + 22 \<le> n"
  shows "b \<le> frame_at b n argc" and "frame_at b n argc + 4 + 4 * argc \<le> b + n" and "(frame_at b n argc + 4) mod 16 = 0"
proof -
  define t where "t = b + 4 * (n div 4) - 4 * argc"
  have n: "4 * (n div 4) \<le> n" "n \<le> 4 * (n div 4) + 3" by simp_all
  have t: "b + 19 \<le> t" "t + 4 * argc \<le> b + n" using assms n unfolding t_def by linarith+
  have m: "t mod 16 \<le> 15" "t mod 16 \<le> t" by (simp_all add: less_Suc_eq_le [symmetric])
  have f: "frame_at b n argc = t - t mod 16 - 4" unfolding frame_at_def t_def Let_def ..
  show "b \<le> frame_at b n argc" "frame_at b n argc + 4 + 4 * argc \<le> b + n" using f t m by linarith+
  have "frame_at b n argc + 4 = t - t mod 16" using f t m by linarith
  then show "(frame_at b n argc + 4) mod 16 = 0" by (simp add: minus_mod_eq_mult_div)
qed

lemma frame_word:
  fixes base size :: uint
  assumes "4 * argc + 22 \<le> unat size" and "unat base + unat size < 2 ^ 32"
  defines "sp \<equiv> base + 4 * (size div 4) - 4 * of_nat argc"
  shows "sp - sp mod 16 - 4 = of_nat (frame_at (unat base) (unat size) argc)"
proof -
  define t where "t = unat base + 4 * (unat size div 4) - 4 * argc"
  have n: "4 * (unat size div 4) \<le> unat size" "unat size \<le> 4 * (unat size div 4) + 3" by simp_all
  have t: "19 \<le> t" "t < 2 ^ 32" using assms(1,2) n unfolding t_def by linarith+
  have "size div 4 = of_nat (unat size div 4)" using of_nat_unat32 [of "size div 4"] by (simp add: unat_div)
  then have "sp = of_nat (unat base + 4 * (unat size div 4)) - of_nat (4 * argc)" by (simp add: sp_def)
  also have "\<dots> = of_nat t" unfolding t_def using assms(1) n by (intro of_nat_diff [symmetric]) linarith
  finally have sp: "sp = of_nat t" .
  then have u: "unat sp = t" using t by (simp add: unat_of_nat take_bit_nat_eq_self)
  have "unat (sp mod 16) = t mod 16" using unat_mod [of sp 16] u by simp
  then have "sp mod 16 = of_nat (t mod 16)" using of_nat_unat32 [of "sp mod 16"] by simp
  moreover have m: "t mod 16 + 4 \<le> t" using t mod_less_divisor [of 16 t] by linarith
  ultimately have "sp - sp mod 16 - 4 = of_nat (t - t mod 16 - 4)" using sp by (simp add: of_nat_diff)
  then show ?thesis unfolding frame_at_def t_def Let_def .
qed

lemma holds_context_eip: "holds_context c m k \<Longrightarrow> holds_context c (store32 (c + 60) w m) (k\<lparr>eip := w\<rparr>)"
  and holds_context_esp: "holds_context c m k \<Longrightarrow> holds_context c (store32 (c + 72) v m) (k\<lparr>reg := (reg k)(ESP := v)\<rparr>)"
  unfolding holds_context_def all_reg all_seg
  by (simp_all add: reg_offset_def seg_offset_def load32_same apart_fields load32_store32_other load16_store32_other)

text \<open>What \<open>makecontext\<close> leaves in the stack and in the structure.\<close>

lemma makecontext_spec:
  fixes ucp func base size :: uint and args :: "uint list"
  defines "e \<equiv> of_nat (frame_at (unat base) (unat size) (length args)) :: uint"
  assumes base: "load32 m (ucp + uc_stack_sp) = base" and size: "load32 m (ucp + uc_stack_size) = size"
    and room: "4 * length args + 26 \<le> unat size" and top: "unat base + unat size < 2 ^ 32"
    and sep: "apart ucp 436 base size" and h: "holds_context (ucp + uc_xmcontext) m k"
  shows "holds_context (ucp + uc_xmcontext) (makecontext ucp func args m) (k\<lparr>reg := (reg k)(ESP := e), eip := func\<rparr>)"
    and "load32 (makecontext ucp func args m) e = 0"
    and "i < length args \<Longrightarrow> load32 (makecontext ucp func args m) (e + 4 + of_nat (4 * i)) = args ! i"
    and "436 \<le> p - ucp \<Longrightarrow> size \<le> p - base \<Longrightarrow> makecontext ucp func args m p = m p"
proof -
  let ?c = "ucp + uc_xmcontext" and ?a = "length args" and ?E = "frame_at (unat base) (unat size) (length args)"
  define m1 where "m1 = copy_words (e + 4) args m"
  define m2 where "m2 = store32 e 0 m1"
  have room': "4 * ?a + 22 \<le> unat size" using room by simp
  note b = frame_bounds [OF room', of "unat base"]
  have len: "4 * ?a < 2 ^ 32" using room top by linarith
  have w: "base + 4 * (size div 4) - 4 * of_nat ?a - (base + 4 * (size div 4) - 4 * of_nat ?a) mod 16 = e + 4"
    using frame_word [OF room' top] unfolding e_def by (simp add: algebra_simps)
  have M: "makecontext ucp func args m = store32 (?c + 72) e (store32 (?c + 60) func m2)"
    unfolding makecontext_def Let_def base size w m2_def m1_def by (simp add: mc_offsets)
  have c: "?c = ucp + 128" by (simp add: uc_xmcontext_def)
  have e: "e + j = base + (of_nat (?E - unat base) + j)" for j
    using b(1) by (simp add: e_def of_nat_diff)
  have off: "unat (of_nat (?E - unat base) + j :: uint) = ?E - unat base + unat j" if "?E - unat base + unat j \<le> unat size" for j :: uint
  proof -
    have "unat (of_nat (?E - unat base) :: uint) = ?E - unat base" using that top by (intro unat_of_nat32) linarith
    then show ?thesis using that top by (simp add: unat_plus_if')
  qed
  have frame: "apart (ucp + i) n (e + j) l"
    if "0 < n" "0 < l" "unat i + unat n \<le> 436" "unat j + unat l \<le> 4 + 4 * ?a" for i n j l
    unfolding e using that b off [of j] by (intro apart_part [OF sep]) simp_all
  have m2: "m2 p = m p" if "size \<le> p - base" for p
  proof -
    have "unat (of_nat (4 * ?a) :: uint) = 4 * ?a" using len by (rule unat_of_nat32)
    then have "of_nat (4 * ?a) \<le> p - (e + 4)" unfolding e using off [of 4] b by (intro far_part [OF that]) simp
    moreover have "4 \<le> p - (e + 0)" unfolding e using off [of 0] b by (intro far_part [OF that]) simp
    ultimately show ?thesis using copy_words_far [OF len, of p "e + 4" m] by (simp add: m2_def m1_def store32_other)
  qed
  have "holds_context ?c m2 k"
  proof (rule holds_context_cong [OF _ h])
    fix i :: uint
    assume "i < 80"
    then have "128 + i < 436" by (simp add: word_less_nat_alt unat_plus_if')
    from apart_in [OF apart_sym [OF sep] this] show "m2 (?c + i) = m (?c + i)"
      by (intro m2) (simp add: c add.assoc)
  qed
  then have "holds_context ?c (store32 (?c + 72) e (store32 (?c + 60) func m2))
      (k\<lparr>eip := func, reg := (reg (k\<lparr>eip := func\<rparr>))(ESP := e)\<rparr>)"
    by (intro holds_context_esp holds_context_eip)
  then show "holds_context ?c (makecontext ucp func args m) (k\<lparr>reg := (reg k)(ESP := e), eip := func\<rparr>)"
    by (cases k) (simp add: M)
  have load: "load32 (makecontext ucp func args m) (e + j) = load32 m2 (e + j)" if "unat j + 4 \<le> 4 + 4 * ?a" for j
    using that frame [of 4 4 200 j] frame [of 4 4 188 j] by (simp add: M c load32_store32_other add.assoc)
  show "load32 (makecontext ucp func args m) e = 0" using load [of 0] by (simp add: m2_def load32_same)
  show "load32 (makecontext ucp func args m) (e + 4 + of_nat (4 * i)) = args ! i" if "i < ?a"
  proof -
    have j: "unat (4 + of_nat (4 * i) :: uint) = 4 + 4 * i" using that len unat_of_nat32 [of "4 + 4 * i"] by simp
    have "apart e 4 (e + (4 + of_nat (4 * i))) 4"
      using that len room top by (auto simp: apart_dist intro!: exI [of _ "4 + 4 * i"])
    then have "load32 m2 (e + (4 + of_nat (4 * i))) = load32 m1 (e + 4 + of_nat (4 * i))"
      unfolding m2_def by (simp only: load32_store32_other add.assoc)
    also have "\<dots> = args ! i" unfolding m1_def by (rule copy_words_load [OF len that])
    finally show ?thesis using load [of "4 + of_nat (4 * i)"] that unfolding j by (simp only: add.assoc)
  qed
  assume "436 \<le> p - ucp" "size \<le> p - base"
  then show "makecontext ucp func args m p = m p"
    using far_part [of 436 p ucp 188 4] far_part [of 436 p ucp 200 4] m2 [of p]
    by (simp add: M c store32_other add.assoc)
qed

lemma init_context_spec:
  fixes uc base bytes entry y x :: uint
  defines "e \<equiv> of_nat (frame_at (unat (base + 8)) (unat (bytes - 64)) 2) :: uint"
  assumes m': "m' = init_context uc base bytes entry ra y x m"
    and room: "98 \<le> unat bytes" and top: "unat base + unat bytes < 2 ^ 32"
    and sep: "apart uc 436 base bytes" and own: "apart uc 436 (reg m ESP - 8) 8"
  shows "holds_context (uc + uc_xmcontext) (mem m')
      (m\<lparr>reg := (reg m)(EAX := 1, ESP := e), eip := entry\<rparr>)"
    and "unat base + 8 \<le> unat e" and "unat e + 12 \<le> unat base + unat bytes" and "(unat e + 4) mod 16 = 0"
    and "load32 (mem m') e = 0" and "load32 (mem m') (e + 4) = y" and "load32 (mem m') (e + 8) = x"
proof -
  define m1 where "m1 = call_asm ra (uc + uc_xmcontext) getxmcontext m"
  define mm where "mm = store32 (uc + uc_stack_size) (bytes - 64) (store32 (uc + uc_stack_sp) (base + 8) (mem m1))"
  have offs: "uc_xmcontext = 128" "uc_stack_sp = 392" "uc_stack_size = 400"
    by (simp_all add: uc_xmcontext_def uc_stack_sp_def uc_stack_size_def)
  have own': "apart (uc + uc_xmcontext) 80 (reg m ESP - 8) 8"
    using apart_part [OF own, of 80 8 128 0] by (simp add: offs)
  note G = call_get [OF own' m1_def]
  have "holds_context (uc + uc_xmcontext) mm (m1\<lparr>reg := (reg m1)(EAX := 1)\<rparr>)"
  proof (rule holds_context_cong [OF _ G(4)])
    fix i :: uint
    assume "i < 80"
    then have i: "unat i < 80" by (simp add: word_less_nat_alt)
    have "unat (i + 128 - 392) = 2 ^ 32 + unat i - 264" "unat (i + 128 - 400) = 2 ^ 32 + unat i - 272"
      using i by (simp_all add: unat_sub_if' unat_plus_if')
    then have "4 \<le> i + 128 - 392" "4 \<le> i + 128 - 400" by (simp_all add: word_le_nat_alt)
    then show "mm (uc + uc_xmcontext + i) = mem m1 (uc + uc_xmcontext + i)"
      by (simp add: mm_def offs store32_other algebra_simps)
  qed
  note h = this
  have l: "load32 mm (uc + uc_stack_size) = bytes - 64" "load32 mm (uc + uc_stack_sp) = base + 8"
    by (simp_all add: mm_def offs load32_same load32_store32_other apart_fields)
  have u: "unat (bytes - 64) = unat bytes - 64" using room unat_sub [of 64 bytes] by (simp add: word_le_nat_alt)
  have v: "unat (base + 8) = unat base + 8" using room top by (simp add: unat_plus_if')
  have sep': "apart uc 436 (base + 8) (bytes - 64)"
    using apart_part [OF sep, of 436 "bytes - 64" 0 8] room u by (simp add: word_less_nat_alt)
  have r: "4 * length [y, x] + 26 \<le> unat (bytes - 64)" "unat (base + 8) + unat (bytes - 64) < 2 ^ 32"
    using room top u v by simp_all
  note S = makecontext_spec [OF l(2,1) r sep' h, where func = entry]
  have len: "length [y, x] = 2" by simp
  have M: "mem m' = makecontext uc entry [y, x] mm"
    by (simp add: m' init_context_def Let_def m1_def mm_def)
  have b: "unat base + 8 \<le> frame_at (unat (base + 8)) (unat (bytes - 64)) 2"
    "frame_at (unat (base + 8)) (unat (bytes - 64)) 2 + 12 \<le> unat base + unat bytes"
    "(frame_at (unat (base + 8)) (unat (bytes - 64)) 2 + 4) mod 16 = 0"
    using frame_bounds [of 2 "unat (bytes - 64)" "unat (base + 8)"] r u v by simp_all
  then have ue: "unat e = frame_at (unat (base + 8)) (unat (bytes - 64)) 2"
    unfolding e_def using top by (intro unat_of_nat32) linarith
  show "unat base + 8 \<le> unat e" "unat e + 12 \<le> unat base + unat bytes" "(unat e + 4) mod 16 = 0"
    using b by (simp_all only: ue)
  show "holds_context (uc + uc_xmcontext) (mem m') (m\<lparr>reg := (reg m)(EAX := 1, ESP := e), eip := entry\<rparr>)"
    using S(1) unfolding len M e_def holds_context_def all_reg all_seg by (simp add: G(1,2))
  show "load32 (mem m') e = 0" using S(2) unfolding len M e_def .
  show "load32 (mem m') (e + 4) = y" "load32 (mem m') (e + 8) = x"
    using S(3) [of 0] S(3) [of 1] unfolding len M e_def by (simp_all add: add.assoc)
qed

lemma join_halves: "halves t = (y, x) \<Longrightarrow> join_halves y x = t"
proof -
  have "drop_bit 32 t = 0" by (rule bit_word_eqI) (auto simp: bit_simps dest: bit_imp_le_length)
  then show "halves t = (y, x) \<Longrightarrow> join_halves y x = t"
    by (auto simp: halves_def join_halves_def Let_def)
qed

text \<open>
  C8: the first switch to a new task starts \<open>taskstart\<close> with the pointer to the task. The frame
  lies within the task's stack, the stack is aligned as the ABI asks (16 bytes behind the return
  address), the return address is 0, and the two halves of the pointer, joined by \<open>taskstart\<close>, are
  the pointer that \<open>taskalloc\<close> split. The stack has 98 bytes at least; with fewer than 64 the size
  that \<open>taskalloc\<close> passes on wraps around.
\<close>

theorem new_task_starts:
  assumes m': "m' = init_context uc base bytes entry ra y x m" and t: "halves t = (y, x)"
    and room: "98 \<le> unat bytes" and top: "unat base + unat bytes < 2 ^ 32"
    and sep: "apart uc 436 base bytes" and own: "apart uc 436 (reg m ESP - 8) 8"
    and kept: "\<And>i. i < 80 \<Longrightarrow> mem n (uc + uc_xmcontext + i) = mem m' (uc + uc_xmcontext + i)"
      "\<And>i. i < bytes \<Longrightarrow> mem n (base + i) = mem m' (base + i)"
    and caller: "apart (uc + uc_xmcontext) 80 (reg n ESP - 8) 8" "apart base bytes (reg n ESP - 8) 8"
    and z: "z = call_asm rd (uc + uc_xmcontext) setxmcontext n"
  shows "eip z = entry \<and> unat base \<le> unat (reg z ESP) \<and> unat (reg z ESP) + 12 \<le> unat base + unat bytes \<and>
    (unat (reg z ESP) + 4) mod 16 = 0 \<and> load32 (mem z) (reg z ESP) = 0 \<and>
    join_halves (load32 (mem z) (reg z ESP + 4)) (load32 (mem z) (reg z ESP + 8)) = t"
proof -
  define e where "e = (of_nat (frame_at (unat (base + 8)) (unat (bytes - 64)) 2) :: uint)"
  note I = init_context_spec [OF m' room top sep own, folded e_def]
  have e: "e + j = base + (of_nat (unat e - unat base) + j)" for j using I(2) by (simp add: of_nat_diff)
  have off: "unat (of_nat (unat e - unat base) + j :: uint) = unat e - unat base + unat j" if "unat j \<le> 12" for j :: uint
  proof -
    have "unat (of_nat (unat e - unat base) :: uint) = unat e - unat base" using I(3) top by (intro unat_of_nat32) linarith
    moreover have "unat e - unat base + unat j < 2 ^ 32" using that I(2,3) room top by linarith
    ultimately show ?thesis by (simp add: unat_plus_if')
  qed
  let ?k = "m\<lparr>reg := (reg m)(EAX := 1, ESP := e), eip := entry\<rparr>"
  have h: "holds_context (uc + uc_xmcontext) (mem n) ?k" by (rule holds_context_cong [OF kept(1) I(1)])
  have slot: "apart (uc + uc_xmcontext) 80 (reg ?k ESP - 4) 4"
  proof -
    define w where "w = (of_nat (unat e - unat base - 4) :: uint)"
    have w: "unat w = unat e - unat base - 4" unfolding w_def using I(3) top by (intro unat_of_nat32) linarith
    have eq: "reg ?k ESP - 4 = base + w" using I(2) by (simp add: w_def of_nat_diff)
    show ?thesis unfolding eq uc_xmcontext_def using I(2,3) by (intro apart_part [OF sep]) (simp_all add: w)
  qed
  note Z = call_set [OF h caller(1) slot z]
  have byte: "mem z (e + j) = mem m' (e + j)" if "unat j < 12" for j
  proof -
    have i: "of_nat (unat e - unat base) + j < bytes" using off [of j] that I(2,3) by (simp add: word_less_nat_alt)
    have "4 \<le> j + 4" using that by (simp add: word_le_nat_alt unat_plus_if')
    then have "4 \<le> e + j - (reg ?k ESP - 4)" by (simp add: algebra_simps)
    then have "mem z (e + j) = mem n (e + j)"
      unfolding e [of j] by (intro Z(4)) (rule apart_in [OF apart_sym [OF caller(2)] i])
    then show ?thesis using kept(2) [OF i] unfolding e [of j] by simp
  qed
  have "load32 (mem z) (e + j) = load32 (mem m') (e + j)" if "unat j \<le> 8" for j
  proof (rule load32_cong)
    fix i :: uint
    assume "i < 4"
    then have "unat (j + i) < 12" using that by (simp add: word_less_nat_alt unat_plus_if')
    then show "mem z (e + j + i) = mem m' (e + j + i)" using byte [of "j + i"] by (simp add: add.assoc)
  qed
  from this [of 0] this [of 4] this [of 8] show ?thesis
    using I Z(1,3) join_halves [OF t] by simp
qed

section \<open>Instances\<close>

definition machine_at :: "uint \<Rightarrow> machine" where
  "machine_at sp = \<lparr>reg = (\<lambda>_. 7)(ESP := sp), seg = (\<lambda>_. 0), eip = 0, mem = (\<lambda>_. 0)\<rparr>"

definition now_at :: "uint \<Rightarrow> machine \<Rightarrow> machine" where
  "now_at sp m = m\<lparr>reg := (\<lambda>_. 9)(ESP := sp)\<rparr>"

definition blank_context :: machine where
  "blank_context = \<lparr>reg = (\<lambda>_. 0), seg = (\<lambda>_. 0), eip = 0, mem = (\<lambda>_. 0)\<rparr>"

lemma blank_holds: "holds_context c (mem (machine_at sp)) blank_context"
  by (simp add: holds_context_def machine_at_def blank_context_def load32_def load16_def of_bytes_def)

theorem swapcontext_resumes_witness:
  "let m = machine_at 0x10000; x = swapcontext 0x1000 0x2000 10 20 m; y = now_at 0x20000 x;
     z = swapcontext 0x3000 0x1000 30 40 y
   in eip z = 10 \<and> reg z = (reg m)(ESP := 0xFFFC, EAX := 1)"
  unfolding Let_def
  using swapcontext_resumes [where a = "0x1000" and b = "0x2000" and d = "0x3000" and m = "machine_at 0x10000" and k = blank_context
      and y = "now_at 0x20000 (swapcontext 0x1000 0x2000 10 20 (machine_at 0x10000))" and ra = 10 and ra' = 20
      and rd = 30 and rd' = 40, OF refl refl refl refl] blank_holds
  by (simp add: uc_xmcontext_def apart_def machine_at_def now_at_def blank_context_def)

theorem new_task_starts_witness:
  "let m' = init_context 0x4000 0x5000 32768 0x8048000 10 0x3f00 0 (machine_at 0x20000);
     z = call_asm 20 (0x4000 + uc_xmcontext) setxmcontext (now_at 0x30000 m')
   in eip z = 0x8048000 \<and> join_halves (load32 (mem z) (reg z ESP + 4)) (load32 (mem z) (reg z ESP + 8)) = 0x3f00"
  unfolding Let_def
  using new_task_starts [where t = "0x3f00" and y = "0x3f00" and x = 0 and bytes = 32768 and base = "0x5000" and uc = "0x4000"
      and m = "machine_at 0x20000" and entry = "0x8048000" and ra = 10 and rd = 20
      and n = "now_at 0x30000 (init_context 0x4000 0x5000 32768 0x8048000 10 0x3f00 0 (machine_at 0x20000))",
      OF refl _ _ _ _ _ _ _ _ _ refl]
  by (simp add: halves_def uc_xmcontext_def apart_def machine_at_def now_at_def)

end
