(* ===== verification/Spec2Isabelle.thy ===== *)
theory Spec2Isabelle
  imports Core Chanlog Netprops Tcpproxy Primes Testdelay Httpload Context
begin

text \<open>
  A model of libtask, a library of coroutines for C (src/, the i386 build of the Makefile), and the
  theorems that make it correct.

  \<^bold>\<open>The program.\<close> A process has one thread and many tasks, each with a stack of its own. task.c
  creates tasks and runs the scheduler, which takes the first task of the run queue and switches to
  its context (context.c, asm.S); the task runs until it calls \<open>taskswitch\<close>. Everything else is built
  on this: locks (qlock.c), rendezvous points (rendez.c) and channels (channel.c) put the running
  task into a list and switch; another task makes it ready again. fd.c has a system task, \<open>fdtask\<close>,
  that polls the descriptors for all other tasks and wakes those that sleep; net.c announces,
  accepts and dials on top of it. print.c formats the names and states of tasks and addresses.

  \<^bold>\<open>How code is modelled\<close> (Prelude). The code of a function is a function of the global state with
  one of three outcomes: \<open>Ret\<close> (it returns), \<open>Switch\<close> (it gives up the CPU, with the rest of its code, a
  function of the state in which it is resumed), \<open>Halt\<close> (the process ends, with a reason of type
  \<open>stop\<close>). \<open>bnd\<close> is the sequence of two statements, \<open>get\<close> and \<open>upd\<close> access the state, \<open>whenp\<close> is an
  \<open>if\<close> without \<open>else\<close>. An access to an object that is not live, a nil pointer or an index out of range
  is \<open>Halt BadMem\<close>, so that memory safety is a theorem and not an assumption. Integers are words:
  \<open>int\<close>, \<open>unsigned\<close>, \<open>long\<close> and pointers have 32 bits, \<open>uvlong\<close> has 64; \<open>sint\<close> is the signed reading.
  The state is one record that each component extends: \<open>sched\<close> (task.c), \<open>qlocks\<close>, \<open>rwlocks\<close>,
  \<open>rendezs\<close>, \<open>chans\<close>, \<open>sys\<close> (the operating system), \<open>fds\<close>, and at the end the variables of the program
  that uses the library.

  \<^bold>\<open>Theories and sources.\<close>
  \<^item> Print: print.c. \<open>vseprint\<close> writes into a buffer of a given size; \<open>directive\<close>, \<open>verb\<close> and \<open>fmtnum\<close>
    are the parts of its loop. What is shown: it stays in the buffer, numbers read back.
  \<^item> Tasklists: \<open>struct Task\<close>, \<open>struct Tasklist\<close>, \<open>addtask\<close>, \<open>deltask\<close>. The lists are pointers in a store;
    \<open>queues_ok s L\<close> says that the list \<open>q\<close> of the state \<open>s\<close> represents the queue \<open>L q\<close>.
  \<^item> Sched: the rest of task.c, one definition for each function, with \<open>sched_round\<close> for the body of
    the scheduler's loop, \<open>retire\<close> and \<open>reap\<close> for its end.
  \<^item> Safety: the invariant of task.c (\<open>sched_inv\<close>) and the interface \<open>sched_client\<close> between the scheduler
    and the code of the tasks, by rely and guarantee: an invariant \<open>J\<close> of the components above, a
    relation \<open>Keep\<close> that every task may rely on while it waits, the precondition \<open>Pre\<close> of a start. In
    the locale: a scheduler whose tasks keep to it never reaches \<open>BadMem\<close> (\<open>taskscheduler_safe\<close>).
  \<^item> Calls: every call of task.c keeps the contract. The locales \<open>framed\<close> and \<open>waking\<close> are about loops
    that empty a waiting list; they are interpreted by rwlocks and rendezvous points.
  \<^item> Core: the properties of task.c. Examples: a small state in which properties are instantiated.
  \<^item> Qlock, Rwlock, Rendez: qlock.c and rendez.c, each with its calls, a protocol as an inductive
    set of reachable states (\<open>qlock_sys\<close>, \<open>rw_sys\<close>), the locale that extends the interface by its calls
    and the interpretation of that locale on the component.
  \<^item> Channel, Chanalt: channel.c. A channel's buffer is bytes in a ring; \<open>contents\<close> is the queue it
    represents. Chaninv, Chansafe, Chanclient: the invariant (\<open>chan_inv\<close>), that \<open>chanalt\<close> keeps it, and
    the interface for all calls (locale \<open>chan_client\<close>, interpreted as \<open>chans\<close>). Chanprops: the
    properties of single operations. Chanlog: the history of a channel under any interleaving.
  \<^item> Sys: the system calls that the sources use. The kernel is a parameter, a function of all earlier
    calls; \<open>kern_ok\<close> (Fdclient) states what its manual promises of lengths.
  \<^item> Fd, Fdclient, Fdprops: fd.c, its invariant and the interface with everything below (the
    interpretation \<open>fds\<close>), its properties. Turns: partial correctness of one turn of a task, without
    assumptions on the state. Stream: \<open>fdwrite\<close> across its waits.
  \<^item> Net, Netclient, Netprops: net.c in the same way.
  \<^item> Libc: the objects of a program (\<open>malloc\<close>, \<open>free\<close>, local arrays), integers and strings in them.
  \<^item> Program: programs that use the library. \<open>client\<close> is a type system: which channels and objects a
    task knows, and which calls it may make with them; the tasks of a program share its variables,
    and \<open>globals\<close> says what holds of them from the moment they are set up. A well-typed program is
    safe, from the start of the process, whatever the kernel answers, \<open>malloc\<close> does and \<open>rand\<close> draws.
    testdelay1.c is an instance, and so are Primes (primes.c), Testdelay (testdelay.c) and Httpload
    (httpload.c).
  \<^item> Tcpproxy: tcpproxy.c. It frees an object of its own, which the type system does not follow; what
    is shown is that \<open>rwtask\<close> forwards a stream, by composing \<open>fdread\<close> with \<open>fdwrite\<close> of Stream.
  \<^item> Context: context.c, asm.S and the context part of \<open>taskalloc\<close> on a machine of registers and bytes:
    switching back resumes a coroutine where it was, and a new task starts on its own stack. It is
    what justifies \<open>Switch\<close>, where a saved context is the rest of the code.

  \<^bold>\<open>Loops and fuel.\<close> Loops over data are structural or have a measure. Loops that follow pointers
  take fuel: \<open>Suc (brk s)\<close>, one more than the number of tasks ever created, for the lists of waiting
  tasks (\<open>taskwakeup_counts\<close>, \<open>wunlock_wakes\<close>, \<open>fdtask_wakes_sleepers\<close> and \<open>taskdelay_inserts\<close> show that it
  is enough, since a list has no task twice), the number of entries left for the array of
  descriptors (\<open>fdtask_wakes_pollers\<close>), the length of the buffer for the outer loop of \<open>fdwrite\<close>
  (\<open>fdwrite_stream\<close>: it writes a byte in each round). Loops that may wait for ever (\<open>fdread\<close>, the inner
  loop of \<open>fdwrite\<close>, \<open>fdtask\<close>, \<open>while (taskyield())\<close>, the scheduler, the endless loops of the example programs) take the
  number of rounds as an argument, and theorems hold for every number. \<open>Halt NoFuel\<close> is then the only
  outcome that is not one of the code.

  \<^bold>\<open>Conventions.\<close> A task, a channel or an array of \<open>Alt\<close> is named by a number that \<open>malloc\<close> never
  gives again; where the code does arithmetic with addresses (\<open>needstack\<close>, Context) they are words.
  \<open>malloc\<close> may fail at any time, and what it and uninitialised variables contain is arbitrary
  (\<open>alloc_ok\<close>, \<open>junk\<close>, \<open>frame_junk\<close>). Functions that tasks run are numbers; \<open>code\<close> gives their code.

  \<^bold>\<open>Not modelled.\<close>
  \<^item> \<open>taskdebug\<close>, which returns at once; the messages before an \<open>abort\<close>; the installation of the
    signal handler that prints the table of tasks (the table itself is \<open>taskinfo_rows\<close>).
  \<^item> Reuse of memory after \<open>free\<close>. \<open>chanfree\<close> is modelled, but a program that may call it is outside
    \<open>client\<close>: whether a task still waits for the channel is not visible in the code. A local array
    stays live after its function has returned, so that a pointer to it that is kept is not found.
  \<^item> What the compiler puts between the two calls of \<open>swapcontext\<close>; the signal mask and the floating
    point registers, which asm.S does not touch.
  \<^item> Safety of tcpproxy.c as a whole. \<open>emalloc\<close> and \<open>lrand\<close> of primes.c, which nothing calls.
  \<^item> \<open>atoi\<close>, \<open>strerror\<close> and the terminal: \<open>atoi\<close> is a parameter, the text of an error stands as its number,
    and what a program prints is a list of formats with their arguments.
  \<^item> The declarations of task.h and taskimpl.h other than the structures.
\<close>

end
